(* ===== verification/C_Prelude.thy ===== *)
theory C_Prelude
  imports Main "HOL-Library.Word" "HOL-Library.Monad_Syntax" "HOL-Library.Multiset"
begin

text \<open>
  The prelude of the development: the machine types of the C programs, pointers, byte buffers
  and the few C library routines on them (\<^verbatim>\<open>strlen\<close>, \<^verbatim>\<open>memcmp\<close>, \<^verbatim>\<open>memcpy\<close>,
  \<^verbatim>\<open>strcpy\<close>), checked array access, and singly linked node lists in a store of nodes.

  Every operation of a component that could be undefined in C (a null or dangling dereference,
  a read past the end of a buffer, a double free) returns an \<open>option\<close>: \<open>None\<close> is \<^emph>\<open>no defined
  result\<close>, and a theorem that an operation is memory safe says that it returns \<open>Some\<close>.
  A loop over a linked structure is a \<^theory_text>\<open>partial_function (option)\<close>, so a loop that never ends
  is \<open>None\<close> too.
\<close>

section \<open>Machine types and pointers\<close>

type_synonym byte = "8 word"
type_synonym u32 = "32 word"
type_synonym u64 = "64 word"
type_synonym addr = nat

datatype ptr = Null | Ref addr

type_synonym 'n store = "addr \<rightharpoonup> 'n"

named_theorems lru_simps \<open>unfolding rules of the LRU cache operations\<close>
named_theorems queue_simps \<open>unfolding rules of the linked queues\<close>

lemma ptr_not_Null [simp]: "p \<noteq> Null \<longleftrightarrow> (\<exists>a. p = Ref a)"
  by (cases p) auto

definition bytes :: "string \<Rightarrow> byte list" where
  "bytes s = map of_char s"

section \<open>Checked arrays\<close>

definition array_get :: "'a list \<Rightarrow> nat \<Rightarrow> 'a option" where
  "array_get xs i = (if i < length xs then Some (xs ! i) else None)"

definition array_set :: "'a list \<Rightarrow> nat \<Rightarrow> 'a \<Rightarrow> 'a list option" where
  "array_set xs i v = (if i < length xs then Some (xs[i := v]) else None)"

lemma array_get_in [simp]: "i < length xs \<Longrightarrow> array_get xs i = Some (xs ! i)"
  by (simp add: array_get_def)

lemma array_get_out [simp]: "\<not> i < length xs \<Longrightarrow> array_get xs i = None"
  by (simp add: array_get_def)

lemma array_set_in [simp]: "i < length xs \<Longrightarrow> array_set xs i v = Some (xs[i := v])"
  by (simp add: array_set_def)

lemma array_set_out [simp]: "\<not> i < length xs \<Longrightarrow> array_set xs i v = None"
  by (simp add: array_set_def)

section \<open>Lists updated at one position\<close>

lemma mset_concat_update:
  assumes "i < length bs"
  shows "mset (concat (bs[i := b])) + mset (bs ! i) = mset (concat bs) + mset b"
proof -
  have "bs = take i bs @ bs ! i # drop (Suc i) bs" using assms by (rule id_take_nth_drop)
  then have "mset (concat bs) =
      mset (concat (take i bs)) + mset (bs ! i) + mset (concat (drop (Suc i) bs))"
    by (metis (no_types, lifting) concat.simps(2) concat_append mset_append union_assoc)
  moreover have "mset (concat (bs[i := b])) =
      mset (concat (take i bs)) + mset b + mset (concat (drop (Suc i) bs))"
    using assms by (simp add: upd_conv_take_nth_drop)
  ultimately show ?thesis by (simp add: ac_simps)
qed

text \<open>The number of elements with a property: how many threads are at a control point.\<close>

definition num :: "('a \<Rightarrow> bool) \<Rightarrow> 'a list \<Rightarrow> nat" where
  "num P xs = length (filter P xs)"

lemma num_update:
  "i < length xs \<Longrightarrow> num P (xs[i := x]) + of_bool (P (xs ! i)) = num P xs + of_bool (P x)"
proof (induction xs arbitrary: i)
  case (Cons y xs)
  then show ?case by (cases i) (force simp: num_def)+
qed simp

lemma int_num_update:
  "i < length xs \<Longrightarrow> int (num P (xs[i := x])) = int (num P xs) - of_bool (P (xs ! i)) + of_bool (P x)"
  using num_update [of i xs P x] by (simp add: of_bool_def split: if_splits)

lemma num_zero: "num P xs = 0 \<longleftrightarrow> (\<forall>x \<in> set xs. \<not> P x)"
  by (simp add: num_def filter_empty_conv)

lemma num_le: "num P xs \<le> length xs"
  by (simp add: num_def)

lemma num_all: "num P xs = length xs \<longleftrightarrow> (\<forall>x \<in> set xs. P x)"
  using length_filter_less [of _ xs P] by (fastforce simp: num_def)

lemma num_replicate [simp]: "num P (replicate n x) = (if P x then n else 0)"
  by (simp add: num_def)

text \<open>A step of a thread: it may be blocked, it may do something undefined, or it proceeds.\<close>

datatype 'a outcome = Blocked | Fault | Next 'a

definition checked :: "'a option \<Rightarrow> 'a outcome" where
  "checked x = (case x of None \<Rightarrow> Fault | Some y \<Rightarrow> Next y)"

lemma checked_simps [simp]: "checked None = Fault" "checked (Some y) = Next y" "checked x = Next y \<longleftrightarrow> x = Some y"
  "checked x = Fault \<longleftrightarrow> x = None" "checked x \<noteq> Blocked"
  by (auto simp: checked_def split: option.splits)

fun and_then :: "'a outcome \<Rightarrow> ('a \<Rightarrow> 'b) \<Rightarrow> 'b outcome" where
  "and_then (Next s) f = Next (f s)"
| "and_then Fault f = Fault"
| "and_then Blocked f = Blocked"

lemma and_then_Next: "and_then r f = Next y \<longleftrightarrow> (\<exists>x. r = Next x \<and> y = f x)"
  by (cases r) auto

lemma and_then_Fault [simp]: "and_then r f = Fault \<longleftrightarrow> r = Fault"
  by (cases r) auto

lemma and_then_Blocked [simp]: "and_then r f = Blocked \<longleftrightarrow> r = Blocked"
  by (cases r) auto

section \<open>Byte buffers and C strings\<close>

text \<open>A C string of content \<open>s\<close> in a buffer is \<open>s @ [0]\<close>, possibly followed by more bytes.\<close>

fun strlen :: "byte list \<Rightarrow> nat option" where
  "strlen [] = None"
| "strlen (b # bs) = (if b = 0 then Some 0 else map_option Suc (strlen bs))"

definition cstring :: "byte list \<Rightarrow> bool" where
  "cstring s \<longleftrightarrow> 0 \<notin> set s"

fun memcmp :: "byte list \<Rightarrow> byte list \<Rightarrow> nat \<Rightarrow> int option" where
  "memcmp xs ys 0 = Some 0"
| "memcmp (x # xs) (y # ys) (Suc n) =
     (if x = y then memcmp xs ys n else Some (if x < y then - 1 else 1))"
| "memcmp _ _ (Suc n) = None"

definition memcpy :: "byte list \<Rightarrow> byte list \<Rightarrow> nat \<Rightarrow> byte list option" where
  "memcpy dst src n =
     (if n \<le> length dst \<and> n \<le> length src then Some (take n src @ drop n dst) else None)"

definition strcpy :: "byte list \<Rightarrow> byte list \<Rightarrow> byte list option" where
  "strcpy dst src = do { n \<leftarrow> strlen src; memcpy dst src (Suc n) }"

lemma strlen_cstring [simp]: "cstring s \<Longrightarrow> strlen (s @ 0 # r) = Some (length s)"
  by (induction s) (auto simp: cstring_def)

lemma strlen_SomeD: "strlen bs = Some n \<Longrightarrow> n < length bs \<and> bs ! n = 0 \<and> cstring (take n bs)"
  by (induction bs arbitrary: n) (auto simp: cstring_def split: if_splits)

lemma memcmp_length_Some:
  "n \<le> length xs \<Longrightarrow> n \<le> length ys \<Longrightarrow> \<exists>r. memcmp xs ys n = Some r \<and> (r = 0 \<longleftrightarrow> take n xs = take n ys)"
  by (induction xs ys n rule: memcmp.induct) auto

lemma length_memcpy: "memcpy dst src n = Some bs \<Longrightarrow> length bs = length dst"
  by (auto simp: memcpy_def split: if_splits)

lemma memcpy_full [simp]: "length dst = n \<Longrightarrow> n \<le> length src \<Longrightarrow> memcpy dst src n = Some (take n src)"
  by (simp add: memcpy_def)

lemma strcpy_fresh [simp]:
  "cstring s \<Longrightarrow> length dst = Suc (length s) \<Longrightarrow> strcpy dst (s @ [0]) = Some (s @ [0])"
  by (simp add: strcpy_def)

section \<open>Linked nodes in a store\<close>

text \<open>
  \<open>chain nxt h p as\<close>: following \<open>nxt\<close> from the pointer \<open>p\<close> in the store \<open>h\<close> visits the nodes
  at the addresses \<open>as\<close>, all allocated, and ends at the null pointer.
\<close>

primrec path :: "('n \<Rightarrow> ptr) \<Rightarrow> 'n store \<Rightarrow> ptr \<Rightarrow> addr list \<Rightarrow> ptr \<Rightarrow> bool" where
  "path nxt h p [] q \<longleftrightarrow> p = q"
| "path nxt h p (a # as) q \<longleftrightarrow> p = Ref a \<and> (\<exists>n. h a = Some n \<and> path nxt h (nxt n) as q)"

abbreviation chain :: "('n \<Rightarrow> ptr) \<Rightarrow> 'n store \<Rightarrow> ptr \<Rightarrow> addr list \<Rightarrow> bool" where
  "chain nxt h p as \<equiv> path nxt h p as Null"

lemma path_append [simp]:
  "path nxt h p (as @ bs) q \<longleftrightarrow> (\<exists>r. path nxt h p as r \<and> path nxt h r bs q)"
  by (induction as arbitrary: p) auto

lemma path_upd_notin [simp]: "a \<notin> set as \<Longrightarrow> path nxt (h(a := x)) p as q \<longleftrightarrow> path nxt h p as q"
  by (induction as arbitrary: p) auto

lemma path_cong:
  "(\<And>a. a \<in> set as \<Longrightarrow> map_option nxt (h a) = map_option nxt (h' a)) \<Longrightarrow>
   path nxt h p as q \<longleftrightarrow> path nxt h' p as q"
proof (induction as arbitrary: p)
  case (Cons a as)
  have "map_option nxt (h a) = map_option nxt (h' a)" using Cons.prems by simp
  moreover have "path nxt h r as q \<longleftrightarrow> path nxt h' r as q" for r using Cons by simp
  ultimately show ?case by (auto simp: map_option_case split: option.splits)
qed simp

lemma path_allocated: "path nxt h p as q \<Longrightarrow> a \<in> set as \<Longrightarrow> \<exists>n. h a = Some n"
  by (induction as arbitrary: p) auto

lemma chain_Null [simp]: "chain nxt h Null as \<longleftrightarrow> as = []"
  by (cases as) auto

lemma chain_Ref: "chain nxt h (Ref a) as \<longleftrightarrow> (\<exists>n bs. as = a # bs \<and> h a = Some n \<and> chain nxt h (nxt n) bs)"
  by (cases as) auto

lemma chain_unique: "chain nxt h p as \<Longrightarrow> chain nxt h p bs \<Longrightarrow> as = bs"
proof (induction as arbitrary: p bs)
  case (Cons a as)
  then show ?case by (auto simp: chain_Ref)
qed simp

text \<open>The last node of a chain: what a traversal that remembers its predecessor ends with.\<close>

definition last_ptr :: "ptr \<Rightarrow> addr list \<Rightarrow> ptr" where
  "last_ptr p as = (if as = [] then p else Ref (last as))"

lemma last_ptr_Nil [simp]: "last_ptr p [] = p"
  by (simp add: last_ptr_def)

lemma last_ptr_Cons [simp]: "last_ptr p (a # as) = last_ptr (Ref a) as"
  by (simp add: last_ptr_def)

lemma last_ptr_snoc [simp]: "last_ptr p (as @ [a]) = Ref a"
  by (simp add: last_ptr_def)

text \<open>
  The interface of a node type: a link field that can be read and overwritten. The three
  linked structures of the programs (cache items, queued jobs, pool tasks) interpret it.
\<close>

locale linked_nodes =
  fixes nxt :: "'n \<Rightarrow> ptr"
    and set_nxt :: "ptr \<Rightarrow> 'n \<Rightarrow> 'n"
  assumes nxt_set: "nxt (set_nxt p n) = p"
begin

lemma chain_snoc:
  assumes "chain nxt h p (as @ [a])" and "distinct (as @ [a])"
    and "h a = Some n" and "b \<notin> set (as @ [a])" and "nxt m = Null"
  shows "chain nxt (h(b \<mapsto> m, a \<mapsto> set_nxt (Ref b) n)) p (as @ [a, b])"
proof -
  have "path nxt (h(b \<mapsto> m, a \<mapsto> set_nxt (Ref b) n)) p as (Ref a)" using assms by auto
  then show ?thesis using assms by (auto simp: nxt_set)
qed

lemma chain_unlink:
  assumes "chain nxt h p (as @ a # b # bs)" and "distinct (as @ a # b # bs)"
    and "h a = Some n" and "h b = Some m"
  shows "chain nxt (h(a \<mapsto> set_nxt (nxt m) n)) p (as @ a # bs)"
  using assms by (auto simp: nxt_set)

lemma chain_advance:
  "chain nxt h p (a # as) \<Longrightarrow> h a = Some n \<Longrightarrow> chain nxt h (nxt n) as"
  by auto

end

end
