(* ===== verification/Lru_Cache.thy ===== *)
theory Lru_Cache
  imports C_Prelude
begin

text \<open>
  The LRU cache of \<^verbatim>\<open>src/lru_cache01/lru_cache.c\<close> and \<^verbatim>\<open>lru_cache.h\<close>, at the level of
  memory: cache items are nodes in a store, their keys and values are separately allocated
  blocks, and every access goes through a pointer. \<open>LRUCache\<close> is the cache structure with its
  bucket table (\<open>c_items\<close>, an array of \<open>hash_table_size\<close> pointers); \<open>lru_mem\<close> is the part of the
  C heap the cache uses.

  What \<^verbatim>\<open>malloc\<close> leaves undetermined is a parameter \<open>E\<close>: whether the n-th allocation fails, and
  what a fresh block contains. The code reads two such contents before it writes them (the
  bucket table and \<open>cache->age\<close> after \<open>LRUCacheNew\<close>, and \<open>item->next\<close> of an inserted item), so
  nothing about it can be said without speaking about \<open>E\<close>.
  The machine is the usual 64-bit little-endian one with a signed \<^verbatim>\<open>char\<close>.
\<close>

unbundle bit_operations_syntax

section \<open>Data\<close>

datatype LRUCacheError = LRU_CACHE_OK | LRU_CACHE_KEY_MISSING

record LRUCacheItem =
  i_key :: ptr
  i_value :: ptr
  i_value_length :: u64
  i_age :: u64
  i_next :: ptr

record LRUCache =
  c_items :: "ptr list"
  c_hash_table_size :: u64
  c_capacity :: u64
  c_current_entries :: u64
  c_age :: u64
  c_seed :: u64
  c_mutex :: bool

record lru_mem =
  item_at :: "LRUCacheItem store"
  block_at :: "byte list store"
  brk :: addr

record malloc_env =
  m_fails :: "addr \<Rightarrow> bool"
  m_item :: "addr \<Rightarrow> LRUCacheItem"
  m_byte :: "addr \<Rightarrow> nat \<Rightarrow> byte"
  m_slot :: "addr \<Rightarrow> nat \<Rightarrow> ptr"
  m_word :: "addr \<Rightarrow> u64"

abbreviation set_next :: "ptr \<Rightarrow> LRUCacheItem \<Rightarrow> LRUCacheItem" where
  "set_next p it \<equiv> it\<lparr>i_next := p\<rparr>"

interpretation item_list: linked_nodes i_next set_next
  by unfold_locales simp

section \<open>Allocation, deallocation, dereference, locking\<close>

definition malloc_item :: "malloc_env \<Rightarrow> lru_mem \<Rightarrow> ptr \<times> lru_mem" where
  "malloc_item E m =
     (let a = brk m in
      if m_fails E a then (Null, m\<lparr>brk := Suc a\<rparr>)
      else (Ref a, m\<lparr>item_at := (item_at m)(a \<mapsto> m_item E a), brk := Suc a\<rparr>))"

definition malloc_block :: "malloc_env \<Rightarrow> nat \<Rightarrow> lru_mem \<Rightarrow> ptr \<times> lru_mem" where
  "malloc_block E n m =
     (let a = brk m in
      if m_fails E a then (Null, m\<lparr>brk := Suc a\<rparr>)
      else (Ref a, m\<lparr>block_at := (block_at m)(a \<mapsto> map (m_byte E a) [0..<n]), brk := Suc a\<rparr>))"

definition free_block :: "ptr \<Rightarrow> lru_mem \<Rightarrow> lru_mem option" where
  "free_block p m =
     (case p of Null \<Rightarrow> Some m
      | Ref a \<Rightarrow> if block_at m a = None then None
                 else Some (m\<lparr>block_at := (block_at m)(a := None)\<rparr>))"

definition free_item :: "ptr \<Rightarrow> lru_mem \<Rightarrow> lru_mem option" where
  "free_item p m =
     (case p of Null \<Rightarrow> Some m
      | Ref a \<Rightarrow> if item_at m a = None then None
                 else Some (m\<lparr>item_at := (item_at m)(a := None)\<rparr>))"

definition get_item :: "ptr \<Rightarrow> lru_mem \<Rightarrow> LRUCacheItem option" where
  "get_item p m = (case p of Null \<Rightarrow> None | Ref a \<Rightarrow> item_at m a)"

definition put_item :: "ptr \<Rightarrow> (LRUCacheItem \<Rightarrow> LRUCacheItem) \<Rightarrow> lru_mem \<Rightarrow> lru_mem option" where
  "put_item p f m =
     (case p of Null \<Rightarrow> None
      | Ref a \<Rightarrow> (case item_at m a of None \<Rightarrow> None
                 | Some it \<Rightarrow> Some (m\<lparr>item_at := (item_at m)(a \<mapsto> f it)\<rparr>)))"

definition get_block :: "ptr \<Rightarrow> lru_mem \<Rightarrow> byte list option" where
  "get_block p m = (case p of Null \<Rightarrow> None | Ref a \<Rightarrow> block_at m a)"

definition put_block :: "ptr \<Rightarrow> byte list \<Rightarrow> lru_mem \<Rightarrow> lru_mem option" where
  "put_block p bs m =
     (case p of Null \<Rightarrow> None
      | Ref a \<Rightarrow> if block_at m a = None then None
                 else Some (m\<lparr>block_at := (block_at m)(a \<mapsto> bs)\<rparr>))"

text \<open>A thread that locks a mutex it already holds, or unlocks one it does not hold, has no
  defined result.\<close>

definition lock_cache :: "LRUCache \<Rightarrow> LRUCache option" where
  "lock_cache c = (if c_mutex c then None else Some (c\<lparr>c_mutex := True\<rparr>))"

definition unlock_cache :: "LRUCache \<Rightarrow> LRUCache option" where
  "unlock_cache c = (if c_mutex c then Some (c\<lparr>c_mutex := False\<rparr>) else None)"

section \<open>The hash: MurmurHash2 modulo the table size\<close>

definition murmur_m :: u32 where
  "murmur_m = 0x5bd1e995"

definition load_u32 :: "byte \<Rightarrow> byte \<Rightarrow> byte \<Rightarrow> byte \<Rightarrow> u32" where
  "load_u32 b0 b1 b2 b3 =
     ucast b0 OR push_bit 8 (ucast b1) OR push_bit 16 (ucast b2) OR push_bit 24 (ucast b3)"

fun murmur_loop :: "byte list \<Rightarrow> u32 \<Rightarrow> u32 \<times> byte list" where
  "murmur_loop (b0 # b1 # b2 # b3 # rest) h =
     (let k = load_u32 b0 b1 b2 b3 * murmur_m;
          k = k XOR drop_bit 24 k;
          k = k * murmur_m;
          h = h * murmur_m
      in murmur_loop rest (h XOR k))"
| "murmur_loop rest h = (h, rest)"

definition char_to_u32 :: "byte \<Rightarrow> u32" where
  "char_to_u32 b = scast b"

fun murmur_tail :: "byte list \<Rightarrow> u32 \<Rightarrow> u32" where
  "murmur_tail [d0, d1, d2] h =
     (h XOR push_bit 16 (char_to_u32 d2) XOR push_bit 8 (char_to_u32 d1) XOR char_to_u32 d0) * murmur_m"
| "murmur_tail [d0, d1] h = (h XOR push_bit 8 (char_to_u32 d1) XOR char_to_u32 d0) * murmur_m"
| "murmur_tail [d0] h = (h XOR char_to_u32 d0) * murmur_m"
| "murmur_tail _ h = h"

definition murmur_final :: "u32 \<Rightarrow> u32" where
  "murmur_final h =
     (let h = h XOR drop_bit 13 h; h = h * murmur_m in h XOR drop_bit 16 h)"

text \<open>\<open>None\<close> is the division by zero of an empty table.\<close>

definition LRUCacheGetHashIndex :: "LRUCache \<Rightarrow> byte list \<Rightarrow> u64 option" where
  "LRUCacheGetHashIndex c key =
     (let (h, rest) = murmur_loop key (ucast (c_seed c XOR of_nat (length key)));
          h = murmur_final (murmur_tail rest h)
      in if c_hash_table_size c = 0 then None
         else Some (ucast h mod c_hash_table_size c))"

section \<open>Key comparison and removal\<close>

definition LRUCacheCompareKey :: "lru_mem \<Rightarrow> ptr \<Rightarrow> byte list \<Rightarrow> int option" where
  "LRUCacheCompareKey m item key = do {
     it \<leftarrow> get_item item m;
     stored \<leftarrow> get_block (i_key it) m;
     n \<leftarrow> strlen stored;
     if length key \<noteq> n then Some 1 else memcmp key stored (length key)
   }"

definition LRUCacheRemoveItem ::
    "ptr \<Rightarrow> ptr \<Rightarrow> nat \<Rightarrow> LRUCache \<times> lru_mem \<Rightarrow> (LRUCache \<times> lru_mem) option" where
  "LRUCacheRemoveItem prev item index = (\<lambda>(c, m). do {
     it \<leftarrow> get_item item m;
     (c, m) \<leftarrow> (if prev \<noteq> Null
                then do { m \<leftarrow> put_item prev (\<lambda>p. p\<lparr>i_next := i_next it\<rparr>) m; Some (c, m) }
                else do { xs \<leftarrow> array_set (c_items c) index (i_next it); Some (c\<lparr>c_items := xs\<rparr>, m) });
     it \<leftarrow> get_item item m;
     m \<leftarrow> free_block (i_value it) m;
     m \<leftarrow> free_block (i_key it) m;
     Some (c, m)
   })"

text \<open>
  The eviction scan. \<open>least_age\<close> is an \<^verbatim>\<open>int\<close> that starts at \<^verbatim>\<open>INT_MAX\<close>; the comparison with
  the 64-bit age converts it to 64 bits unsigned, the assignment truncates the age to 32 bits.
\<close>

record least =
  least_used :: ptr
  least_prev :: ptr
  least_index :: nat
  least_age :: u32

definition INT_MAX :: u32 where
  "INT_MAX = 0x7fffffff"

definition least_init :: least where
  "least_init = \<lparr>least_used = Null, least_prev = Null, least_index = 0, least_age = INT_MAX\<rparr>"

definition scan_item :: "nat \<Rightarrow> ptr \<Rightarrow> ptr \<Rightarrow> u64 \<Rightarrow> least \<Rightarrow> least" where
  "scan_item i prev item age l =
     (if age < scast (least_age l)
      then \<lparr>least_used = item, least_prev = prev, least_index = i, least_age = ucast age\<rparr>
      else l)"

partial_function (option) scan_bucket ::
    "lru_mem \<Rightarrow> nat \<Rightarrow> ptr \<Rightarrow> ptr \<Rightarrow> least \<Rightarrow> least option" where
  "scan_bucket m i prev item l =
     (if item = Null then Some l
      else do {
        it \<leftarrow> get_item item m;
        scan_bucket m i item (i_next it) (scan_item i prev item (i_age it) l)
      })"

fun scan_table :: "LRUCache \<Rightarrow> lru_mem \<Rightarrow> nat list \<Rightarrow> least \<Rightarrow> least option" where
  "scan_table c m [] l = Some l"
| "scan_table c m (i # is) l = do {
     item \<leftarrow> array_get (c_items c) i;
     l \<leftarrow> scan_bucket m i Null item l;
     scan_table c m is l
   }"

definition LRUCacheRemoveLeastUsedItem ::
    "LRUCache \<times> lru_mem \<Rightarrow> (LRUCache \<times> lru_mem) option" where
  "LRUCacheRemoveLeastUsedItem = (\<lambda>(c, m). do {
     l \<leftarrow> scan_table c m [0..<unat (c_hash_table_size c)] least_init;
     if least_used l \<noteq> Null
     then do {
       (c, m) \<leftarrow> LRUCacheRemoveItem (least_prev l) (least_used l) (least_index l) (c, m);
       Some (c\<lparr>c_current_entries := c_current_entries c - 1\<rparr>, m)
     }
     else Some (c, m)
   })"

section \<open>The interface functions\<close>

text \<open>\<open>LRUCacheNew\<close>: two allocations, the structure and the table. The table's slots and the age
  are what the allocator left there. \<open>seed\<close> is the clock reading. The size of the table in bytes is a
  product in \<open>size_t\<close>, which wraps around: the block has as many slots as the wrapped product holds
  pointers of eight bytes.\<close>

definition table_slots :: "u64 \<Rightarrow> nat" where
  "table_slots hash_table_size = unat (8 * hash_table_size) div 8"

definition LRUCacheNew :: "malloc_env \<Rightarrow> u64 \<Rightarrow> u64 \<Rightarrow> lru_mem \<Rightarrow> LRUCache option \<times> lru_mem" where
  "LRUCacheNew E now entries m =
     (let a = brk m; b = Suc a in
      if m_fails E a then (None, m\<lparr>brk := Suc a\<rparr>)
      else if m_fails E b then (None, m\<lparr>brk := Suc b\<rparr>)
      else (Some \<lparr>c_items = map (m_slot E b) [0..<table_slots entries], c_hash_table_size = entries,
                  c_capacity = entries, c_current_entries = 0, c_age = m_word E a,
                  c_seed = now, c_mutex = False\<rparr>,
            m\<lparr>brk := Suc b\<rparr>))"

partial_function (option) free_bucket :: "ptr \<Rightarrow> lru_mem \<Rightarrow> lru_mem option" where
  "free_bucket item m =
     (if item = Null then Some m
      else do {
        it \<leftarrow> get_item item m;
        m \<leftarrow> free_block (i_key it) m;
        m \<leftarrow> free_block (i_value it) m;
        m \<leftarrow> free_item item m;
        free_bucket (i_next it) m
      })"

fun free_table :: "LRUCache \<Rightarrow> nat list \<Rightarrow> lru_mem \<Rightarrow> lru_mem option" where
  "free_table c [] m = Some m"
| "free_table c (i # is) m = do {
     item \<leftarrow> array_get (c_items c) i;
     m \<leftarrow> free_bucket item m;
     free_table c is m
   }"

definition LRUCacheFree :: "LRUCache \<times> lru_mem \<Rightarrow> lru_mem option" where
  "LRUCacheFree = (\<lambda>(c, m). free_table c [0..<unat (c_hash_table_size c)] m)"

text \<open>The search loop of \<open>LRUCacheSet\<close>, \<open>LRUCacheGet\<close> and \<open>LRUCacheDelete\<close>: the item with the
  key, or null, and the item before it.\<close>

partial_function (option) find_item ::
    "lru_mem \<Rightarrow> byte list \<Rightarrow> ptr \<Rightarrow> ptr \<Rightarrow> (ptr \<times> ptr) option" where
  "find_item m key prev item =
     (if item = Null then Some (prev, Null)
      else do {
        r \<leftarrow> LRUCacheCompareKey m item key;
        if r \<noteq> 0
        then do { it \<leftarrow> get_item item m; find_item m key item (i_next it) }
        else Some (prev, item)
      })"

text \<open>The value copy of both branches of \<open>LRUCacheSet\<close>: a fresh block, filled from the caller's
  buffer, hung into the item.\<close>

definition store_value ::
    "malloc_env \<Rightarrow> ptr \<Rightarrow> byte list \<Rightarrow> u64 \<Rightarrow> lru_mem \<Rightarrow> lru_mem option" where
  "store_value E item val value_length m = do {
     (v, m) \<leftarrow> Some (malloc_block E (unat value_length) m);
     m \<leftarrow> put_item item (\<lambda>it. it\<lparr>i_value := v\<rparr>) m;
     dst \<leftarrow> get_block v m;
     dst \<leftarrow> memcpy dst val (unat value_length);
     m \<leftarrow> put_block v dst m;
     put_item item (\<lambda>it. it\<lparr>i_value_length := value_length\<rparr>) m
   }"

definition new_item ::
    "malloc_env \<Rightarrow> byte list \<Rightarrow> lru_mem \<Rightarrow> (ptr \<times> lru_mem) option" where
  "new_item E key m = do {
     (item, m) \<leftarrow> Some (malloc_item E m);
     (k, m) \<leftarrow> Some (malloc_block E (length key + 1) m);
     m \<leftarrow> put_item item (\<lambda>it. it\<lparr>i_key := k\<rparr>) m;
     dst \<leftarrow> get_block k m;
     dst \<leftarrow> strcpy dst (key @ [0]);
     dst \<leftarrow> array_set dst (length key) 0;
     m \<leftarrow> put_block k dst m;
     Some (item, m)
   }"

definition insert_item ::
    "malloc_env \<Rightarrow> byte list \<Rightarrow> byte list \<Rightarrow> u64 \<Rightarrow> nat \<Rightarrow> ptr \<Rightarrow>
     LRUCache \<times> lru_mem \<Rightarrow> (ptr \<times> LRUCache \<times> lru_mem) option" where
  "insert_item E key val value_length hash_index prev = (\<lambda>(c, m). do {
     (c, m) \<leftarrow> (if c_current_entries c \<ge> c_capacity c
                then LRUCacheRemoveLeastUsedItem (c, m) else Some (c, m));
     (item, m) \<leftarrow> new_item E key m;
     m \<leftarrow> store_value E item val value_length m;
     (c, m) \<leftarrow> (if prev \<noteq> Null
                then do { m \<leftarrow> put_item prev (\<lambda>p. p\<lparr>i_next := item\<rparr>) m; Some (c, m) }
                else do { xs \<leftarrow> array_set (c_items c) hash_index item; Some (c\<lparr>c_items := xs\<rparr>, m) });
     Some (item, c\<lparr>c_current_entries := c_current_entries c + 1\<rparr>, m)
   })"

text \<open>\<open>item->age = cache->age; ++cache->age\<close>.\<close>

definition stamp_item :: "ptr \<Rightarrow> LRUCache \<times> lru_mem \<Rightarrow> (LRUCache \<times> lru_mem) option" where
  "stamp_item item = (\<lambda>(c, m). do {
     m \<leftarrow> put_item item (\<lambda>it. it\<lparr>i_age := c_age c\<rparr>) m;
     Some (c\<lparr>c_age := c_age c + 1\<rparr>, m)
   })"

definition LRUCacheSet ::
    "malloc_env \<Rightarrow> byte list \<Rightarrow> byte list \<Rightarrow> u64 \<Rightarrow> LRUCache \<times> lru_mem \<Rightarrow> (LRUCache \<times> lru_mem) option" where
  "LRUCacheSet E key val value_length = (\<lambda>(c, m). do {
     c \<leftarrow> lock_cache c;
     hash_index \<leftarrow> LRUCacheGetHashIndex c key;
     item \<leftarrow> array_get (c_items c) (unat hash_index);
     (prev, item) \<leftarrow> find_item m key Null item;
     (item, c, m) \<leftarrow>
       (if item \<noteq> Null
        then do {
          it \<leftarrow> get_item item m;
          m \<leftarrow> free_block (i_value it) m;
          m \<leftarrow> store_value E item val value_length m;
          Some (item, c, m)
        }
        else insert_item E key val value_length (unat hash_index) prev (c, m));
     (c, m) \<leftarrow> stamp_item item (c, m);
     c \<leftarrow> unlock_cache c;
     Some (c, m)
   })"

text \<open>\<open>LRUCacheGet\<close> returns the error code, the value pointer and its length.\<close>

definition LRUCacheGet ::
    "byte list \<Rightarrow> LRUCache \<times> lru_mem \<Rightarrow> (LRUCacheError \<times> ptr \<times> u64 \<times> LRUCache \<times> lru_mem) option" where
  "LRUCacheGet key = (\<lambda>(c, m). do {
     c \<leftarrow> lock_cache c;
     hash_index \<leftarrow> LRUCacheGetHashIndex c key;
     item \<leftarrow> array_get (c_items c) (unat hash_index);
     (_, item) \<leftarrow> find_item m key Null item;
     (ret, val, value_length, c, m) \<leftarrow>
       (if item \<noteq> Null
        then do {
          it \<leftarrow> get_item item m;
          (c, m) \<leftarrow> stamp_item item (c, m);
          Some (LRU_CACHE_OK, i_value it, i_value_length it, c, m)
        }
        else Some (LRU_CACHE_KEY_MISSING, Null, 0, c, m));
     c \<leftarrow> unlock_cache c;
     Some (ret, val, value_length, c, m)
   })"

definition LRUCacheDelete ::
    "byte list \<Rightarrow> LRUCache \<times> lru_mem \<Rightarrow> (LRUCacheError \<times> LRUCache \<times> lru_mem) option" where
  "LRUCacheDelete key = (\<lambda>(c, m). do {
     c \<leftarrow> lock_cache c;
     hash_index \<leftarrow> LRUCacheGetHashIndex c key;
     item \<leftarrow> array_get (c_items c) (unat hash_index);
     (prev, item) \<leftarrow> find_item m key Null item;
     (ret, c, m) \<leftarrow>
       (if item \<noteq> Null
        then do {
          (c, m) \<leftarrow> LRUCacheRemoveItem prev item (unat hash_index) (c, m);
          Some (LRU_CACHE_OK, c, m)
        }
        else Some (LRU_CACHE_KEY_MISSING, c, m));
     c \<leftarrow> unlock_cache c;
     Some (ret, c, m)
   })"

text \<open>\<open>LRUCacheDump\<close>: the lines it prints, as the number, the key and the age of each item. It
  takes no lock.\<close>

partial_function (option) dump_bucket ::
    "lru_mem \<Rightarrow> ptr \<Rightarrow> (nat \<times> byte list \<times> u64) list \<Rightarrow> (nat \<times> byte list \<times> u64) list option" where
  "dump_bucket m item out =
     (if item = Null then Some out
      else do {
        it \<leftarrow> get_item item m;
        stored \<leftarrow> get_block (i_key it) m;
        n \<leftarrow> strlen stored;
        dump_bucket m (i_next it) (out @ [(length out, take n stored, i_age it)])
      })"

fun dump_table ::
    "LRUCache \<Rightarrow> lru_mem \<Rightarrow> nat list \<Rightarrow> (nat \<times> byte list \<times> u64) list \<Rightarrow> (nat \<times> byte list \<times> u64) list option" where
  "dump_table c m [] out = Some out"
| "dump_table c m (i # is) out = do {
     item \<leftarrow> array_get (c_items c) i;
     out \<leftarrow> dump_bucket m item out;
     dump_table c m is out
   }"

definition LRUCacheDump :: "LRUCache \<times> lru_mem \<Rightarrow> (nat \<times> byte list \<times> u64) list option" where
  "LRUCacheDump = (\<lambda>(c, m). dump_table c m [0..<unat (c_hash_table_size c)] [])"

declare scan_bucket.simps [code] find_item.simps [code] free_bucket.simps [code] dump_bucket.simps [code]

end
