(* ===== verification/Lru_Spec.thy ===== *)
theory Lru_Spec
  imports C_Prelude "HOL-Library.Multiset"
begin

text \<open>
  What the LRU cache of \<^verbatim>\<open>src/lru_cache01\<close> promises, in two layers above the memory model.

  The \<^emph>\<open>bucket layer\<close> (\<open>spec_get\<close>, \<open>spec_set\<close>, \<open>spec_delete\<close>, \<open>spec_evict\<close>) is a table of
  buckets of entries with the counters of the cache; it says exactly what the code does,
  including what it does wrong, without pointers and allocation. \<open>Lru_Refine\<close> proves that the
  memory model implements it.

  The \<^emph>\<open>recency layer\<close> (\<open>lru_get\<close>, \<open>lru_set\<close>, \<open>lru_delete\<close>) is the textbook cache: an association
  list of at most \<open>capacity\<close> pairs in the order of their last use, least recently used first.
  This theory proves when the bucket layer implements it.
\<close>

section \<open>Entries and buckets\<close>

record entry =
  e_key :: "byte list"
  e_val :: "byte list"
  e_age :: u64

record lru_abs =
  a_buckets :: "entry list list"
  a_capacity :: u64
  a_entries :: u64
  a_age :: u64

definition lookup_entry :: "byte list \<Rightarrow> entry list \<Rightarrow> entry option" where
  "lookup_entry key es = find (\<lambda>e. e_key e = key) es"

fun upd_entry :: "byte list \<Rightarrow> (entry \<Rightarrow> entry) \<Rightarrow> entry list \<Rightarrow> entry list" where
  "upd_entry key f [] = []"
| "upd_entry key f (e # es) = (if e_key e = key then f e # es else e # upd_entry key f es)"

fun del_entry :: "byte list \<Rightarrow> entry list \<Rightarrow> entry list" where
  "del_entry key [] = []"
| "del_entry key (e # es) = (if e_key e = key then es else e # del_entry key es)"

section \<open>The bucket layer\<close>

text \<open>
  The eviction scan keeps the first entry whose age is strictly below the best age so far, which
  starts at \<^verbatim>\<open>INT_MAX\<close>: an entry as old as that is never chosen.
\<close>

definition age_bound :: "entry option \<Rightarrow> u64" where
  "age_bound acc = (case acc of None \<Rightarrow> 0x7fffffff | Some e \<Rightarrow> e_age e)"

fun victim :: "entry list \<Rightarrow> entry option \<Rightarrow> entry option" where
  "victim [] acc = acc"
| "victim (e # es) acc = victim es (if e_age e < age_bound acc then Some e else acc)"

definition spec_evict :: "(byte list \<Rightarrow> nat) \<Rightarrow> lru_abs \<Rightarrow> lru_abs" where
  "spec_evict ix A =
     (case victim (concat (a_buckets A)) None of
        None \<Rightarrow> A
      | Some e \<Rightarrow> A\<lparr>a_buckets := (a_buckets A)[ix (e_key e) := del_entry (e_key e) (a_buckets A ! ix (e_key e))],
                    a_entries := a_entries A - 1\<rparr>)"

definition spec_get :: "(byte list \<Rightarrow> nat) \<Rightarrow> byte list \<Rightarrow> lru_abs \<Rightarrow> byte list option \<times> lru_abs" where
  "spec_get ix key A =
     (case lookup_entry key (a_buckets A ! ix key) of
        None \<Rightarrow> (None, A)
      | Some e \<Rightarrow>
          (Some (e_val e),
           A\<lparr>a_buckets := (a_buckets A)[ix key :=
               upd_entry key (\<lambda>e. e\<lparr>e_age := a_age A\<rparr>) (a_buckets A ! ix key)],
             a_age := a_age A + 1\<rparr>))"

text \<open>Making room for an insertion.\<close>

definition spec_room :: "(byte list \<Rightarrow> nat) \<Rightarrow> lru_abs \<Rightarrow> lru_abs" where
  "spec_room ix A = (if a_capacity A \<le> a_entries A then spec_evict ix A else A)"

text \<open>
  The insertion hangs the new item behind the item that was the last one of its bucket
  \<^emph>\<open>before\<close> room was made. If making room evicted exactly that item, the new item is linked
  behind an item that is no longer in the table, and is lost.
\<close>

definition insert_lost :: "(byte list \<Rightarrow> nat) \<Rightarrow> byte list \<Rightarrow> lru_abs \<Rightarrow> bool" where
  "insert_lost ix key A =
     (let b = a_buckets A ! ix key
      in b \<noteq> [] \<and> e_key (last b) \<notin> e_key ` set (a_buckets (spec_room ix A) ! ix key))"

definition spec_insert :: "(byte list \<Rightarrow> nat) \<Rightarrow> byte list \<Rightarrow> byte list \<Rightarrow> lru_abs \<Rightarrow> lru_abs" where
  "spec_insert ix key val A =
     (let R = spec_room ix A;
          b = a_buckets R ! ix key @ [\<lparr>e_key = key, e_val = val, e_age = a_age R\<rparr>]
      in R\<lparr>a_buckets := (if insert_lost ix key A then a_buckets R else (a_buckets R)[ix key := b]),
           a_entries := a_entries R + 1, a_age := a_age R + 1\<rparr>)"

definition spec_set :: "(byte list \<Rightarrow> nat) \<Rightarrow> byte list \<Rightarrow> byte list \<Rightarrow> lru_abs \<Rightarrow> lru_abs" where
  "spec_set ix key val A =
     (case lookup_entry key (a_buckets A ! ix key) of
        Some _ \<Rightarrow>
          A\<lparr>a_buckets := (a_buckets A)[ix key :=
              upd_entry key (\<lambda>e. e\<lparr>e_val := val, e_age := a_age A\<rparr>) (a_buckets A ! ix key)],
            a_age := a_age A + 1\<rparr>
      | None \<Rightarrow> spec_insert ix key val A)"

definition spec_delete :: "(byte list \<Rightarrow> nat) \<Rightarrow> byte list \<Rightarrow> lru_abs \<Rightarrow> bool \<times> lru_abs" where
  "spec_delete ix key A =
     (case lookup_entry key (a_buckets A ! ix key) of
        None \<Rightarrow> (False, A)
      | Some _ \<Rightarrow> (True, A\<lparr>a_buckets := (a_buckets A)[ix key := del_entry key (a_buckets A ! ix key)]\<rparr>))"

section \<open>The recency layer\<close>

type_synonym recency = "(byte list \<times> byte list) list"

definition lru_touch :: "byte list \<Rightarrow> byte list \<Rightarrow> recency \<Rightarrow> recency" where
  "lru_touch k v L = filter (\<lambda>p. fst p \<noteq> k) L @ [(k, v)]"

definition lru_get :: "byte list \<Rightarrow> recency \<Rightarrow> byte list option \<times> recency" where
  "lru_get k L = (case map_of L k of None \<Rightarrow> (None, L) | Some v \<Rightarrow> (Some v, lru_touch k v L))"

definition lru_set :: "nat \<Rightarrow> byte list \<Rightarrow> byte list \<Rightarrow> recency \<Rightarrow> recency" where
  "lru_set cap k v L =
     (if map_of L k \<noteq> None then lru_touch k v L
      else (if cap \<le> length L then tl L else L) @ [(k, v)])"

definition lru_delete :: "byte list \<Rightarrow> recency \<Rightarrow> recency" where
  "lru_delete k L = filter (\<lambda>p. fst p \<noteq> k) L"

text \<open>The pairs of a table in the order of their ages.\<close>

definition entries :: "lru_abs \<Rightarrow> entry list" where
  "entries A = concat (a_buckets A)"

definition pair_of :: "entry \<Rightarrow> byte list \<times> byte list" where
  "pair_of e = (e_key e, e_val e)"

definition recency_of :: "lru_abs \<Rightarrow> recency" where
  "recency_of A = map pair_of (sort_key e_age (entries A))"

section \<open>Invariants\<close>

text \<open>Every entry is in the bucket of its key, and a bucket has a key once.\<close>

definition table_inv :: "(byte list \<Rightarrow> nat) \<Rightarrow> lru_abs \<Rightarrow> bool" where
  "table_inv ix A \<longleftrightarrow>
     (\<forall>k. ix k < length (a_buckets A)) \<and>
     (\<forall>i < length (a_buckets A). distinct (map e_key (a_buckets A ! i)) \<and>
        (\<forall>e \<in> set (a_buckets A ! i). ix (e_key e) = i))"

text \<open>Ages are time stamps of the past, each given once.\<close>

definition age_inv :: "lru_abs \<Rightarrow> bool" where
  "age_inv A \<longleftrightarrow> distinct (map e_age (entries A)) \<and> (\<forall>e \<in> set (entries A). e_age e < a_age A)"

text \<open>The entry counter never undercounts, the table is never over capacity, and no more
  entries are counted than stamps were given.\<close>

definition count_inv :: "lru_abs \<Rightarrow> bool" where
  "count_inv A \<longleftrightarrow>
     length (entries A) \<le> unat (a_entries A) \<and> length (entries A) \<le> unat (a_capacity A) \<and>
     a_entries A \<le> a_age A"

section \<open>Entry lists\<close>

lemma lookup_entry_Some:
  "lookup_entry k es = Some e \<longleftrightarrow> (\<exists>xs ys. es = xs @ e # ys \<and> e_key e = k \<and> k \<notin> e_key ` set xs)"
proof (induction es)
  case (Cons x es)
  show ?case
  proof (cases "e_key x = k")
    case True
    then show ?thesis by (auto simp: lookup_entry_def Cons_eq_append_conv)
  next
    case False
    then have "lookup_entry k (x # es) = lookup_entry k es" by (simp add: lookup_entry_def)
    with Cons False show ?thesis by (auto simp: Cons_eq_append_conv) (metis image_insert insertE list.simps(15))
  qed
qed (simp add: lookup_entry_def)

lemma lookup_entry_None: "lookup_entry k es = None \<longleftrightarrow> k \<notin> e_key ` set es"
  by (auto simp: lookup_entry_def find_None_iff)

lemma upd_entry_split:
  "k \<notin> e_key ` set xs \<Longrightarrow> e_key e = k \<Longrightarrow> upd_entry k f (xs @ e # ys) = xs @ f e # ys"
  by (induction xs) auto

lemma del_entry_split:
  "k \<notin> e_key ` set xs \<Longrightarrow> e_key e = k \<Longrightarrow> del_entry k (xs @ e # ys) = xs @ ys"
  by (induction xs) auto

lemma mset_upd_entry:
  "lookup_entry k es = Some e \<Longrightarrow> mset (upd_entry k f es) = mset es - {#e#} + {#f e#}"
  by (auto simp: lookup_entry_Some upd_entry_split)

lemma mset_del_entry:
  "lookup_entry k es = Some e \<Longrightarrow> mset (del_entry k es) = mset es - {#e#}"
  by (auto simp: lookup_entry_Some del_entry_split)

lemma keys_upd_entry:
  "(\<And>e. e_key (f e) = e_key e) \<Longrightarrow> map e_key (upd_entry k f es) = map e_key es"
  by (induction es) auto

lemma set_del_entry: "set (del_entry k es) \<subseteq> set es"
  by (induction es) auto

lemma distinct_del_entry: "distinct (map e_key es) \<Longrightarrow> distinct (map e_key (del_entry k es))"
  by (induction es) (auto dest: set_del_entry [THEN subsetD])

lemma keys_del_entry:
  "distinct (map e_key es) \<Longrightarrow> e_key ` set (del_entry k es) = e_key ` set es - {k}"
  by (induction es) (auto simp: rev_image_eqI)

section \<open>Tables as multisets of entries\<close>

lemma nth_subset_concat: "i < length bs \<Longrightarrow> mset (bs ! i) \<subseteq># mset (concat bs)"
proof (induction bs arbitrary: i)
  case (Cons b bs)
  then show ?case by (cases i) (auto simp: subset_mset.add_increasing)
qed simp

lemma mset_concat_replace:
  assumes "i < length bs" and "e \<in> set (bs ! i)" and "mset b = mset (bs ! i) - {#e#} + M"
  shows "mset (concat (bs[i := b])) = mset (concat bs) - {#e#} + M"
proof -
  obtain N where N: "mset (bs ! i) = add_mset e N"
    using assms(2) by (metis in_multiset_in_set multi_member_split)
  have sub: "add_mset e N \<subseteq># mset (concat bs)" using nth_subset_concat [OF assms(1)] N by simp
  then obtain K where K: "mset (concat bs) = add_mset e N + K"
    by (metis mset_subset_eq_exists_conv)
  have "mset (concat (bs[i := b])) + mset (bs ! i) = mset (concat bs) + mset b"
    using assms(1) by (rule mset_concat_update)
  then have "mset (concat (bs[i := b])) + add_mset e N = add_mset e N + K + (N + M)"
    using assms(3) N K by simp
  then have "mset (concat (bs[i := b])) = K + N + M" by (simp add: ac_simps)
  then show ?thesis using K by (simp add: ac_simps)
qed

lemma in_entries: "e \<in> set (entries A) \<longleftrightarrow> (\<exists>i < length (a_buckets A). e \<in> set (a_buckets A ! i))"
  by (force simp: entries_def set_conv_nth [of "a_buckets A"])

lemma mset_entries_append:
  assumes "i < length (a_buckets A)"
  shows "mset (concat ((a_buckets A)[i := a_buckets A ! i @ [e]])) = add_mset e (mset (entries A))"
  using mset_concat_update [OF assms, of "a_buckets A ! i @ [e]"] by (simp add: entries_def)

lemma table_invD:
  assumes "table_inv ix A"
  shows "ix k < length (a_buckets A)"
    and "i < length (a_buckets A) \<Longrightarrow> distinct (map e_key (a_buckets A ! i))"
    and "i < length (a_buckets A) \<Longrightarrow> e \<in> set (a_buckets A ! i) \<Longrightarrow> ix (e_key e) = i"
  using assms by (auto simp: table_inv_def)

lemma distinct_concat_by_index:
  assumes "\<And>i. i < length bs \<Longrightarrow> distinct (map f (bs ! i))"
    and "\<And>i x. i < length bs \<Longrightarrow> x \<in> set (bs ! i) \<Longrightarrow> g (f x) = (i :: nat)"
  shows "distinct (map f (concat bs))"
  using assms
proof (induction bs rule: rev_induct)
  case (snoc b bs)
  have "distinct (map f (concat bs))"
    using snoc.prems by (intro snoc.IH) (metis butlast_snoc length_append_singleton less_SucI nth_butlast)+
  moreover have "distinct (map f b)" using snoc.prems(1) [of "length bs"] by simp
  moreover have "f x \<noteq> f y" if xy: "x \<in> set (concat bs)" "y \<in> set b" for x y
  proof -
    obtain i where i: "i < length bs" "x \<in> set (bs ! i)" using xy(1) by (auto simp: in_set_conv_nth) (metis nth_mem)
    then have "g (f x) = i" using snoc.prems(2) [of i x] by (simp add: nth_append)
    moreover have "g (f y) = length bs" using snoc.prems(2) [of "length bs" y] xy(2) by simp
    ultimately show ?thesis using i(1) by auto
  qed
  ultimately show ?case by auto
qed simp

lemma table_inv_distinct_keys: "table_inv ix A \<Longrightarrow> distinct (map e_key (entries A))"
  unfolding entries_def table_inv_def
  by (rule distinct_concat_by_index [where g = ix]) auto

lemma table_inv_distinct: "table_inv ix A \<Longrightarrow> distinct (entries A)"
  using table_inv_distinct_keys by (auto simp: distinct_map)

lemma lookup_in_bucket:
  assumes "table_inv ix A"
  shows "lookup_entry k (a_buckets A ! ix k) = Some e \<longleftrightarrow> e \<in> set (entries A) \<and> e_key e = k"
proof
  assume "lookup_entry k (a_buckets A ! ix k) = Some e"
  then show "e \<in> set (entries A) \<and> e_key e = k"
    using table_invD(1) [OF assms] by (auto simp: lookup_entry_Some in_entries) (metis in_set_conv_decomp)
next
  assume e: "e \<in> set (entries A) \<and> e_key e = k"
  then have "e \<in> set (a_buckets A ! ix k)" using table_invD(3) [OF assms] by (auto simp: in_entries)
  moreover have "distinct (map e_key (a_buckets A ! ix k))" using table_invD [OF assms] by blast
  ultimately show "lookup_entry k (a_buckets A ! ix k) = Some e"
    using e unfolding lookup_entry_Some by (auto dest!: split_list)
qed

lemma lookup_not_in_bucket:
  "table_inv ix A \<Longrightarrow>
   lookup_entry k (a_buckets A ! ix k) = None \<longleftrightarrow> k \<notin> e_key ` set (entries A)"
  by (cases "lookup_entry k (a_buckets A ! ix k)") (auto simp: lookup_in_bucket dest: lookup_in_bucket [THEN iffD2])

lemma map_of_recency:
  assumes "table_inv ix A"
  shows "map_of (recency_of A) k = map_option e_val (lookup_entry k (a_buckets A ! ix k))"
proof (cases "lookup_entry k (a_buckets A ! ix k)")
  case None
  then have "k \<notin> e_key ` set (entries A)" using assms by (simp add: lookup_not_in_bucket)
  then have "k \<notin> fst ` set (recency_of A)" by (auto simp: recency_of_def pair_of_def)
  then show ?thesis using None by (simp add: map_of_eq_None_iff)
next
  case (Some e)
  then have "(k, e_val e) \<in> set (recency_of A)"
    using lookup_in_bucket [OF assms] by (force simp: recency_of_def pair_of_def)
  moreover have "distinct (map fst (recency_of A))"
  proof -
    have "map fst (recency_of A) = map e_key (sort_key e_age (entries A))"
      by (simp add: recency_of_def pair_of_def)
    moreover have "mset (map e_key (sort_key e_age (entries A))) = mset (map e_key (entries A))" by simp
    ultimately show ?thesis using table_inv_distinct_keys [OF assms] by (metis mset_eq_imp_distinct_iff)
  qed
  ultimately show ?thesis using Some by simp
qed

section \<open>The operations on the multiset of entries\<close>

lemma spec_get_entries:
  assumes "table_inv ix A" and "lookup_entry k (a_buckets A ! ix k) = Some e"
  shows "mset (entries (snd (spec_get ix k A))) =
    mset (entries A) - {#e#} + {#e\<lparr>e_age := a_age A\<rparr>#}"
proof -
  have "e \<in> set (a_buckets A ! ix k)" using assms(2) by (auto simp: lookup_entry_Some)
  then show ?thesis
    using mset_concat_replace [OF table_invD(1) [OF assms(1)] _ mset_upd_entry [OF assms(2)]] assms(2)
    by (simp add: spec_get_def entries_def)
qed

lemma spec_set_update_entries:
  assumes "table_inv ix A" and "lookup_entry k (a_buckets A ! ix k) = Some e"
  shows "mset (entries (spec_set ix k v A)) =
    mset (entries A) - {#e#} + {#e\<lparr>e_val := v, e_age := a_age A\<rparr>#}"
proof -
  have "e \<in> set (a_buckets A ! ix k)" using assms(2) by (auto simp: lookup_entry_Some)
  then show ?thesis
    using mset_concat_replace [OF table_invD(1) [OF assms(1)] _ mset_upd_entry [OF assms(2)]] assms(2)
    by (simp add: spec_set_def entries_def)
qed

lemma mset_concat_remove:
  assumes "table_inv ix A" and "lookup_entry k (a_buckets A ! ix k) = Some e"
  shows "mset (concat ((a_buckets A)[ix k := del_entry k (a_buckets A ! ix k)])) = mset (entries A) - {#e#}"
  using mset_concat_replace [OF table_invD(1) [OF assms(1)], of e k _ "{#}"] mset_del_entry [OF assms(2)] assms(2)
  by (auto simp: lookup_entry_Some entries_def)

lemma spec_delete_entries:
  assumes "table_inv ix A" and "lookup_entry k (a_buckets A ! ix k) = Some e"
  shows "mset (entries (snd (spec_delete ix k A))) = mset (entries A) - {#e#}"
  using mset_concat_remove [OF assms] assms(2) by (simp add: spec_delete_def entries_def [of "A\<lparr>a_buckets := _\<rparr>"])

lemma victim_Some:
  assumes "victim es acc = Some e"
  shows "(e \<in> set es \<or> acc = Some e) \<and> e_age e \<le> age_bound acc \<and> (\<forall>x \<in> set es. e_age e \<le> e_age x)"
  using assms
proof (induction es arbitrary: acc)
  case Nil
  then show ?case by (simp add: age_bound_def)
next
  case (Cons x es)
  let ?acc = "if e_age x < age_bound acc then Some x else acc"
  have IH: "(e \<in> set es \<or> ?acc = Some e) \<and> e_age e \<le> age_bound ?acc \<and> (\<forall>y \<in> set es. e_age e \<le> e_age y)"
    using Cons.IH [of ?acc] Cons.prems by simp
  then show ?case
    by (cases "e_age x < age_bound acc") (auto simp: age_bound_def)
qed

lemma victim_below:
  "victim es acc = Some e \<Longrightarrow> (\<And>x. acc = Some x \<Longrightarrow> e_age x < 0x7fffffff) \<Longrightarrow> e_age e < 0x7fffffff"
proof (induction es arbitrary: acc)
  case (Cons x es)
  let ?acc = "if e_age x < age_bound acc then Some x else acc"
  have "victim es ?acc = Some e" using Cons.prems(1) by simp
  moreover have "e_age y < 0x7fffffff" if "?acc = Some y" for y
  proof (cases "e_age x < age_bound acc")
    case True
    then have "y = x" using that by simp
    then show ?thesis
      using True Cons.prems(2) by (cases acc) (auto simp: age_bound_def intro: order.strict_trans)
  next
    case False
    then show ?thesis using that Cons.prems(2) by simp
  qed
  ultimately show ?case by (rule Cons.IH)
qed simp

lemma victim_None: "victim es acc = None \<longleftrightarrow> acc = None \<and> (\<forall>x \<in> set es. 0x7fffffff \<le> e_age x)"
  by (induction es arbitrary: acc) (auto simp: age_bound_def not_less split: option.splits)

lemma spec_evict_None: "victim (entries A) None = None \<Longrightarrow> spec_evict ix A = A"
  by (simp add: spec_evict_def entries_def)

lemma victim_lookup:
  "table_inv ix A \<Longrightarrow> victim (entries A) None = Some e \<Longrightarrow>
   lookup_entry (e_key e) (a_buckets A ! ix (e_key e)) = Some e"
  using victim_Some by (subst lookup_in_bucket) force+

lemma spec_evict_entries:
  assumes "table_inv ix A" and "victim (entries A) None = Some e"
  shows "mset (entries (spec_evict ix A)) = mset (entries A) - {#e#}"
  using mset_concat_remove [OF assms(1) victim_lookup [OF assms]] assms(2)
  by (simp add: spec_evict_def entries_def [of "A\<lparr>a_buckets := _, a_entries := _\<rparr>"] flip: entries_def)

section \<open>Preservation of the table invariant\<close>

lemma table_inv_update:
  assumes "table_inv ix A" and "i < length (a_buckets A)" and "distinct (map e_key b)"
    and "\<And>e. e \<in> set b \<Longrightarrow> ix (e_key e) = i" and "a_buckets B = (a_buckets A)[i := b]"
  shows "table_inv ix B"
  using assms by (auto simp: table_inv_def nth_list_update)

lemma table_inv_cong: "a_buckets B = a_buckets A \<Longrightarrow> table_inv ix B = table_inv ix A"
  by (simp add: table_inv_def)

lemma table_inv_upd_entry:
  assumes "table_inv ix A" and "\<And>e. e_key (f e) = e_key e"
    and "a_buckets B = (a_buckets A)[ix k := upd_entry k f (a_buckets A ! ix k)]"
  shows "table_inv ix B"
proof (rule table_inv_update [OF assms(1) table_invD(1) [OF assms(1)] _ _ assms(3)])
  show "distinct (map e_key (upd_entry k f (a_buckets A ! ix k)))"
    using assms(1,2) by (simp add: keys_upd_entry table_invD)
  fix e assume "e \<in> set (upd_entry k f (a_buckets A ! ix k))"
  then have "e_key e \<in> set (map e_key (a_buckets A ! ix k))"
    using keys_upd_entry [of f k "a_buckets A ! ix k"] assms(2) by (metis image_eqI set_map)
  then show "ix (e_key e) = ix k" using table_invD [OF assms(1)] by auto
qed

lemma table_inv_del_entry:
  assumes "table_inv ix A" and "a_buckets B = (a_buckets A)[ix k := del_entry k (a_buckets A ! ix k)]"
  shows "table_inv ix B"
  using table_invD [OF assms(1)]
  by (intro table_inv_update [OF assms(1) _ _ _ assms(2)])
     (auto simp: distinct_del_entry dest: set_del_entry [THEN subsetD])

lemma table_inv_get: "table_inv ix A \<Longrightarrow> table_inv ix (snd (spec_get ix k A))"
  by (cases "lookup_entry k (a_buckets A ! ix k)")
     (auto simp: spec_get_def intro!: table_inv_upd_entry [of ix A "\<lambda>e. e\<lparr>e_age := a_age A\<rparr>" _ k])

lemma table_inv_delete: "table_inv ix A \<Longrightarrow> table_inv ix (snd (spec_delete ix k A))"
  by (cases "lookup_entry k (a_buckets A ! ix k)")
     (auto simp: spec_delete_def intro!: table_inv_del_entry [of ix A])

lemma table_inv_evict: "table_inv ix A \<Longrightarrow> table_inv ix (spec_evict ix A)"
  by (cases "victim (concat (a_buckets A)) None")
     (auto simp: spec_evict_def intro!: table_inv_del_entry [of ix A])

lemma table_inv_room: "table_inv ix A \<Longrightarrow> table_inv ix (spec_room ix A)"
  by (simp add: spec_room_def table_inv_evict)

lemma spec_room_keys: "table_inv ix A \<Longrightarrow> e_key ` set (entries (spec_room ix A)) \<subseteq> e_key ` set (entries A)"
proof (cases "a_capacity A \<le> a_entries A")
  case True
  assume inv: "table_inv ix A"
  show ?thesis
  proof (cases "victim (entries A) None")
    case (Some e)
    then have "set (entries (spec_evict ix A)) \<subseteq> set (entries A)"
      using spec_evict_entries [OF inv Some] by (metis diff_subset_eq_self set_mset_mono set_mset_mset)
    then show ?thesis using True by (auto simp: spec_room_def)
  qed (simp add: spec_room_def spec_evict_None)
qed (simp add: spec_room_def)

lemma spec_room_simps [simp]:
  "length (a_buckets (spec_room ix A)) = length (a_buckets A)"
  "a_capacity (spec_room ix A) = a_capacity A"
  "a_age (spec_room ix A) = a_age A"
  by (auto simp: spec_room_def spec_evict_def split: option.splits)

lemma table_inv_insert:
  assumes "table_inv ix A" and "k \<notin> e_key ` set (entries A)"
  shows "table_inv ix (spec_insert ix k v A)"
proof (cases "insert_lost ix k A")
  case True
  then have "a_buckets (spec_insert ix k v A) = a_buckets (spec_room ix A)"
    by (simp add: spec_insert_def Let_def)
  then show ?thesis using table_inv_cong table_inv_room [OF assms(1)] by blast
next
  case False
  let ?R = "spec_room ix A"
  let ?e = "\<lparr>e_key = k, e_val = v, e_age = a_age ?R\<rparr>"
  have inv: "table_inv ix ?R" using assms(1) by (rule table_inv_room)
  have new: "k \<notin> e_key ` set (a_buckets ?R ! ix k)"
    using spec_room_keys [OF assms(1)] assms(2) table_invD(1) [OF inv, of k] in_entries [of _ ?R] by blast
  show ?thesis
  proof (rule table_inv_update [OF inv table_invD(1) [OF inv, of k]])
    show "distinct (map e_key (a_buckets ?R ! ix k @ [?e]))"
      using new table_invD(2) [OF inv table_invD(1) [OF inv]] by simp
    show "ix (e_key e) = ix k" if "e \<in> set (a_buckets ?R ! ix k @ [?e])" for e
      using that table_invD(3) [OF inv table_invD(1) [OF inv]] by auto
    show "a_buckets (spec_insert ix k v A) = (a_buckets ?R)[ix k := a_buckets ?R ! ix k @ [?e]]"
      using False by (simp add: spec_insert_def Let_def)
  qed
qed

lemma table_inv_set: "table_inv ix A \<Longrightarrow> table_inv ix (spec_set ix k v A)"
proof (cases "lookup_entry k (a_buckets A ! ix k)")
  case None
  assume inv: "table_inv ix A"
  then have "k \<notin> e_key ` set (entries A)" using None by (simp add: lookup_not_in_bucket)
  then show ?thesis using None inv by (simp add: spec_set_def table_inv_insert)
next
  case (Some e)
  moreover assume "table_inv ix A"
  ultimately show ?thesis
    by (auto simp: spec_set_def intro!:
        table_inv_upd_entry [of ix A "\<lambda>e. e\<lparr>e_val := v, e_age := a_age A\<rparr>" _ k])
qed

section \<open>Sorting by age\<close>

lemma sort_key_unique:
  assumes "mset ys = mset xs" and "distinct (map f xs)" and "sorted (map f ys)"
  shows "sort_key f xs = ys"
proof (rule properties_for_sort_key [OF assms(1) _ assms(3)])
  fix k assume k: "k \<in> set ys"
  have inj: "inj_on f (set xs)" and "distinct xs" using assms(2) by (auto simp: distinct_map)
  have sets: "set ys = set xs" using assms(1) by (metis set_mset_mset)
  have "distinct ys" using assms(1) \<open>distinct xs\<close> by (metis mset_eq_imp_distinct_iff)
  have single: "filter (\<lambda>x. f k = f x) zs = [k]" if "distinct zs" "set zs = set xs" for zs
  proof -
    have "set (filter (\<lambda>x. f k = f x) zs) = {k}" using inj that(2) k sets by (auto dest: inj_onD)
    moreover have "distinct (filter (\<lambda>x. f k = f x) zs)" using that(1) by simp
    ultimately show ?thesis
      by (metis distinct.simps(2) list.set_cases list.set_intros(1) list.set_intros(2) set_empty singletonD singletonI
          list.exhaust)
  qed
  show "filter (\<lambda>x. f k = f x) ys = filter (\<lambda>x. f k = f x) xs"
    using single [OF \<open>distinct ys\<close> sets] single [OF \<open>distinct xs\<close> refl] by simp
qed

lemma sorted_map_remove1: "sorted (map f xs) \<Longrightarrow> sorted (map f (remove1 x xs))"
proof -
  assume "sorted (map f xs)"
  then have "sorted_wrt (\<lambda>a b. f a \<le> f b) xs" by (simp add: sorted_wrt_map)
  then have "sorted_wrt (\<lambda>a b. f a \<le> f b) (remove1 x xs)"
    by (induction xs) (auto dest: in_set_remove1 [THEN iffD1] set_remove1_subset [THEN subsetD])
  then show ?thesis by (simp add: sorted_wrt_map)
qed

lemma sort_key_remove:
  assumes "mset ys = mset xs - {#e#}" and "distinct (map f xs)"
  shows "sort_key f ys = remove1 e (sort_key f xs)"
proof (rule sort_key_unique)
  have "mset (map f ys) = mset (map f (remove1 e xs))" using assms(1) by simp
  then have "distinct (map f ys) \<longleftrightarrow> distinct (map f (remove1 e xs))" by (rule mset_eq_imp_distinct_iff)
  moreover have "inj_on f (set (remove1 e xs))"
    using assms(2) set_remove1_subset by (metis distinct_map inj_on_subset)
  ultimately show "distinct (map f ys)" using assms(2) by (simp add: distinct_map)
qed (simp_all add: assms sorted_map_remove1)

lemma sort_key_add_max:
  assumes "mset ys = add_mset e (mset xs)" and "distinct (map f xs)" and "\<And>x. x \<in> set xs \<Longrightarrow> f x < f e"
  shows "sort_key f ys = sort_key f xs @ [e]"
proof (rule sort_key_unique)
  have "mset (map f ys) = mset (map f (e # xs))" using assms(1) by simp
  then have "distinct (map f ys) \<longleftrightarrow> distinct (map f (e # xs))" by (rule mset_eq_imp_distinct_iff)
  moreover have "f e \<notin> f ` set xs" using assms(3) by force
  ultimately show "distinct (map f ys)" using assms(2) by simp
  show "sorted (map f (sort_key f xs @ [e]))" using assms(3) by (auto simp: sorted_append less_imp_le)
qed (simp add: assms)

section \<open>The bucket layer implements the recency layer\<close>

lemma age_succ: "(a :: u64) < 0x7fffffff \<Longrightarrow> a < a + 1"
  by (simp add: word_less_nat_alt unat_word_ariths)

lemma age_inv_bound: "age_inv A \<Longrightarrow> a_age A \<le> 0x7fffffff \<Longrightarrow> e \<in> set (entries A) \<Longrightarrow> e_age e < 0x7fffffff"
  by (auto simp: age_inv_def intro: order.strict_trans2)

text \<open>Replacing one entry by a freshly stamped one, removing one entry, adding a fresh one:
  the three effects of the operations on the multiset of entries.\<close>

lemma age_inv_touch:
  assumes "age_inv A" and "e \<in> set (entries A)" and "mset (entries B) = mset (entries A) - {#e#} + {#e'#}"
    and "e_age e' = a_age A" and "a_age B = a_age A + 1" and "a_age A < 0x7fffffff"
  shows "age_inv B"
proof -
  have B: "mset (entries B) = mset (e' # remove1 e (entries A))" using assms(3) by simp
  have "mset (map e_age (entries B)) = mset (map e_age (e' # remove1 e (entries A)))" using B by simp
  then have d: "distinct (map e_age (entries B)) \<longleftrightarrow> distinct (map e_age (e' # remove1 e (entries A)))"
    by (rule mset_eq_imp_distinct_iff)
  have "set (entries B) = set (e' # remove1 e (entries A))" using B by (rule mset_eq_setD)
  then have sB: "set (entries B) \<subseteq> insert e' (set (entries A))" using set_remove1_subset by auto
  have lt: "e_age x < a_age A" if "x \<in> set (entries A)" for x using assms(1) that by (simp add: age_inv_def)
  have "inj_on e_age (set (remove1 e (entries A)))"
    using assms(1) set_remove1_subset unfolding age_inv_def distinct_map by (metis inj_on_subset)
  moreover have "a_age A \<notin> e_age ` set (remove1 e (entries A))"
    using lt set_remove1_subset [of e "entries A"] by force
  ultimately have "distinct (map e_age (e' # remove1 e (entries A)))"
    using assms(1,4) by (simp add: age_inv_def distinct_map)
  moreover have "e_age x < a_age B" if "x \<in> set (entries B)" for x
    using sB that lt assms(4,5) age_succ [OF assms(6)] by (metis insertE order.strict_trans subsetD)
  ultimately show ?thesis using d by (simp add: age_inv_def)
qed

lemma age_inv_remove:
  assumes "age_inv A" and "mset (entries B) = mset (entries A) - {#e#}" and "a_age B = a_age A"
  shows "age_inv B"
proof -
  have B: "mset (entries B) = mset (remove1 e (entries A))" using assms(2) by simp
  then have "mset (map e_age (entries B)) = mset (map e_age (remove1 e (entries A)))" by simp
  then have d: "distinct (map e_age (entries B)) \<longleftrightarrow> distinct (map e_age (remove1 e (entries A)))"
    by (rule mset_eq_imp_distinct_iff)
  have "inj_on e_age (set (remove1 e (entries A)))"
    using assms(1) set_remove1_subset unfolding age_inv_def distinct_map by (metis inj_on_subset)
  then have "distinct (map e_age (remove1 e (entries A)))" using assms(1) by (simp add: age_inv_def distinct_map)
  moreover have "set (entries B) \<subseteq> set (entries A)"
    using B set_remove1_subset by (metis set_mset_mset)
  ultimately show ?thesis using d assms(1,3) by (auto simp: age_inv_def)
qed

lemma age_inv_add:
  assumes "age_inv A" and "mset (entries B) = add_mset e (mset (entries A))"
    and "e_age e = a_age A" and "a_age B = a_age A + 1" and "a_age A < 0x7fffffff"
  shows "age_inv B"
proof -
  have "mset (map e_age (entries B)) = mset (map e_age (e # entries A))" using assms(2) by simp
  then have "distinct (map e_age (entries B)) \<longleftrightarrow> distinct (map e_age (e # entries A))"
    by (rule mset_eq_imp_distinct_iff)
  moreover have "set (entries B) = insert e (set (entries A))"
    using assms(2) by (metis list.simps(15) mset.simps(2) mset_eq_setD)
  moreover have "e_age x < a_age A" if "x \<in> set (entries A)" for x using assms(1) that by (simp add: age_inv_def)
  ultimately show ?thesis
    using assms(1,3,4) age_succ [OF assms(5)] by (fastforce simp: age_inv_def intro: order.strict_trans)
qed

lemma fst_pair_of [simp]: "fst (pair_of e) = e_key e"
  by (simp add: pair_of_def)

lemma pairs_remove1:
  assumes "distinct (map e_key S)" and "e \<in> set S"
  shows "map pair_of (remove1 e S) = filter (\<lambda>p. fst p \<noteq> e_key e) (map pair_of S)"
  using assms
proof (induction S)
  case (Cons x S)
  show ?case
  proof (cases "x = e")
    case True
    then have "filter (\<lambda>p. fst p \<noteq> e_key e) (map pair_of S) = map pair_of S"
      using Cons.prems(1) by (auto simp: filter_id_conv rev_image_eqI)
    then show ?thesis using True by simp
  next
    case False
    then have "e_key x \<noteq> e_key e" using Cons.prems by (auto simp: rev_image_eqI)
    then show ?thesis using Cons False by auto
  qed
qed simp

lemma distinct_keys_sorted: "table_inv ix A \<Longrightarrow> distinct (map e_key (sort_key e_age (entries A)))"
  using table_inv_distinct_keys [of ix A] mset_eq_imp_distinct_iff
  by (metis mset_map mset_sort)

lemma recency_remove:
  assumes "table_inv ix A" and "age_inv A" and "e \<in> set (entries A)"
    and "mset (entries B) = mset (entries A) - {#e#}"
  shows "recency_of B = lru_delete (e_key e) (recency_of A)"
  using assms sort_key_remove [OF assms(4), of e_age] pairs_remove1 [OF distinct_keys_sorted]
  by (simp add: recency_of_def lru_delete_def age_inv_def)

lemma recency_add:
  assumes "age_inv A" and "e_age e = a_age A" and "mset (entries B) = add_mset e (mset (entries A))"
  shows "recency_of B = recency_of A @ [pair_of e]"
  using assms sort_key_add_max [OF assms(3), of e_age] by (simp add: recency_of_def age_inv_def)

lemma recency_touch:
  assumes "table_inv ix A" and "age_inv A" and "e \<in> set (entries A)" and "e_key e' = e_key e"
    and "mset (entries B) = mset (entries A) - {#e#} + {#e'#}" and "e_age e' = a_age A"
  shows "recency_of B = lru_touch (e_key e) (e_val e') (recency_of A)"
proof -
  let ?xs = "remove1 e (entries A)"
  have "inj_on e_age (set ?xs)"
    using assms(2) set_remove1_subset unfolding age_inv_def distinct_map by (metis inj_on_subset)
  then have "distinct (map e_age ?xs)" using assms(2) by (simp add: age_inv_def distinct_map)
  moreover have "e_age x < e_age e'" if "x \<in> set ?xs" for x
    using assms(2,6) that set_remove1_subset by (fastforce simp: age_inv_def)
  ultimately have "sort_key e_age (entries B) = sort_key e_age ?xs @ [e']"
    using assms(5) by (intro sort_key_add_max) auto
  moreover have "sort_key e_age ?xs = remove1 e (sort_key e_age (entries A))"
    using assms(2) by (intro sort_key_remove) (auto simp: age_inv_def)
  ultimately show ?thesis
    using pairs_remove1 [OF distinct_keys_sorted [OF assms(1)], of e] assms(3,4)
    by (simp add: recency_of_def lru_touch_def pair_of_def)
qed

text \<open>The effect of each operation, on every branch.\<close>

lemma spec_get_recency:
  assumes "table_inv ix A" and "age_inv A"
  shows "fst (spec_get ix k A) = fst (lru_get k (recency_of A))"
    and "recency_of (snd (spec_get ix k A)) = snd (lru_get k (recency_of A))"
proof -
  let ?e = "lookup_entry k (a_buckets A ! ix k)"
  show "fst (spec_get ix k A) = fst (lru_get k (recency_of A))"
    by (cases ?e) (simp_all add: spec_get_def lru_get_def map_of_recency [OF assms(1)])
  show "recency_of (snd (spec_get ix k A)) = snd (lru_get k (recency_of A))"
  proof (cases ?e)
    case (Some e)
    then have e: "e \<in> set (entries A)" "e_key e = k" using lookup_in_bucket [OF assms(1)] by auto
    have "recency_of (snd (spec_get ix k A)) = lru_touch k (e_val e) (recency_of A)"
      using recency_touch [OF assms e(1) _ spec_get_entries [OF assms(1) Some]] e(2) by simp
    then show ?thesis using Some by (simp add: lru_get_def map_of_recency [OF assms(1)])
  qed (simp add: spec_get_def lru_get_def map_of_recency [OF assms(1)])
qed

lemma age_inv_get:
  assumes "table_inv ix A" and "age_inv A" and "a_age A < 0x7fffffff"
  shows "age_inv (snd (spec_get ix k A))"
proof (cases "lookup_entry k (a_buckets A ! ix k)")
  case (Some e)
  then have "e \<in> set (entries A)" using lookup_in_bucket [OF assms(1)] by auto
  then show ?thesis
    using Some by (intro age_inv_touch [OF assms(2) _ spec_get_entries [OF assms(1) Some] _ _ assms(3)])
      (auto simp: spec_get_def)
qed (simp add: spec_get_def assms)

lemma spec_delete_recency:
  assumes "table_inv ix A" and "age_inv A"
  shows "recency_of (snd (spec_delete ix k A)) = lru_delete k (recency_of A)"
    and "age_inv (snd (spec_delete ix k A))"
    and "fst (spec_delete ix k A) \<longleftrightarrow> map_of (recency_of A) k \<noteq> None"
proof -
  let ?e = "lookup_entry k (a_buckets A ! ix k)"
  show "fst (spec_delete ix k A) \<longleftrightarrow> map_of (recency_of A) k \<noteq> None"
    by (cases ?e) (simp_all add: spec_delete_def map_of_recency [OF assms(1)])
  show "recency_of (snd (spec_delete ix k A)) = lru_delete k (recency_of A)"
  proof (cases ?e)
    case None
    then have "map_of (recency_of A) k = None" by (simp add: map_of_recency [OF assms(1)])
    then have "lru_delete k (recency_of A) = recency_of A"
      by (auto simp: lru_delete_def filter_id_conv map_of_eq_None_iff rev_image_eqI)
    then show ?thesis using None by (simp add: spec_delete_def)
  next
    case (Some e)
    then have "e \<in> set (entries A)" "e_key e = k" using lookup_in_bucket [OF assms(1)] by auto
    then show ?thesis using recency_remove [OF assms _ spec_delete_entries [OF assms(1) Some]] by simp
  qed
  show "age_inv (snd (spec_delete ix k A))"
  proof (cases ?e)
    case (Some e)
    then show ?thesis
      using age_inv_remove [OF assms(2) spec_delete_entries [OF assms(1) Some]] by (simp add: spec_delete_def)
  qed (simp add: spec_delete_def assms)
qed

text \<open>The victim is the head of the recency list: the least recently used entry.\<close>

lemma victim_is_least_recent:
  assumes "table_inv ix A" and "age_inv A" and "victim (entries A) None = Some e"
  shows "recency_of A = pair_of e # tl (recency_of A)" and "e \<in> set (entries A)"
proof -
  let ?S = "sort_key e_age (entries A)"
  have e: "e \<in> set (entries A)" and least: "\<And>x. x \<in> set (entries A) \<Longrightarrow> e_age e \<le> e_age x"
    using victim_Some [OF assms(3)] by auto
  show "e \<in> set (entries A)" by (rule e)
  obtain x S where S: "?S = x # S" using e by (cases ?S) (metis empty_iff empty_set set_sort, blast)
  have "x \<in> set (entries A)" using S by (metis list.set_intros(1) set_sort)
  moreover have "e_age x \<le> e_age e"
  proof -
    have "sorted (map e_age (x # S))" using S by (metis sorted_sort_key)
    moreover have "e \<in> set (x # S)" using S e by (metis set_sort)
    ultimately show ?thesis by auto
  qed
  ultimately have "x = e"
    using least assms(2) e by (auto simp: age_inv_def distinct_map inj_on_def intro: order.antisym)
  then show "recency_of A = pair_of e # tl (recency_of A)" using S by (simp add: recency_of_def)
qed

lemma victim_exists:
  assumes "age_inv A" and "a_age A \<le> 0x7fffffff" and "entries A \<noteq> []"
  shows "\<exists>e. victim (entries A) None = Some e"
proof (rule ccontr)
  assume "\<nexists>e. victim (entries A) None = Some e"
  then have "victim (entries A) None = None" by auto
  then have "0x7fffffff \<le> e_age (hd (entries A))" using assms(3) by (simp add: victim_None)
  then show False using age_inv_bound [OF assms(1,2), of "hd (entries A)"] assms(3) by simp
qed

lemma entries_length_recency [simp]: "length (recency_of A) = length (entries A)"
  by (simp add: recency_of_def)

lemma spec_evict_recency:
  assumes "table_inv ix A" and "age_inv A" and "a_age A \<le> 0x7fffffff"
  shows "recency_of (spec_evict ix A) = tl (recency_of A) \<and> age_inv (spec_evict ix A)"
proof (cases "victim (entries A) None")
  case None
  then have "entries A = []" using victim_exists [OF assms(2,3)] by auto
  then show ?thesis using None assms(2) by (simp add: spec_evict_None recency_of_def)
next
  case (Some e)
  note e = victim_is_least_recent [OF assms(1,2) Some]
  have "recency_of (spec_evict ix A) = lru_delete (e_key e) (recency_of A)"
    using recency_remove [OF assms(1,2) e(2) spec_evict_entries [OF assms(1) Some]] .
  also have "\<dots> = map pair_of (remove1 e (sort_key e_age (entries A)))"
    using pairs_remove1 [OF distinct_keys_sorted [OF assms(1)], of e] e(2) by (simp add: lru_delete_def recency_of_def)
  also have "\<dots> = tl (recency_of A)"
  proof -
    obtain x S where S: "sort_key e_age (entries A) = x # S"
      using e(2) by (cases "sort_key e_age (entries A)") (metis empty_iff empty_set set_sort, blast)
    then have "pair_of x = pair_of e" using e(1) by (simp add: recency_of_def)
    moreover have "e \<in> set (x # S)" using S e(2) by (metis set_sort)
    moreover have "distinct (map e_key (x # S))" using S distinct_keys_sorted [OF assms(1)] by simp
    ultimately have "x = e" by (auto simp: pair_of_def rev_image_eqI)
    then show ?thesis using S by (simp add: recency_of_def)
  qed
  finally have "recency_of (spec_evict ix A) = tl (recency_of A)" .
  moreover have "age_inv (spec_evict ix A)"
    using age_inv_remove [OF assms(2) spec_evict_entries [OF assms(1) Some]] Some
    by (simp add: spec_evict_def entries_def)
  ultimately show ?thesis by simp
qed

lemma spec_room_recency:
  assumes "table_inv ix A" and "age_inv A" and "a_age A \<le> 0x7fffffff"
  shows "recency_of (spec_room ix A) = (if a_capacity A \<le> a_entries A then tl (recency_of A) else recency_of A)"
    and "age_inv (spec_room ix A)"
  using spec_evict_recency [OF assms] assms(2) by (simp_all add: spec_room_def)

lemma spec_insert_entries:
  assumes "table_inv ix A"
  shows "mset (entries (spec_insert ix k v A)) =
    (if insert_lost ix k A then mset (entries (spec_room ix A))
     else add_mset \<lparr>e_key = k, e_val = v, e_age = a_age A\<rparr> (mset (entries (spec_room ix A))))"
  using mset_entries_append [OF table_invD(1) [OF table_inv_room [OF assms]], of k]
  by (simp add: spec_insert_def Let_def entries_def)

lemma age_inv_mono: "age_inv A \<Longrightarrow> entries B = entries A \<Longrightarrow> a_age A < 0x7fffffff \<Longrightarrow> a_age B = a_age A + 1 \<Longrightarrow> age_inv B"
  using age_succ by (fastforce simp: age_inv_def intro: order.strict_trans)

lemma spec_insert_recency:
  assumes "table_inv ix A" and "age_inv A" and "a_age A < 0x7fffffff"
  shows "recency_of (spec_insert ix k v A) =
      (if a_capacity A \<le> a_entries A then tl (recency_of A) else recency_of A) @
      (if insert_lost ix k A then [] else [(k, v)])"
    and "age_inv (spec_insert ix k v A)"
proof -
  let ?R = "spec_room ix A" and ?I = "spec_insert ix k v A"
  have le: "a_age A \<le> 0x7fffffff" using assms(3) by simp
  note R = spec_room_recency [OF assms(1,2) le]
  have age: "a_age ?I = a_age ?R + 1" by (simp add: spec_insert_def Let_def)
  note I = spec_insert_entries [OF assms(1), of k v]
  have lost: "entries ?I = entries ?R" if "insert_lost ix k A"
    using that by (simp add: spec_insert_def Let_def entries_def)
  show "recency_of ?I = (if a_capacity A \<le> a_entries A then tl (recency_of A) else recency_of A) @
      (if insert_lost ix k A then [] else [(k, v)])"
  proof (cases "insert_lost ix k A")
    case True
    then show ?thesis using R(1) lost by (simp add: recency_of_def)
  next
    case False
    then show ?thesis using recency_add [OF R(2), of "\<lparr>e_key = k, e_val = v, e_age = a_age A\<rparr>" ?I] I R(1)
      by (simp add: pair_of_def)
  qed
  show "age_inv ?I"
  proof (cases "insert_lost ix k A")
    case True
    then show ?thesis using age_inv_mono [OF R(2) lost _ age] assms(3) by simp
  next
    case False
    then show ?thesis using age_inv_add [OF R(2) _ _ age, of "\<lparr>e_key = k, e_val = v, e_age = a_age A\<rparr>"] I assms(3)
      by simp
  qed
qed

lemma spec_set_recency:
  assumes "table_inv ix A" and "age_inv A" and "a_age A < 0x7fffffff"
    and "map_of (recency_of A) k = None \<Longrightarrow> \<not> insert_lost ix k A"
    and "unat (a_entries A) = length (entries A)"
  shows "recency_of (spec_set ix k v A) = lru_set (unat (a_capacity A)) k v (recency_of A)"
proof (cases "lookup_entry k (a_buckets A ! ix k)")
  case None
  then have "map_of (recency_of A) k = None" by (simp add: map_of_recency [OF assms(1)])
  then show ?thesis
    using None spec_insert_recency [OF assms(1-3), of k v] assms(4,5)
    by (simp add: spec_set_def lru_set_def word_le_nat_alt)
next
  case (Some e)
  then have e: "e \<in> set (entries A)" "e_key e = k" using lookup_in_bucket [OF assms(1)] by auto
  have "recency_of (spec_set ix k v A) = lru_touch k v (recency_of A)"
    using recency_touch [OF assms(1,2) e(1) _ spec_set_update_entries [OF assms(1) Some]] e(2) by simp
  then show ?thesis using Some by (simp add: lru_set_def map_of_recency [OF assms(1)])
qed

lemma age_inv_set:
  assumes "table_inv ix A" and "age_inv A" and "a_age A < 0x7fffffff"
  shows "age_inv (spec_set ix k v A)"
proof (cases "lookup_entry k (a_buckets A ! ix k)")
  case None
  then show ?thesis using spec_insert_recency(2) [OF assms] by (simp add: spec_set_def)
next
  case (Some e)
  then have "e \<in> set (entries A)" using lookup_in_bucket [OF assms(1)] by auto
  then show ?thesis
    using Some by (intro age_inv_touch [OF assms(2) _ spec_set_update_entries [OF assms(1) Some] _ _ assms(3)])
      (auto simp: spec_set_def)
qed

section \<open>When an insertion is lost\<close>

text \<open>Exactly when the cache is full and the least recently used entry is the last one in the
  bucket of the new key.\<close>

lemma insert_lost_iff:
  assumes "table_inv ix A"
  shows "insert_lost ix k A \<longleftrightarrow>
    a_capacity A \<le> a_entries A \<and> a_buckets A ! ix k \<noteq> [] \<and>
    victim (entries A) None = Some (last (a_buckets A ! ix k))"
proof (cases "a_capacity A \<le> a_entries A \<and> a_buckets A ! ix k \<noteq> []")
  case False
  then show ?thesis by (auto simp: insert_lost_def spec_room_def Let_def)
next
  case True
  let ?b = "a_buckets A ! ix k"
  have last: "last ?b \<in> set ?b" using True by simp
  note inv = table_invD [OF assms]
  have ixl: "ix (e_key (last ?b)) = ix k" using last inv(3) [OF inv(1)] by blast
  show ?thesis
  proof (cases "victim (entries A) None")
    case None
    then show ?thesis using True last by (simp add: insert_lost_def spec_room_def spec_evict_None Let_def)
  next
    case (Some e)
    then have v: "victim (concat (a_buckets A)) None = Some e" by (simp add: entries_def)
    show ?thesis
    proof (cases "ix (e_key e) = ix k")
      case False
      then have "e \<noteq> last ?b" using ixl by auto
      then show ?thesis using True False Some v last
        by (simp add: insert_lost_def spec_room_def spec_evict_def Let_def)
    next
      case same: True
      have e: "e \<in> set ?b" using victim_lookup [OF assms Some] same by (auto simp: lookup_entry_Some)
      have d: "distinct (map e_key ?b)" using inv(2) [OF inv(1)] .
      have "e_key (last ?b) \<notin> e_key ` set (del_entry (e_key e) ?b) \<longleftrightarrow> e_key (last ?b) = e_key e"
        using keys_del_entry [OF d] last by auto
      also have "\<dots> \<longleftrightarrow> e = last ?b" using d e last by (auto simp: distinct_map inj_on_def)
      finally show ?thesis using True Some v same inv(1)
        by (auto simp: insert_lost_def spec_room_def spec_evict_def Let_def)
    qed
  qed
qed

section \<open>Counting\<close>

lemma spec_room_count:
  assumes "table_inv ix A" and "age_inv A" and "a_age A \<le> 0x7fffffff" and "a_capacity A \<le> a_entries A"
    and "entries A \<noteq> []"
  shows "length (entries (spec_room ix A)) = length (entries A) - 1"
    and "a_entries (spec_room ix A) = a_entries A - 1"
proof -
  show "length (entries (spec_room ix A)) = length (entries A) - 1"
    using spec_room_recency(1) [OF assms(1-3)] assms(4) by (metis entries_length_recency length_tl)
  obtain e where "victim (entries A) None = Some e" using victim_exists [OF assms(2,3,5)] by blast
  then show "a_entries (spec_room ix A) = a_entries A - 1"
    using assms(4) by (simp add: spec_room_def spec_evict_def entries_def)
qed

lemma spec_room_empty: "entries A = [] \<Longrightarrow> spec_room ix A = A"
  by (simp add: spec_room_def spec_evict_None)

lemma spec_insert_length:
  assumes "table_inv ix A"
  shows "length (entries (spec_insert ix k v A)) =
    length (entries (spec_room ix A)) + (if insert_lost ix k A then 0 else 1)"
proof -
  have "size (mset (entries (spec_insert ix k v A))) =
      size (mset (entries (spec_room ix A))) + (if insert_lost ix k A then 0 else 1)"
    by (simp add: spec_insert_entries [OF assms])
  then show ?thesis by simp
qed

lemma spec_set_length:
  assumes "table_inv ix A" and "lookup_entry k (a_buckets A ! ix k) = Some e"
  shows "length (entries (spec_set ix k v A)) = length (entries A)"
proof -
  have "e \<in># mset (entries A)" using assms lookup_in_bucket by auto
  then have "size (mset (entries (spec_set ix k v A))) = size (mset (entries A))"
    using spec_set_update_entries [OF assms, of v] by (metis add_mset_add_single insert_DiffM size_add_mset)
  then show ?thesis by simp
qed

lemma spec_insert_counters [simp]:
  "a_entries (spec_insert ix k v A) = a_entries (spec_room ix A) + 1"
  "a_age (spec_insert ix k v A) = a_age A + 1"
  "a_capacity (spec_insert ix k v A) = a_capacity A"
  "length (a_buckets (spec_insert ix k v A)) = length (a_buckets A)"
  by (simp_all add: spec_insert_def Let_def)

lemma unat_succ: "(x :: u64) < 0x7fffffff \<Longrightarrow> unat (x + 1) = unat x + 1"
  by (simp add: word_less_nat_alt unat_word_ariths)

lemma unat_pred: "0 < unat (x :: u64) \<Longrightarrow> unat (x - 1) = unat x - 1"
  by (metis One_nat_def Suc_leI unat_1 unat_sub word_le_nat_alt)

lemma count_inv_set:
  assumes "table_inv ix A" and "age_inv A" and "a_age A < 0x7fffffff" and "count_inv A" and "0 < a_capacity A"
  shows "count_inv (spec_set ix k v A)"
proof (cases "lookup_entry k (a_buckets A ! ix k)")
  case (Some e)
  have "a_entries A \<le> a_age A + 1"
    using assms(3,4) age_succ [OF assms(3)] by (auto simp: count_inv_def)
  then show ?thesis using assms(4) spec_set_length [OF assms(1) Some, of v] Some
    by (simp add: count_inv_def spec_set_def)
next
  case None
  let ?R = "spec_room ix A"
  have n: "length (entries A) \<le> unat (a_entries A)" "length (entries A) \<le> unat (a_capacity A)"
    "unat (a_entries A) \<le> unat (a_age A)" "unat (a_age A) < 0x7fffffff" "0 < unat (a_capacity A)"
    using assms(3-5) by (simp_all add: count_inv_def word_le_nat_alt word_less_nat_alt)
  have R: "length (entries ?R) + 1 \<le> unat (a_entries ?R + 1) \<and> length (entries ?R) + 1 \<le> unat (a_capacity A) \<and>
      unat (a_entries ?R + 1) \<le> unat (a_age A) + 1"
  proof (cases "a_capacity A \<le> a_entries A \<and> entries A \<noteq> []")
    case True
    then have "0 < length (entries A)" by simp
    then show ?thesis
      using spec_room_count [OF assms(1,2) _ conjunct1 [OF True] conjunct2 [OF True]] n
        assms(3) unat_pred [of "a_entries A"] by simp
  next
    case False
    then have "?R = A" using spec_room_empty [of A ix] by (cases "entries A = []") (simp_all add: spec_room_def)
    moreover have "length (entries A) < unat (a_capacity A)"
      using False n by (auto simp: word_le_nat_alt)
    moreover have "unat (a_entries A + 1) = unat (a_entries A) + 1"
      using n by (intro unat_succ) (simp add: word_less_nat_alt)
    ultimately show ?thesis using n by simp
  qed
  then have "unat (a_entries ?R + 1) \<le> unat (a_age A + 1)" using unat_succ [OF assms(3)] by simp
  then show ?thesis
    using None R spec_insert_length [OF assms(1), of k v]
    by (auto simp: count_inv_def spec_set_def word_le_nat_alt)
qed

lemma count_inv_get:
  assumes "table_inv ix A" and "a_age A < 0x7fffffff" and "count_inv A"
  shows "count_inv (snd (spec_get ix k A))"
proof (cases "lookup_entry k (a_buckets A ! ix k)")
  case (Some e)
  have "e \<in># mset (entries A)" using assms(1) Some lookup_in_bucket by auto
  then have "size (mset (entries (snd (spec_get ix k A)))) = size (mset (entries A))"
    using spec_get_entries [OF assms(1) Some] by (metis add_mset_add_single insert_DiffM size_add_mset)
  moreover have "a_entries A \<le> a_age A + 1"
    using assms(2,3) age_succ [OF assms(2)] by (auto simp: count_inv_def)
  ultimately show ?thesis using assms(3) Some by (auto simp: count_inv_def spec_get_def)
qed (simp add: spec_get_def assms)

lemma count_inv_delete:
  assumes "table_inv ix A" and "count_inv A"
  shows "count_inv (snd (spec_delete ix k A))"
proof (cases "lookup_entry k (a_buckets A ! ix k)")
  case (Some e)
  have "size (mset (entries (snd (spec_delete ix k A)))) \<le> size (mset (entries A))"
    unfolding spec_delete_entries [OF assms(1) Some] by (intro size_mset_mono) simp
  then show ?thesis using assms(2) Some by (auto simp: count_inv_def spec_delete_def)
qed (simp add: spec_delete_def assms)

section \<open>A lookup after a set\<close>

lemma spec_set_get:
  assumes "table_inv ix A" and "lookup_entry k (a_buckets A ! ix k) = None \<Longrightarrow> \<not> insert_lost ix k A"
  shows "fst (spec_get ix k (spec_set ix k v A)) = Some v"
proof -
  have i: "ix k < length (a_buckets A)" using table_invD(1) [OF assms(1)] .
  show ?thesis
  proof (cases "lookup_entry k (a_buckets A ! ix k)")
    case None
    have "lookup_entry k (a_buckets (spec_room ix A) ! ix k) = None"
      using None assms(1) spec_room_keys [OF assms(1)]
      by (auto simp: lookup_not_in_bucket table_inv_room)
    then have "k \<notin> e_key ` set (a_buckets (spec_room ix A) ! ix k)" by (simp add: lookup_entry_None)
    then have "lookup_entry k (a_buckets (spec_room ix A) ! ix k @ [\<lparr>e_key = k, e_val = v, e_age = a_age A\<rparr>]) =
        Some \<lparr>e_key = k, e_val = v, e_age = a_age A\<rparr>"
      by (auto simp: lookup_entry_Some)
    then show ?thesis using None assms(2) i by (simp add: spec_set_def spec_insert_def Let_def spec_get_def)
  next
    case (Some e)
    then obtain xs ys where xs: "a_buckets A ! ix k = xs @ e # ys" "e_key e = k" "k \<notin> e_key ` set xs"
      by (auto simp: lookup_entry_Some)
    then have "lookup_entry k (xs @ e\<lparr>e_val := v, e_age := a_age A\<rparr> # ys) = Some (e\<lparr>e_val := v, e_age := a_age A\<rparr>)"
      by (auto simp: lookup_entry_Some)
    then show ?thesis using Some xs i by (simp add: spec_set_def spec_get_def upd_entry_split)
  qed
qed

lemma spec_set_lost_get:
  assumes "table_inv ix A" and "insert_lost ix k A" and "lookup_entry k (a_buckets A ! ix k) = None"
  shows "fst (spec_get ix k (spec_set ix k v A)) = None"
proof -
  have "lookup_entry k (a_buckets (spec_room ix A) ! ix k) = None"
    using assms spec_room_keys [OF assms(1)] by (auto simp: lookup_not_in_bucket table_inv_room)
  then show ?thesis using assms(2,3) by (simp add: spec_set_def spec_insert_def Let_def spec_get_def)
qed

end
