(* ===== verification/Lru_Refine.thy ===== *)
theory Lru_Refine
  imports Lru_Cache Lru_Spec
begin

text \<open>
  The memory model of the LRU cache implements the bucket layer of \<open>Lru_Spec\<close>.

  \<open>table_rel c m ass A\<close> relates a cache structure \<open>c\<close> and a memory \<open>m\<close> to a bucket table \<open>A\<close>, where
  \<open>ass\<close> lists the addresses of the items of each bucket: every bucket pointer starts a null-ended
  chain of its items, each item holds the key, the value and the age of its entry in blocks that
  no other item shares, buckets do not share items, and nothing above the allocation mark is in
  use. \<open>lru_rel\<close> adds that the mutex is free, which holds between calls.

  The first part proves the loops (search, eviction scan), then each operation; the last part
  states what the operations do in terms of the recency layer.
\<close>

section \<open>The representation relation\<close>

definition item_rep :: "lru_mem \<Rightarrow> addr \<Rightarrow> entry \<Rightarrow> bool" where
  "item_rep m a e \<longleftrightarrow> (\<exists>it k v.
     item_at m a = Some it \<and> i_key it = Ref k \<and> i_value it = Ref v \<and> k \<noteq> v \<and>
     block_at m k = Some (e_key e @ [0]) \<and> cstring (e_key e) \<and>
     block_at m v = Some (e_val e) \<and> unat (i_value_length it) = length (e_val e) \<and>
     i_age it = e_age e)"

definition own :: "lru_mem \<Rightarrow> addr \<Rightarrow> addr set" where
  "own m a = (case item_at m a of None \<Rightarrow> {} | Some it \<Rightarrow> {b. i_key it = Ref b \<or> i_value it = Ref b})"

definition bucket_rep :: "lru_mem \<Rightarrow> ptr \<Rightarrow> addr list \<Rightarrow> entry list \<Rightarrow> bool" where
  "bucket_rep m p as es \<longleftrightarrow>
     chain i_next (item_at m) p as \<and> distinct as \<and> list_all2 (item_rep m) as es \<and>
     (\<forall>a \<in> set as. \<forall>b \<in> set as. a \<noteq> b \<longrightarrow> own m a \<inter> own m b = {})"

definition fresh :: "lru_mem \<Rightarrow> bool" where
  "fresh m \<longleftrightarrow> (\<forall>a \<ge> brk m. item_at m a = None \<and> block_at m a = None)"

definition table_rel :: "LRUCache \<Rightarrow> lru_mem \<Rightarrow> addr list list \<Rightarrow> lru_abs \<Rightarrow> bool" where
  "table_rel c m ass A \<longleftrightarrow>
     unat (c_hash_table_size c) = length ass \<and> length (c_items c) = length ass \<and>
     length (a_buckets A) = length ass \<and> ass \<noteq> [] \<and>
     (\<forall>i < length ass. bucket_rep m (c_items c ! i) (ass ! i) (a_buckets A ! i)) \<and>
     (\<forall>i < length ass. \<forall>j < length ass. i \<noteq> j \<longrightarrow>
        (\<forall>a \<in> set (ass ! i). \<forall>b \<in> set (ass ! j). a \<noteq> b \<and> own m a \<inter> own m b = {})) \<and>
     fresh m \<and>
     c_capacity c = a_capacity A \<and> c_current_entries c = a_entries A \<and> c_age c = a_age A"

definition hash_ix :: "LRUCache \<Rightarrow> byte list \<Rightarrow> nat" where
  "hash_ix c key = (case LRUCacheGetHashIndex c key of None \<Rightarrow> 0 | Some i \<Rightarrow> unat i)"

definition lru_rel :: "LRUCache \<Rightarrow> lru_mem \<Rightarrow> lru_abs \<Rightarrow> bool" where
  "lru_rel c m A \<longleftrightarrow> (\<exists>ass. table_rel c m ass A) \<and> table_inv (hash_ix c) A \<and> \<not> c_mutex c"

text \<open>An allocator that never fails and hands out zeroed memory.\<close>

definition zeroing :: "malloc_env \<Rightarrow> bool" where
  "zeroing E \<longleftrightarrow>
     (\<forall>a. \<not> m_fails E a) \<and> (\<forall>a. i_next (m_item E a) = Null) \<and>
     (\<forall>a i. m_slot E a i = Null) \<and> (\<forall>a. m_word E a = 0)"

section \<open>The hash index\<close>

lemma hash_index_Some:
  "c_hash_table_size c \<noteq> 0 \<Longrightarrow> \<exists>i. LRUCacheGetHashIndex c key = Some i \<and> i < c_hash_table_size c"
  by (auto simp: LRUCacheGetHashIndex_def Let_def word_gt_0 split: prod.splits intro: word_mod_less_divisor)

lemma hash_index_ix:
  "c_hash_table_size c \<noteq> 0 \<Longrightarrow> \<exists>i. LRUCacheGetHashIndex c key = Some i \<and> unat i = hash_ix c key"
  using hash_index_Some [of c key] by (auto simp: hash_ix_def)

lemma hash_ix_less: "c_hash_table_size c \<noteq> 0 \<Longrightarrow> hash_ix c key < unat (c_hash_table_size c)"
  using hash_index_Some [of c key] by (auto simp: hash_ix_def word_less_nat_alt)

lemma hash_index_cong:
  "c_hash_table_size c' = c_hash_table_size c \<Longrightarrow> c_seed c' = c_seed c \<Longrightarrow>
   LRUCacheGetHashIndex c' key = LRUCacheGetHashIndex c key"
  by (simp add: LRUCacheGetHashIndex_def split: prod.split)

lemma hash_ix_cong:
  "c_hash_table_size c' = c_hash_table_size c \<Longrightarrow> c_seed c' = c_seed c \<Longrightarrow> hash_ix c' = hash_ix c"
  using hash_index_cong [of c' c] by (simp add: hash_ix_def fun_eq_iff)

section \<open>Framing\<close>

lemma get_item_Ref [simp]: "get_item (Ref a) m = item_at m a"
  by (simp add: get_item_def)

lemma get_block_Ref [simp]: "get_block (Ref a) m = block_at m a"
  by (simp add: get_block_def)

lemma put_item_Ref [simp]:
  "item_at m a = Some it \<Longrightarrow> put_item (Ref a) f m = Some (m\<lparr>item_at := (item_at m)(a \<mapsto> f it)\<rparr>)"
  by (simp add: put_item_def)

lemma put_block_Ref [simp]:
  "block_at m a = Some b \<Longrightarrow> put_block (Ref a) bs m = Some (m\<lparr>block_at := (block_at m)(a \<mapsto> bs)\<rparr>)"
  by (simp add: put_block_def)

lemma free_block_Ref [simp]:
  "block_at m a = Some b \<Longrightarrow> free_block (Ref a) m = Some (m\<lparr>block_at := (block_at m)(a := None)\<rparr>)"
  by (simp add: free_block_def)

lemma free_item_Ref [simp]:
  "item_at m a = Some b \<Longrightarrow> free_item (Ref a) m = Some (m\<lparr>item_at := (item_at m)(a := None)\<rparr>)"
  by (simp add: free_item_def)

lemma own_cong: "item_at m' a = item_at m a \<Longrightarrow> own m' a = own m a"
  by (simp add: own_def)

lemma item_rep_frame:
  "item_rep m a e \<Longrightarrow> item_at m' a = item_at m a \<Longrightarrow>
   (\<And>b. b \<in> own m a \<Longrightarrow> block_at m' b = block_at m b) \<Longrightarrow> item_rep m' a e"
  by (fastforce simp: item_rep_def own_def)

lemma item_rep_own:
  "item_rep m a e \<Longrightarrow> b \<in> own m a \<Longrightarrow> \<exists>bs. block_at m b = Some bs"
  by (auto simp: item_rep_def own_def)

lemma item_rep_item: "item_rep m a e \<Longrightarrow> \<exists>it. item_at m a = Some it"
  by (auto simp: item_rep_def)

lemma bucket_rep_frame:
  assumes "bucket_rep m p as es"
    and "\<And>a. a \<in> set as \<Longrightarrow> item_at m' a = item_at m a"
    and "\<And>a b. a \<in> set as \<Longrightarrow> b \<in> own m a \<Longrightarrow> block_at m' b = block_at m b"
  shows "bucket_rep m' p as es"
proof -
  have "chain i_next (item_at m) p as \<longleftrightarrow> chain i_next (item_at m') p as"
    by (rule path_cong) (simp add: assms(2))
  moreover have "list_all2 (item_rep m') as es"
    using assms by (auto simp: bucket_rep_def elim!: list.rel_mono_strong intro: item_rep_frame)
  moreover have "own m' a = own m a" if "a \<in> set as" for a using assms(2) that by (intro own_cong)
  ultimately show ?thesis using assms(1) by (simp add: bucket_rep_def)
qed

lemma bucket_rep_nth:
  "bucket_rep m p as es \<Longrightarrow> j < length as \<Longrightarrow> item_rep m (as ! j) (es ! j)"
  by (auto simp: bucket_rep_def list_all2_conv_all_nth)

lemma bucket_rep_length: "bucket_rep m p as es \<Longrightarrow> length as = length es"
  by (auto simp: bucket_rep_def list_all2_lengthD)

lemma bucket_rep_items: "bucket_rep m p as es \<Longrightarrow> a \<in> set as \<Longrightarrow> \<exists>e \<in> set es. item_rep m a e"
  by (force simp: bucket_rep_def list_all2_conv_all_nth in_set_conv_nth)

lemma table_relD:
  assumes "table_rel c m ass A"
  shows "unat (c_hash_table_size c) = length ass" "length (c_items c) = length ass"
    "length (a_buckets A) = length ass" "ass \<noteq> []"
    "i < length ass \<Longrightarrow> bucket_rep m (c_items c ! i) (ass ! i) (a_buckets A ! i)"
    "i < length ass \<Longrightarrow> j < length ass \<Longrightarrow> i \<noteq> j \<Longrightarrow> a \<in> set (ass ! i) \<Longrightarrow> b \<in> set (ass ! j) \<Longrightarrow>
       a \<noteq> b \<and> own m a \<inter> own m b = {}"
    "fresh m" "c_capacity c = a_capacity A" "c_current_entries c = a_entries A" "c_age c = a_age A"
    "c_hash_table_size c \<noteq> 0"
proof -
  show "c_hash_table_size c \<noteq> 0" using assms unfolding table_rel_def by force
qed (use assms in \<open>unfold table_rel_def, blast+\<close>)

lemma table_rel_update:
  assumes R: "table_rel c m ass A" and i: "i < length ass"
    and B: "bucket_rep m' p as es"
    and frame: "\<And>j a. j < length ass \<Longrightarrow> j \<noteq> i \<Longrightarrow> a \<in> set (ass ! j) \<Longrightarrow>
        item_at m' a = item_at m a \<and> (\<forall>b \<in> own m a. block_at m' b = block_at m b)"
    and sep: "\<And>j a b. j < length ass \<Longrightarrow> j \<noteq> i \<Longrightarrow> a \<in> set (ass ! j) \<Longrightarrow> b \<in> set as \<Longrightarrow>
        a \<noteq> b \<and> own m a \<inter> own m' b = {}"
    and "fresh m'"
    and "c_hash_table_size c' = c_hash_table_size c" "c_items c' = (c_items c)[i := p]"
    and "a_buckets A' = (a_buckets A)[i := es]"
    and "c_capacity c' = a_capacity A'" "c_current_entries c' = a_entries A'" "c_age c' = a_age A'"
  shows "table_rel c' m' (ass[i := as]) A'"
proof -
  note D = table_relD [OF R]
  have own_eq: "own m' a = own m a" if "j < length ass" "j \<noteq> i" "a \<in> set (ass ! j)" for j a
    using frame [OF that] own_cong by blast
  have bk: "bucket_rep m' (c_items c' ! j) (ass[i := as] ! j) (a_buckets A' ! j)" if j: "j < length ass" for j
  proof (cases "j = i")
    case True
    then show ?thesis using B i D(2,3) assms(8,9) by simp
  next
    case False
    then have "bucket_rep m' (c_items c ! j) (ass ! j) (a_buckets A ! j)"
      using frame [OF j] by (intro bucket_rep_frame [OF D(5) [OF j]]) auto
    then show ?thesis using False assms(8,9) by simp
  qed
  have dj: "a \<noteq> b \<and> own m' a \<inter> own m' b = {}"
    if jk: "j < length ass" "k < length ass" "j \<noteq> k" "a \<in> set (ass[i := as] ! j)" "b \<in> set (ass[i := as] ! k)" for j k a b
  proof (cases "j = i \<or> k = i")
    case True
    then consider "j = i" "k \<noteq> i" | "k = i" "j \<noteq> i" using jk(3) by blast
    then show ?thesis
    proof cases
      case 1
      then show ?thesis using jk sep [of k b a] own_eq [of k b] i by auto
    next
      case 2
      then show ?thesis using jk sep [of j a b] own_eq [of j a] i by auto
    qed
  next
    case False
    then show ?thesis using jk D(6) [of j k a b] own_eq by auto
  qed
  have "\<forall>j < length (ass[i := as]). bucket_rep m' (c_items c' ! j) (ass[i := as] ! j) (a_buckets A' ! j)"
    using bk by simp
  moreover have "\<forall>j < length (ass[i := as]). \<forall>k < length (ass[i := as]). j \<noteq> k \<longrightarrow>
      (\<forall>a \<in> set (ass[i := as] ! j). \<forall>b \<in> set (ass[i := as] ! k). a \<noteq> b \<and> own m' a \<inter> own m' b = {})"
    using dj by (metis length_list_update)
  moreover have "unat (c_hash_table_size c') = length (ass[i := as])" "length (c_items c') = length (ass[i := as])"
    "length (a_buckets A') = length (ass[i := as])" "ass[i := as] \<noteq> []"
    using D(1-4) assms(7-9) by simp_all
  ultimately show ?thesis using assms(6,10-12) unfolding table_rel_def by blast
qed

section \<open>The search loop\<close>

lemma compare_key:
  assumes "item_rep m a e"
  shows "\<exists>r. LRUCacheCompareKey m (Ref a) key = Some r \<and> (r = 0 \<longleftrightarrow> e_key e = key)"
proof -
  obtain it k where it: "item_at m a = Some it" "i_key it = Ref k" "block_at m k = Some (e_key e @ [0])"
    "cstring (e_key e)"
    using assms by (auto simp: item_rep_def)
  show ?thesis
  proof (cases "length key = length (e_key e)")
    case True
    then obtain r where "memcmp key (e_key e @ [0]) (length key) = Some r" "r = 0 \<longleftrightarrow> key = e_key e"
      using memcmp_length_Some [of "length key" key "e_key e @ [0]"] by auto
    then show ?thesis using it True by (auto simp: LRUCacheCompareKey_def)
  next
    case False
    then show ?thesis using it by (auto simp: LRUCacheCompareKey_def)
  qed
qed

lemma find_item_step:
  assumes "item_rep m a e" and "item_at m a = Some it"
  shows "find_item m key prev (Ref a) =
    (if e_key e = key then Some (prev, Ref a) else find_item m key (Ref a) (i_next it))"
proof -
  obtain r where "LRUCacheCompareKey m (Ref a) key = Some r" "r = 0 \<longleftrightarrow> e_key e = key"
    using compare_key [OF assms(1)] by blast
  then show ?thesis using assms(2) by (subst find_item.simps) auto
qed

lemma find_item_Null [simp]: "find_item m key prev Null = Some (prev, Null)"
  by (subst find_item.simps) simp

lemma find_item_missing:
  assumes "chain i_next (item_at m) p as" and "list_all2 (item_rep m) as es" and "key \<notin> e_key ` set es"
  shows "find_item m key prev p = Some (last_ptr prev as, Null)"
  using assms
proof (induction as arbitrary: p prev es)
  case (Cons a as)
  then obtain e es' it where "es = e # es'" "item_rep m a e" "list_all2 (item_rep m) as es'"
    "p = Ref a" "item_at m a = Some it" "chain i_next (item_at m) (i_next it) as"
    by (auto simp: list_all2_Cons1)
  then show ?case using Cons.IH [of "i_next it" es' "Ref a"] Cons.prems(3) by (auto simp: find_item_step)
qed simp

lemma find_item_found:
  assumes "chain i_next (item_at m) p (as @ a # bs)" and "list_all2 (item_rep m) as es"
    and "item_rep m a e" and "e_key e = key" and "key \<notin> e_key ` set es"
  shows "find_item m key prev p = Some (last_ptr prev as, Ref a)"
  using assms
proof (induction as arbitrary: p prev es)
  case Nil
  then obtain it where "p = Ref a" "item_at m a = Some it" by auto
  then show ?case using Nil.prems(3,4) by (simp add: find_item_step)
next
  case (Cons b as)
  then obtain x es' it where "es = x # es'" "item_rep m b x" "list_all2 (item_rep m) as es'"
    "p = Ref b" "item_at m b = Some it" "chain i_next (item_at m) (i_next it) (as @ a # bs)"
    by (auto simp: list_all2_Cons1)
  then show ?case using Cons.IH [of "i_next it" es' "Ref b"] Cons.prems(3-5) by (auto simp: find_item_step)
qed

text \<open>A key that is in the bucket splits the item list and the entry list at the same place.\<close>

lemma bucket_rep_split:
  assumes "bucket_rep m p as es" and "es = es1 @ e # es2"
  obtains as1 a as2 where "as = as1 @ a # as2" "list_all2 (item_rep m) as1 es1" "item_rep m a e"
    "list_all2 (item_rep m) as2 es2"
  using assms by (auto simp: bucket_rep_def list_all2_append2 list_all2_Cons2)

lemma find_item_lookup:
  assumes "bucket_rep m p as es"
  shows "lookup_entry key es = None \<Longrightarrow> find_item m key prev p = Some (last_ptr prev as, Null)"
    and "lookup_entry key es = Some e \<Longrightarrow>
      \<exists>as1 a as2 es1 es2. as = as1 @ a # as2 \<and> es = es1 @ e # es2 \<and> key \<notin> e_key ` set es1 \<and> e_key e = key \<and>
        list_all2 (item_rep m) as1 es1 \<and> list_all2 (item_rep m) as2 es2 \<and> item_rep m a e \<and>
        find_item m key prev p = Some (last_ptr prev as1, Ref a)"
proof -
  show "lookup_entry key es = None \<Longrightarrow> find_item m key prev p = Some (last_ptr prev as, Null)"
    using assms by (auto simp: bucket_rep_def lookup_entry_None intro!: find_item_missing)
  assume "lookup_entry key es = Some e"
  then obtain es1 es2 where es: "es = es1 @ e # es2" "e_key e = key" "key \<notin> e_key ` set es1"
    by (auto simp: lookup_entry_Some)
  obtain as1 a as2 where as: "as = as1 @ a # as2" "list_all2 (item_rep m) as1 es1" "item_rep m a e"
    "list_all2 (item_rep m) as2 es2"
    using bucket_rep_split [OF assms es(1)] .
  have "find_item m key prev p = Some (last_ptr prev as1, Ref a)"
    using assms as es by (intro find_item_found) (auto simp: bucket_rep_def)
  then show "\<exists>as1 a as2 es1 es2. as = as1 @ a # as2 \<and> es = es1 @ e # es2 \<and> key \<notin> e_key ` set es1 \<and> e_key e = key \<and>
        list_all2 (item_rep m) as1 es1 \<and> list_all2 (item_rep m) as2 es2 \<and> item_rep m a e \<and>
        find_item m key prev p = Some (last_ptr prev as1, Ref a)"
    using as es by blast
qed

section \<open>The eviction scan\<close>

lemma scast_ucast_small: "(g :: u64) < 0x7fffffff \<Longrightarrow> scast (ucast g :: u32) = g"
proof -
  assume "g < 0x7fffffff"
  then have g: "uint g < 0x7fffffff" by (simp add: word_less_alt)
  then have u: "uint (ucast g :: u32) = uint g" by (simp add: unsigned_ucast_eq take_bit_int_eq_self)
  then have "sint (ucast g :: u32) = uint g"
    using g signed_take_bit_int_eq_self [of 31 "uint g"] order_trans [OF _ uint_ge_0 [of g], of "- (2 ^ 31)"]
    by (simp add: sint_uint)
  then show ?thesis by (simp add: scast_eq)
qed

definition least_rel :: "lru_mem \<Rightarrow> addr list list \<Rightarrow> least \<Rightarrow> entry option \<Rightarrow> bool" where
  "least_rel m ass l acc \<longleftrightarrow>
     (case acc of None \<Rightarrow> l = least_init
      | Some e \<Rightarrow> e_age e < 0x7fffffff \<and> least_age l = ucast (e_age e) \<and> least_index l < length ass \<and>
          (\<exists>xs a ys. ass ! least_index l = xs @ a # ys \<and> least_prev l = last_ptr Null xs \<and>
             least_used l = Ref a \<and> item_rep m a e))"

lemma least_rel_bound: "least_rel m ass l acc \<Longrightarrow> scast (least_age l) = age_bound acc"
  by (auto simp: least_rel_def least_init_def age_bound_def INT_MAX_def scast_ucast_small split: option.splits)

lemma least_rel_step:
  assumes "least_rel m ass l acc" and "i < length ass" and "ass ! i = xs @ a # ys" and "item_rep m a e"
  shows "least_rel m ass (scan_item i (last_ptr Null xs) (Ref a) (e_age e) l)
    (if e_age e < age_bound acc then Some e else acc)"
proof (cases "e_age e < age_bound acc")
  case True
  then have "e_age e < 0x7fffffff"
    using assms(1) by (auto simp: least_rel_def age_bound_def split: option.splits)
  then show ?thesis using True assms least_rel_bound [OF assms(1)]
    by (auto simp: scan_item_def least_rel_def)
next
  case False
  then show ?thesis using assms(1) least_rel_bound [OF assms(1)] by (simp add: scan_item_def)
qed

lemma scan_bucket_rep:
  assumes "i < length ass" and "ass ! i = pre @ as" and "chain i_next (item_at m) p as"
    and "list_all2 (item_rep m) as es" and "least_rel m ass l acc"
  shows "\<exists>l'. scan_bucket m i (last_ptr Null pre) p l = Some l' \<and> least_rel m ass l' (victim es acc)"
  using assms
proof (induction as arbitrary: pre p es l acc)
  case Nil
  then show ?case by (subst scan_bucket.simps) simp
next
  case (Cons a as)
  then obtain e es' it where *: "es = e # es'" "item_rep m a e" "list_all2 (item_rep m) as es'"
    "p = Ref a" "item_at m a = Some it" "chain i_next (item_at m) (i_next it) as"
    by (auto simp: list_all2_Cons1)
  have age: "i_age it = e_age e" using *(2,5) by (auto simp: item_rep_def)
  let ?l = "scan_item i (last_ptr Null pre) (Ref a) (e_age e) l"
  let ?acc = "if e_age e < age_bound acc then Some e else acc"
  have "least_rel m ass ?l ?acc" using least_rel_step [OF Cons.prems(5,1,2) *(2)] .
  then have "\<exists>l'. scan_bucket m i (last_ptr Null (pre @ [a])) (i_next it) ?l = Some l' \<and>
      least_rel m ass l' (victim es' ?acc)"
    using Cons.prems(1,2) * by (intro Cons.IH) auto
  then show ?case using * age by (subst scan_bucket.simps) simp
qed

lemma victim_append: "victim (xs @ ys) acc = victim ys (victim xs acc)"
  by (induction xs arbitrary: acc) auto

lemma scan_table_rep:
  assumes R: "table_rel c m ass A" and "j \<le> length ass" and "least_rel m ass l acc"
  shows "\<exists>l'. scan_table c m [j..<length ass] l = Some l' \<and>
    least_rel m ass l' (victim (concat (drop j (a_buckets A))) acc)"
  using assms(2,3)
proof (induction "length ass - j" arbitrary: j l acc)
  case 0
  then show ?case using table_relD(3) [OF R] by simp
next
  case (Suc n)
  then have j: "j < length ass" by simp
  note D = table_relD [OF R]
  have "bucket_rep m (c_items c ! j) (ass ! j) (a_buckets A ! j)" using D(5) j by blast
  then obtain l' where l': "scan_bucket m j Null (c_items c ! j) l = Some l'"
    "least_rel m ass l' (victim (a_buckets A ! j) acc)"
    using scan_bucket_rep [OF j, of "[]" "ass ! j" m "c_items c ! j" "a_buckets A ! j" l acc] Suc.prems(2)
    unfolding bucket_rep_def by auto
  have "drop j (a_buckets A) = a_buckets A ! j # drop (Suc j) (a_buckets A)"
    using j D(3) by (metis Cons_nth_drop_Suc)
  moreover have "n = length ass - Suc j" using Suc.hyps(2) by simp
  ultimately show ?case
    using Suc.hyps(1) [of "Suc j" l' "victim (a_buckets A ! j) acc"] l' j D(2)
    by (simp add: upt_conv_Cons victim_append)
qed

section \<open>Removing an item\<close>

text \<open>Two memories agree on an item up to its link.\<close>

definition same_item :: "lru_mem \<Rightarrow> lru_mem \<Rightarrow> addr \<Rightarrow> bool" where
  "same_item m m' a \<longleftrightarrow> map_option (set_next Null) (item_at m' a) = map_option (set_next Null) (item_at m a)"

lemma same_item_refl: "item_at m' a = item_at m a \<Longrightarrow> same_item m m' a"
  by (simp add: same_item_def)

lemma same_item_next:
  "item_at m a = Some it \<Longrightarrow> item_at m' a = Some (it\<lparr>i_next := q\<rparr>) \<Longrightarrow> same_item m m' a"
  by (simp add: same_item_def)

lemma same_itemD:
  assumes "same_item m m' a" and "item_at m a = Some it"
  obtains it' where "item_at m' a = Some it'" "i_key it' = i_key it" "i_value it' = i_value it"
    "i_value_length it' = i_value_length it" "i_age it' = i_age it"
proof -
  obtain it' where it': "item_at m' a = Some it'" "set_next Null it' = set_next Null it"
    using assms by (auto simp: same_item_def)
  obtain q where q: "it' = it\<lparr>i_next := q\<rparr>" using it'(2) by (cases it, cases it') auto
  show ?thesis by (rule that [OF it'(1)]) (simp_all add: q)
qed

lemma same_item_own: "same_item m m' a \<Longrightarrow> own m' a = own m a"
proof (cases "item_at m a")
  case None
  moreover assume "same_item m m' a"
  ultimately show ?thesis by (simp add: own_def same_item_def)
next
  case (Some it)
  moreover assume "same_item m m' a"
  ultimately obtain it' where "item_at m' a = Some it'" "i_key it' = i_key it" "i_value it' = i_value it"
    using same_itemD by metis
  then show ?thesis using Some by (simp add: own_def)
qed

lemma item_rep_same:
  assumes "item_rep m a e" and "same_item m m' a" and "\<And>b. b \<in> own m a \<Longrightarrow> block_at m' b = block_at m b"
  shows "item_rep m' a e"
proof -
  obtain it k v where it: "item_at m a = Some it" "i_key it = Ref k" "i_value it = Ref v" "k \<noteq> v"
    "block_at m k = Some (e_key e @ [0])" "cstring (e_key e)" "block_at m v = Some (e_val e)"
    "unat (i_value_length it) = length (e_val e)" "i_age it = e_age e"
    using assms(1) by (auto simp: item_rep_def)
  obtain it' where it': "item_at m' a = Some it'" "i_key it' = i_key it" "i_value it' = i_value it"
    "i_value_length it' = i_value_length it" "i_age it' = i_age it"
    using same_itemD [OF assms(2) it(1)] .
  have "block_at m' k = block_at m k" "block_at m' v = block_at m v"
    using assms(3) it(1-3) by (simp_all add: own_def)
  then show ?thesis using it it' by (simp add: item_rep_def)
qed

lemma bucket_rep_same:
  assumes "list_all2 (item_rep m) as es" and "distinct as"
    and "\<forall>a \<in> set as. \<forall>b \<in> set as. a \<noteq> b \<longrightarrow> own m a \<inter> own m b = {}"
    and "chain i_next (item_at m') p as" and "\<And>a. a \<in> set as \<Longrightarrow> same_item m m' a"
    and "\<And>a b. a \<in> set as \<Longrightarrow> b \<in> own m a \<Longrightarrow> block_at m' b = block_at m b"
  shows "bucket_rep m' p as es"
proof -
  have "list_all2 (item_rep m') as es"
    using assms(1) by (rule list.rel_mono_strong) (auto intro: item_rep_same assms(5,6))
  moreover have "own m' a = own m a" if "a \<in> set as" for a using assms(5) that same_item_own by blast
  ultimately show ?thesis using assms(2-4) by (simp add: bucket_rep_def)
qed

lemma table_rel_remove:
  assumes R: "table_rel c m ass A" and i: "i < length ass" and as: "ass ! i = xs @ a # ys"
    and es: "a_buckets A ! i = es1 @ e # es2" and len: "length xs = length es1"
    and ch: "chain i_next (item_at m') p (xs @ ys)"
    and same: "\<And>b. b \<in> set (xs @ ys) \<Longrightarrow> same_item m m' b"
    and items: "\<And>b. b \<notin> set (xs @ ys) \<Longrightarrow> item_at m' b = item_at m b"
    and blocks: "\<And>b. b \<notin> own m a \<Longrightarrow> block_at m' b = block_at m b"
    and "fresh m'"
    and "c_hash_table_size c' = c_hash_table_size c" "c_items c' = (c_items c)[i := p]"
    and "a_buckets A' = (a_buckets A)[i := es1 @ es2]"
    and "c_capacity c' = a_capacity A'" "c_current_entries c' = a_entries A'" "c_age c' = a_age A'"
  shows "table_rel c' m' (ass[i := xs @ ys]) A'"
proof -
  note D = table_relD [OF R]
  have B: "list_all2 (item_rep m) (xs @ a # ys) (es1 @ e # es2)" "distinct (xs @ a # ys)"
    "\<forall>b \<in> set (xs @ a # ys). \<forall>b' \<in> set (xs @ a # ys). b \<noteq> b' \<longrightarrow> own m b \<inter> own m b' = {}"
    using D(5) [OF i] as es by (simp_all add: bucket_rep_def)
  have rep: "list_all2 (item_rep m) (xs @ ys) (es1 @ es2)" using B(1) len by (auto simp: list_all2_append)
  have foreign: "block_at m' b' = block_at m b'" if "b \<in> set (xs @ ys)" "b' \<in> own m b" for b b'
  proof (rule blocks)
    have "b \<noteq> a" using B(2) that(1) by auto
    then show "b' \<notin> own m a" using B(3) that by auto
  qed
  have "bucket_rep m' p (xs @ ys) (es1 @ es2)"
    using B by (intro bucket_rep_same [OF rep _ _ ch same foreign]) auto
  then show ?thesis
  proof (rule table_rel_update [OF R i])
    fix j b assume j: "j < length ass" "j \<noteq> i" "b \<in> set (ass ! j)"
    have dj: "b \<noteq> b' \<and> own m b \<inter> own m b' = {}" if "b' \<in> set (xs @ a # ys)" for b'
      using D(6) [OF j(1) i j(2,3)] that as by simp
    show "item_at m' b = item_at m b \<and> (\<forall>b' \<in> own m b. block_at m' b' = block_at m b')"
      using dj items blocks by (metis UnCI disjoint_iff in_set_conv_decomp set_append set_subset_Cons subsetD Un_iff list.set_intros(2))
    show "b \<noteq> b' \<and> own m b \<inter> own m' b' = {}" if "b' \<in> set (xs @ ys)" for b'
      using dj [of b'] same_item_own [OF same [OF that]] that by auto
  qed (use assms in auto)
qed

text \<open>What no operation changes of the cache structure but the mutex.\<close>

definition handle_eq :: "LRUCache \<Rightarrow> LRUCache \<Rightarrow> bool" where
  "handle_eq c c' \<longleftrightarrow>
     c_hash_table_size c' = c_hash_table_size c \<and> c_seed c' = c_seed c \<and> c_mutex c' = c_mutex c"

lemma handle_eq_ix: "handle_eq c c' \<Longrightarrow> hash_ix c' = hash_ix c"
  using hash_ix_cong [of c' c] by (simp add: handle_eq_def)

lemma remove_item_rep:
  assumes R: "table_rel c m ass A" and i: "i < length ass" and as: "ass ! i = xs @ a # ys"
    and es: "a_buckets A ! i = es1 @ e # es2" and len: "length xs = length es1"
  shows "\<exists>c' m'. LRUCacheRemoveItem (last_ptr Null xs) (Ref a) i (c, m) = Some (c', m') \<and>
    table_rel c' m' (ass[i := xs @ ys]) (A\<lparr>a_buckets := (a_buckets A)[i := es1 @ es2]\<rparr>) \<and>
    handle_eq c c' \<and> dom (item_at m') = dom (item_at m) \<and> brk m' = brk m"
proof -
  note D = table_relD [OF R]
  have B: "chain i_next (item_at m) (c_items c ! i) (xs @ a # ys)" "distinct (xs @ a # ys)" "item_rep m a e"
    using D(5) [OF i] as es len by (auto simp: bucket_rep_def list_all2_append)
  obtain it k v where it: "item_at m a = Some it" "i_key it = Ref k" "i_value it = Ref v" "k \<noteq> v"
    "block_at m k = Some (e_key e @ [0])" "block_at m v = Some (e_val e)"
    using B(3) by (auto simp: item_rep_def)
  have own: "own m a = {k, v}" using it by (auto simp: own_def)
  have kv: "k < brk m" "v < brk m" using D(7) it by (auto simp: fresh_def not_le [symmetric])
  let ?bl = "(block_at m)(v := None, k := None)"
  show ?thesis
  proof (cases xs rule: rev_cases)
    case Nil
    let ?c = "c\<lparr>c_items := (c_items c)[i := i_next it]\<rparr>" and ?m = "m\<lparr>block_at := ?bl\<rparr>"
    have "LRUCacheRemoveItem (last_ptr Null xs) (Ref a) i (c, m) = Some (?c, ?m)"
      using Nil it i D(2) by (simp add: LRUCacheRemoveItem_def)
    moreover have "table_rel ?c ?m (ass[i := xs @ ys]) (A\<lparr>a_buckets := (a_buckets A)[i := es1 @ es2]\<rparr>)"
      using B Nil it own D D(7)
      by (intro table_rel_remove [OF R i as es len, of ?m "i_next it"]) (auto simp: fresh_def same_item_refl)
    ultimately show ?thesis by (auto simp: handle_eq_def)
  next
    case (snoc xs' p)
    obtain pit where pit: "item_at m p = Some pit" using B(1) snoc by (auto dest: path_allocated)
    have pa: "p \<noteq> a" using B(2) snoc by auto
    let ?m = "m\<lparr>item_at := (item_at m)(p \<mapsto> pit\<lparr>i_next := i_next it\<rparr>), block_at := ?bl\<rparr>"
    have "LRUCacheRemoveItem (last_ptr Null xs) (Ref a) i (c, m) = Some (c, ?m)"
      using snoc it pit pa by (simp add: LRUCacheRemoveItem_def)
    moreover have "table_rel c ?m (ass[i := xs @ ys]) (A\<lparr>a_buckets := (a_buckets A)[i := es1 @ es2]\<rparr>)"
    proof (rule table_rel_remove [OF R i as es len, of ?m "c_items c ! i"])
      show "chain i_next (item_at ?m) (c_items c ! i) (xs @ ys)"
        using item_list.chain_unlink [of "item_at m" "c_items c ! i" xs' p a ys pit it] B snoc it pit by simp
      show "same_item m ?m b" if "b \<in> set (xs @ ys)" for b
        using pit by (cases "b = p") (auto simp: same_item_def)
      show "fresh ?m" using D(7) pit by (auto simp: fresh_def)
    qed (use snoc own D i in auto)
    ultimately show ?thesis using pit by (auto simp: handle_eq_def)
  qed
qed

section \<open>Evicting the least recently used item\<close>

lemma item_rep_unique: "item_rep m a e \<Longrightarrow> item_rep m a e' \<Longrightarrow> e = e'"
  by (auto simp: item_rep_def)

lemma table_rel_counters:
  assumes "table_rel c m ass A" and "c_hash_table_size c' = c_hash_table_size c" and "c_items c' = c_items c"
    and "a_buckets A' = a_buckets A" and "c_capacity c' = a_capacity A'"
    and "c_current_entries c' = a_entries A'" and "c_age c' = a_age A'"
  shows "table_rel c' m ass A'"
  using assms(1) unfolding table_rel_def assms(2-7) by blast

text \<open>Where the scan stopped: the item it remembers stands in the bucket of its entry's key, at that entry's place.\<close>

lemma victim_place:
  assumes R: "table_rel c m ass A" and inv: "table_inv ix A" and l: "least_rel m ass l (Some e)"
  obtains xs a ys es1 es2 where "least_index l < length ass" "ass ! least_index l = xs @ a # ys" "length xs = length es1"
    "least_prev l = last_ptr Null xs" "least_used l = Ref a" "a_buckets A ! least_index l = es1 @ e # es2"
    "ix (e_key e) = least_index l" "del_entry (e_key e) (es1 @ e # es2) = es1 @ es2"
proof -
  note D = table_relD [OF R]
  let ?i = "least_index l"
  obtain xs a ys where a: "?i < length ass" "ass ! ?i = xs @ a # ys" "least_prev l = last_ptr Null xs"
    "least_used l = Ref a" "item_rep m a e"
    using l by (auto simp: least_rel_def)
  have "list_all2 (item_rep m) (xs @ a # ys) (a_buckets A ! ?i)" using D(5) [OF a(1)] a(2) by (simp add: bucket_rep_def)
  then obtain es1 e' es2 where es: "a_buckets A ! ?i = es1 @ e' # es2" "length xs = length es1" "item_rep m a e'"
    by (auto simp: list_all2_append1 list_all2_Cons1)
  have e': "e' = e" using item_rep_unique [OF es(3) a(5)] .
  have "ix (e_key e) = ?i" using table_invD(3) [OF inv, of ?i e] es(1) e' a(1) D(3) by simp
  moreover have "distinct (map e_key (es1 @ e # es2))" using table_invD(2) [OF inv, of ?i] es(1) e' a(1) D(3) by simp
  then have "del_entry (e_key e) (es1 @ e # es2) = es1 @ es2" by (intro del_entry_split) auto
  ultimately show ?thesis using that a(1-4) es(1,2) e' by blast
qed

lemma evict_rep:
  assumes R: "table_rel c m ass A" and inv: "table_inv ix A"
  shows "\<exists>c' m' ass'. LRUCacheRemoveLeastUsedItem (c, m) = Some (c', m') \<and>
    table_rel c' m' ass' (spec_evict ix A) \<and> handle_eq c c' \<and>
    dom (item_at m') = dom (item_at m) \<and> brk m' = brk m \<and>
    (case victim (entries A) None of None \<Rightarrow> ass' = ass
     | Some e \<Rightarrow> \<exists>xs a ys es1 es2. ass ! ix (e_key e) = xs @ a # ys \<and> a_buckets A ! ix (e_key e) = es1 @ e # es2 \<and>
         length xs = length es1 \<and> ix (e_key e) < length ass \<and> ass' = ass[ix (e_key e) := xs @ ys])"
proof -
  note D = table_relD [OF R]
  obtain l where l: "scan_table c m [0..<unat (c_hash_table_size c)] least_init = Some l"
    "least_rel m ass l (victim (entries A) None)"
    using scan_table_rep [OF R, of 0 least_init None] D(1) by (auto simp: least_rel_def entries_def)
  show ?thesis
  proof (cases "victim (entries A) None")
    case None
    then have "LRUCacheRemoveLeastUsedItem (c, m) = Some (c, m)"
      using l by (simp add: LRUCacheRemoveLeastUsedItem_def least_rel_def least_init_def)
    then show ?thesis using None R by (auto simp: spec_evict_None handle_eq_def)
  next
    case (Some e)
    let ?i = "least_index l"
    obtain xs a ys es1 es2 where a: "?i < length ass" "ass ! ?i = xs @ a # ys" "length xs = length es1"
      "least_prev l = last_ptr Null xs" "least_used l = Ref a" "a_buckets A ! ?i = es1 @ e # es2"
      "ix (e_key e) = ?i" "del_entry (e_key e) (es1 @ e # es2) = es1 @ es2"
      using victim_place [OF R inv l(2) [unfolded Some]] .
    obtain c' m' where c': "LRUCacheRemoveItem (last_ptr Null xs) (Ref a) ?i (c, m) = Some (c', m')"
      "table_rel c' m' (ass[?i := xs @ ys]) (A\<lparr>a_buckets := (a_buckets A)[?i := es1 @ es2]\<rparr>)"
      "handle_eq c c'" "dom (item_at m') = dom (item_at m)" "brk m' = brk m"
      using remove_item_rep [OF R a(1,2,6,3)] by auto
    let ?c = "c'\<lparr>c_current_entries := c_current_entries c' - 1\<rparr>"
    have "LRUCacheRemoveLeastUsedItem (c, m) = Some (?c, m')"
      using l(1) a(4,5) c'(1) by (simp add: LRUCacheRemoveLeastUsedItem_def)
    moreover have "table_rel ?c m' (ass[?i := xs @ ys]) (spec_evict ix A)"
    proof (rule table_rel_counters [OF c'(2)])
      show "a_buckets (spec_evict ix A) = a_buckets (A\<lparr>a_buckets := (a_buckets A)[?i := es1 @ es2]\<rparr>)"
        using Some a(6-8) by (simp add: spec_evict_def entries_def)
    qed (use Some table_relD(8-10) [OF c'(2)] in \<open>simp_all add: spec_evict_def entries_def\<close>)
    moreover have "handle_eq c ?c" using c'(3) by (simp add: handle_eq_def)
    moreover have "ass ! ix (e_key e) = xs @ a # ys \<and> a_buckets A ! ix (e_key e) = es1 @ e # es2 \<and>
         length xs = length es1 \<and> ix (e_key e) < length ass \<and> ass[?i := xs @ ys] = ass[ix (e_key e) := xs @ ys]"
      using a by simp
    ultimately show ?thesis
      using c'(4,5) unfolding Some option.case
      by (intro exI [of _ ?c] exI [of _ m'] exI [of _ "ass[?i := xs @ ys]"]) blast
  qed
qed

section \<open>Inserting an item\<close>

lemma fresh_less: "fresh m \<Longrightarrow> item_at m a = Some x \<Longrightarrow> a < brk m" "fresh m \<Longrightarrow> block_at m a = Some y \<Longrightarrow> a < brk m"
  by (force simp: fresh_def not_le [symmetric])+

lemma item_rep_below: "fresh m \<Longrightarrow> item_rep m a e \<Longrightarrow> a < brk m \<and> (\<forall>b \<in> own m a. b < brk m)"
  using fresh_less by (auto simp: item_rep_def own_def)

lemma table_rel_below:
  assumes "table_rel c m ass A" and "i < length ass" and "a \<in> set (ass ! i)"
  shows "a < brk m \<and> (\<forall>b \<in> own m a. b < brk m)"
  using table_relD(5,7) [OF assms(1)] assms(2,3) bucket_rep_items item_rep_below by meson

text \<open>Memory that no item of the table uses may change.\<close>

lemma table_rel_frame:
  assumes R: "table_rel c m ass A"
    and items: "\<And>i a. i < length ass \<Longrightarrow> a \<in> set (ass ! i) \<Longrightarrow> item_at m' a = item_at m a"
    and blocks: "\<And>b. b < brk m \<Longrightarrow> block_at m' b = block_at m b"
    and "fresh m'" and "c_hash_table_size c' = c_hash_table_size c" "c_items c' = c_items c"
    and "a_buckets A' = a_buckets A"
    and "c_capacity c' = a_capacity A'" "c_current_entries c' = a_entries A'" "c_age c' = a_age A'"
  shows "table_rel c' m' ass A'"
proof -
  note D = table_relD [OF R]
  have z: "0 < length ass" using D(4) by simp
  have frame: "item_at m' a = item_at m a \<and> (\<forall>b \<in> own m a. block_at m' b = block_at m b)"
    if "j < length ass" "a \<in> set (ass ! j)" for j a
    using items blocks table_rel_below [OF R that] that by blast
  have own: "own m' a = own m a" if "j < length ass" "a \<in> set (ass ! j)" for j a
    using items [OF that] by (rule own_cong)
  have "bucket_rep m' (c_items c ! 0) (ass ! 0) (a_buckets A ! 0)"
    using frame [OF z] by (intro bucket_rep_frame [OF D(5) [OF z]]) auto
  then have "table_rel c' m' (ass[0 := ass ! 0]) A'"
  proof (rule table_rel_update [OF R z])
    fix j a b assume "j < length ass" "j \<noteq> 0" "a \<in> set (ass ! j)" "b \<in> set (ass ! 0)"
    then show "a \<noteq> b \<and> own m a \<inter> own m' b = {}" using D(6) [of j 0 a b] own z by blast
  qed (use frame assms(4-10) in simp_all)
  then show ?thesis by simp
qed

text \<open>A new item behind the last one of a bucket.\<close>

text \<open>A bucket with a new item at its end; the new item and its blocks lie above the old memory.\<close>

lemma bucket_rep_snoc:
  assumes R: "table_rel c m ass A" and i: "i < length ass"
    and ch: "chain i_next (item_at m') p (ass ! i @ [a])"
    and a: "brk m \<le> a" and rep: "item_rep m' a e" and own_a: "\<And>b. b \<in> own m' a \<Longrightarrow> brk m \<le> b"
    and same: "\<And>b. b \<in> set (ass ! i) \<Longrightarrow> same_item m m' b"
    and blocks: "\<And>b. b < brk m \<Longrightarrow> block_at m' b = block_at m b"
  shows "bucket_rep m' p (ass ! i @ [a]) (a_buckets A ! i @ [e])"
proof -
  note below = table_rel_below [OF R i]
  have own_eq: "own m' b = own m b" if "b \<in> set (ass ! i)" for b using same_item_own [OF same [OF that]] .
  have apart: "own m' b \<inter> own m' a = {}" if "b \<in> set (ass ! i)" for b
    unfolding own_eq [OF that] using below [OF that] own_a by (meson disjoint_iff not_le)
  have B: "list_all2 (item_rep m) (ass ! i) (a_buckets A ! i)" "distinct (ass ! i)"
    "\<forall>b \<in> set (ass ! i). \<forall>b' \<in> set (ass ! i). b \<noteq> b' \<longrightarrow> own m b \<inter> own m b' = {}"
    using table_relD(5) [OF R i] by (simp_all add: bucket_rep_def)
  have "list_all2 (item_rep m') (ass ! i) (a_buckets A ! i)"
    using B(1) by (rule list.rel_mono_strong) (use below blocks same in \<open>blast intro: item_rep_same\<close>)
  then have "list_all2 (item_rep m') (ass ! i @ [a]) (a_buckets A ! i @ [e])"
    using rep by (simp add: list_all2_appendI)
  moreover have "own m' b \<inter> own m' b' = {}"
    if bb: "b \<in> set (ass ! i @ [a])" "b' \<in> set (ass ! i @ [a])" "b \<noteq> b'" for b b'
  proof -
    consider "b \<in> set (ass ! i)" "b' \<in> set (ass ! i)" | "b \<in> set (ass ! i)" "b' = a" | "b = a" "b' \<in> set (ass ! i)"
      using bb by auto
    then show ?thesis using B(3) bb(3) own_eq apart by cases (metis, metis, metis Int_commute)
  qed
  moreover have "distinct (ass ! i @ [a])" using B(2) a below by force
  ultimately show ?thesis using ch unfolding bucket_rep_def by blast
qed

lemma table_rel_add:
  assumes R: "table_rel c m ass A" and i: "i < length ass"
    and ch: "chain i_next (item_at m') p (ass ! i @ [a])"
    and a: "brk m \<le> a" and rep: "item_rep m' a e" and own_a: "\<And>b. b \<in> own m' a \<Longrightarrow> brk m \<le> b"
    and same: "\<And>b. b \<in> set (ass ! i) \<Longrightarrow> same_item m m' b"
    and items: "\<And>j b. j < length ass \<Longrightarrow> j \<noteq> i \<Longrightarrow> b \<in> set (ass ! j) \<Longrightarrow> item_at m' b = item_at m b"
    and blocks: "\<And>b. b < brk m \<Longrightarrow> block_at m' b = block_at m b"
    and "fresh m'"
    and "c_hash_table_size c' = c_hash_table_size c" "c_items c' = (c_items c)[i := p]"
    and "a_buckets A' = (a_buckets A)[i := a_buckets A ! i @ [e]]"
    and "c_capacity c' = a_capacity A'" "c_current_entries c' = a_entries A'" "c_age c' = a_age A'"
  shows "table_rel c' m' (ass[i := ass ! i @ [a]]) A'"
proof (rule table_rel_update [OF R i])
  show "bucket_rep m' p (ass ! i @ [a]) (a_buckets A ! i @ [e])"
    using bucket_rep_snoc [OF R i ch a rep own_a same blocks] .
  fix j b assume j: "j < length ass" "j \<noteq> i" "b \<in> set (ass ! j)"
  note below = table_rel_below [OF R j(1,3)]
  show "item_at m' b = item_at m b \<and> (\<forall>b' \<in> own m b. block_at m' b' = block_at m b')"
    using items [OF j] blocks below by blast
  fix b' assume "b' \<in> set (ass ! i @ [a])"
  then consider "b' \<in> set (ass ! i)" | "b' = a" by auto
  then show "b \<noteq> b' \<and> own m b \<inter> own m' b' = {}"
  proof cases
    case 1
    then show ?thesis using table_relD(6) [OF R j(1) i j(2,3) 1] same_item_own [OF same [OF 1]] by simp
  next
    case 2
    then show ?thesis using below a own_a by (auto simp: disjoint_iff not_le [symmetric])
  qed
qed (use assms(10-16) in simp_all)

text \<open>Allocating and filling an item, when the allocator does not fail.\<close>

definition filled_item :: "malloc_env \<Rightarrow> addr \<Rightarrow> u64 \<Rightarrow> LRUCacheItem" where
  "filled_item E a n = (m_item E a)\<lparr>i_key := Ref (a + 1), i_value := Ref (a + 2), i_value_length := n\<rparr>"

definition filled_mem :: "malloc_env \<Rightarrow> byte list \<Rightarrow> byte list \<Rightarrow> u64 \<Rightarrow> lru_mem \<Rightarrow> lru_mem" where
  "filled_mem E key val n m =
     m\<lparr>item_at := (item_at m)(brk m \<mapsto> filled_item E (brk m) n),
       block_at := (block_at m)(brk m + 1 \<mapsto> key @ [0], brk m + 2 \<mapsto> take (unat n) val),
       brk := brk m + 3\<rparr>"

lemma new_item_filled:
  assumes "\<And>a. \<not> m_fails E a" and "cstring key" and "unat n \<le> length val"
  shows "\<exists>m1. new_item E key m = Some (Ref (brk m), m1) \<and>
    store_value E (Ref (brk m)) val n m1 = Some (filled_mem E key val n m)"
  using assms
  by (simp add: new_item_def store_value_def malloc_item_def malloc_block_def Let_def filled_mem_def
      filled_item_def eval_nat_numeral)

lemma filled_mem_simps [simp]:
  "brk (filled_mem E key val n m) = brk m + 3"
  "a \<noteq> brk m \<Longrightarrow> item_at (filled_mem E key val n m) a = item_at m a"
  "item_at (filled_mem E key val n m) (brk m) = Some (filled_item E (brk m) n)"
  "b < brk m \<Longrightarrow> block_at (filled_mem E key val n m) b = block_at m b"
  by (simp_all add: filled_mem_def)

lemma fresh_filled: "fresh m \<Longrightarrow> fresh (filled_mem E key val n m)"
  by (simp add: fresh_def filled_mem_def)

text \<open>The new item with its final age represents the new entry, whatever its link.\<close>

lemma filled_item_rep:
  assumes "item_at m' (brk m) = Some (filled_item E (brk m) n\<lparr>i_age := g\<rparr>)"
    and "block_at m' = block_at (filled_mem E key val n m)" and "cstring key" and "unat n \<le> length val"
  shows "item_rep m' (brk m) \<lparr>e_key = key, e_val = take (unat n) val, e_age = g\<rparr>"
    and "own m' (brk m) = {brk m + 1, brk m + 2}"
  using assms by (auto simp: item_rep_def own_def filled_item_def filled_mem_def)

text \<open>Where the last item of a bucket is after making room: still last, or in no bucket any more.\<close>

definition tail_fate :: "lru_abs \<Rightarrow> lru_abs \<Rightarrow> nat \<Rightarrow> addr list list \<Rightarrow> addr list list \<Rightarrow> bool" where
  "tail_fate A A' i ass ass' \<longleftrightarrow>
     (ass ! i = [] \<longrightarrow> ass' ! i = []) \<and>
     (ass ! i \<noteq> [] \<longrightarrow>
       (e_key (last (a_buckets A ! i)) \<in> e_key ` set (a_buckets A' ! i) \<and> ass' ! i \<noteq> [] \<and> last (ass' ! i) = last (ass ! i) \<or>
        e_key (last (a_buckets A ! i)) \<notin> e_key ` set (a_buckets A' ! i) \<and> (\<forall>j < length ass. last (ass ! i) \<notin> set (ass' ! j))))"

lemma tail_fate_same:
  assumes "length (ass ! i) = length (a_buckets A ! i)" and "a_buckets A' ! i = a_buckets A ! i" and "ass' ! i = ass ! i"
  shows "tail_fate A A' i ass ass'"
  using assms unfolding tail_fate_def by (metis image_eqI last_in_set length_0_conv)

lemma tail_fate_evicted:
  assumes R: "table_rel c m ass A" and inv: "table_inv ix A" and i: "i < length ass"
    and S: "ass ! k = xs @ a # ys" "a_buckets A ! k = es1 @ e # es2" "length xs = length es1" "k < length ass" "ass' = ass[k := xs @ ys]"
    and A': "a_buckets A' = (a_buckets A)[k := es1 @ es2]"
  shows "tail_fate A A' i ass ass'"
proof (cases "i = k")
  case False
  then show ?thesis using bucket_rep_length [OF table_relD(5) [OF R i]] S(5) A' by (intro tail_fate_same) simp_all
next
  case True
  have dist: "distinct (xs @ a # ys)" using table_relD(5) [OF R S(4)] S(1) by (simp add: bucket_rep_def)
  have keys: "distinct (map e_key (es1 @ e # es2))" using table_invD(2) [OF inv, of k] S(2,4) table_relD(3) [OF R] by simp
  have b: "a_buckets A' ! i = es1 @ es2" "ass' ! i = xs @ ys" using True A' S(4,5) table_relD(3) [OF R] by simp_all
  have len: "length ys = length es2" using bucket_rep_length [OF table_relD(5) [OF R i]] True S(1-3) by simp
  have gone: "a \<notin> set (ass' ! j)" if "j < length ass" for j
    using table_relD(6) [OF R S(4) that, of a a] S dist that by (cases "j = k") auto
  show ?thesis
  proof (cases "ys = []")
    case nil: True
    then show ?thesis using b S(1-3) True keys len gone by (auto simp: tail_fate_def)
  next
    case False
    moreover from this have "es2 \<noteq> []" using len by auto
    ultimately show ?thesis using b S(1-3) True by (auto simp: tail_fate_def)
  qed
qed

lemma room_rep:
  assumes R: "table_rel c m ass A" and inv: "table_inv ix A" and i: "i < length ass"
  shows "\<exists>c' m' ass'.
    (if c_current_entries c \<ge> c_capacity c then LRUCacheRemoveLeastUsedItem (c, m) else Some (c, m)) = Some (c', m') \<and>
    table_rel c' m' ass' (spec_room ix A) \<and> handle_eq c c' \<and> length ass' = length ass \<and>
    dom (item_at m') = dom (item_at m) \<and> tail_fate A (spec_room ix A) i ass ass'"
proof (cases "c_current_entries c \<ge> c_capacity c")
  case False
  then have "spec_room ix A = A" using table_relD(8,9) [OF R] by (simp add: spec_room_def)
  moreover have "tail_fate A A i ass ass" using bucket_rep_length [OF table_relD(5) [OF R i]] by (intro tail_fate_same) simp_all
  ultimately show ?thesis using False R by (auto simp: handle_eq_def)
next
  case full: True
  then have room: "spec_room ix A = spec_evict ix A" using table_relD(8,9) [OF R] by (simp add: spec_room_def)
  obtain c' m' ass' where E: "LRUCacheRemoveLeastUsedItem (c, m) = Some (c', m')"
    "table_rel c' m' ass' (spec_evict ix A)" "handle_eq c c'" "dom (item_at m') = dom (item_at m)"
    "case victim (entries A) None of None \<Rightarrow> ass' = ass
     | Some e \<Rightarrow> \<exists>xs a ys es1 es2. ass ! ix (e_key e) = xs @ a # ys \<and> a_buckets A ! ix (e_key e) = es1 @ e # es2 \<and>
       length xs = length es1 \<and> ix (e_key e) < length ass \<and> ass' = ass[ix (e_key e) := xs @ ys]"
    using evict_rep [OF R inv] by blast
  have "length ass' = length ass \<and> tail_fate A (spec_evict ix A) i ass ass'"
  proof (cases "victim (entries A) None")
    case None
    then have "ass' = ass" "spec_evict ix A = A" using E(5) by (simp_all add: spec_evict_None)
    then show ?thesis using bucket_rep_length [OF table_relD(5) [OF R i]] tail_fate_same by simp
  next
    case (Some e)
    let ?k = "ix (e_key e)"
    obtain xs a ys es1 es2 where S: "ass ! ?k = xs @ a # ys" "a_buckets A ! ?k = es1 @ e # es2"
      "length xs = length es1" "?k < length ass" "ass' = ass[?k := xs @ ys]"
      using E(5) Some by auto
    have "distinct (map e_key (es1 @ e # es2))" using table_invD(2) [OF inv, of ?k] S(2,4) table_relD(3) [OF R] by simp
    then have "a_buckets (spec_evict ix A) = (a_buckets A)[?k := es1 @ es2]"
      using Some S(2) del_entry_split [of "e_key e" es1 e es2] by (auto simp: spec_evict_def entries_def)
    then show ?thesis using tail_fate_evicted [OF R inv i S] S(5) by simp
  qed
  then show ?thesis using E(1-4) full room by auto
qed

lemma spec_insert_buckets:
  "a_buckets (spec_insert ix k v A) =
    (if insert_lost ix k A then a_buckets (spec_room ix A)
     else (a_buckets (spec_room ix A))[ix k := a_buckets (spec_room ix A) ! ix k @ [\<lparr>e_key = k, e_val = v, e_age = a_age A\<rparr>]])"
  by (simp add: spec_insert_def Let_def)

text \<open>The three places a new item can go: an empty bucket, behind the last item of its bucket,
  or behind an item that has just been evicted, where the table does not see it.\<close>

lemma link_empty:
  assumes R: "table_rel c m ass A" and i: "i < length ass" and nil: "ass ! i = []"
    and E: "zeroing E" and args: "cstring key" "unat n \<le> length val"
    and m2: "m2 = (filled_mem E key val n m)\<lparr>item_at := (item_at (filled_mem E key val n m))
       (brk m \<mapsto> filled_item E (brk m) n\<lparr>i_age := c_age c\<rparr>)\<rparr>"
    and c2: "c2 = c\<lparr>c_items := (c_items c)[i := Ref (brk m)], c_current_entries := c_current_entries c + 1, c_age := c_age c + 1\<rparr>"
    and A2: "a_buckets A2 = (a_buckets A)[i := a_buckets A ! i @ [\<lparr>e_key = key, e_val = take (unat n) val, e_age = c_age c\<rparr>]]"
      "a_capacity A2 = a_capacity A" "a_entries A2 = a_entries A + 1" "a_age A2 = a_age A + 1"
  shows "table_rel c2 m2 (ass[i := ass ! i @ [brk m]]) A2"
proof -
  note D = table_relD [OF R]
  have item: "item_at m2 (brk m) = Some (filled_item E (brk m) n\<lparr>i_age := c_age c\<rparr>)" by (simp add: m2)
  have blk: "block_at m2 = block_at (filled_mem E key val n m)" by (simp add: m2)
  note F = filled_item_rep [OF item blk args]
  show ?thesis
  proof (rule table_rel_add [OF R i _ _ F(1)])
    show "chain i_next (item_at m2) (Ref (brk m)) (ass ! i @ [brk m])"
      using nil item E by (simp add: zeroing_def filled_item_def)
    show "item_at m2 b = item_at m b" if "j < length ass" "j \<noteq> i" "b \<in> set (ass ! j)" for j b
      using table_rel_below [OF R that(1,3)] by (simp add: m2)
    show "fresh m2" using fresh_filled [OF D(7), of E key val n] by (auto simp: m2 fresh_def)
    show "brk m \<le> b" if "b \<in> own m2 (brk m)" for b using that by (auto simp: F(2))
    show "block_at m2 b = block_at m b" if "b < brk m" for b using that by (simp add: blk)
  qed (simp_all add: nil c2 A2 D(8-10))
qed

lemma link_behind:
  assumes R: "table_rel c m ass A" and i: "i < length ass" and snoc: "ass ! i = xs @ [p]"
    and E: "zeroing E" and args: "cstring key" "unat n \<le> length val" and pit: "item_at m p = Some pit"
    and m2: "m2 = (filled_mem E key val n m)\<lparr>item_at := (item_at (filled_mem E key val n m))
       (p \<mapsto> pit\<lparr>i_next := Ref (brk m)\<rparr>, brk m \<mapsto> filled_item E (brk m) n\<lparr>i_age := c_age c\<rparr>)\<rparr>"
    and c2: "c2 = c\<lparr>c_current_entries := c_current_entries c + 1, c_age := c_age c + 1\<rparr>"
    and A2: "a_buckets A2 = (a_buckets A)[i := a_buckets A ! i @ [\<lparr>e_key = key, e_val = take (unat n) val, e_age = c_age c\<rparr>]]"
      "a_capacity A2 = a_capacity A" "a_entries A2 = a_entries A + 1" "a_age A2 = a_age A + 1"
  shows "table_rel c2 m2 (ass[i := ass ! i @ [brk m]]) A2"
proof -
  note D = table_relD [OF R]
  have below: "b < brk m" if "b \<in> set (ass ! i)" for b using table_rel_below [OF R i that] by blast
  have p: "p < brk m" using below snoc by simp
  have item: "item_at m2 (brk m) = Some (filled_item E (brk m) n\<lparr>i_age := c_age c\<rparr>)" by (simp add: m2)
  have blk: "block_at m2 = block_at (filled_mem E key val n m)" by (simp add: m2)
  have upd: "item_at m2 = (item_at m)(brk m \<mapsto> filled_item E (brk m) n\<lparr>i_age := c_age c\<rparr>, p \<mapsto> pit\<lparr>i_next := Ref (brk m)\<rparr>)"
    using p by (auto simp: m2 filled_mem_def fun_eq_iff)
  note F = filled_item_rep [OF item blk args]
  show ?thesis
  proof (rule table_rel_add [OF R i _ _ F(1)])
    have "chain i_next (item_at m) (c_items c ! i) (xs @ [p])" "distinct (xs @ [p])"
      using D(5) [OF i] snoc by (simp_all add: bucket_rep_def)
    then show "chain i_next (item_at m2) (c_items c ! i) (ass ! i @ [brk m])"
      using item_list.chain_snoc [of "item_at m" "c_items c ! i" xs p pit "brk m"
          "filled_item E (brk m) n\<lparr>i_age := c_age c\<rparr>"] below snoc pit E
      unfolding upd by (fastforce simp: zeroing_def filled_item_def)
    show "same_item m m2 b" if "b \<in> set (ass ! i)" for b
      using below [OF that] pit by (cases "b = p") (auto simp: same_item_def upd)
    show "item_at m2 b = item_at m b" if "j < length ass" "j \<noteq> i" "b \<in> set (ass ! j)" for j b
      using table_rel_below [OF R that(1,3)] D(6) [OF that(1) i that(2,3), of p] snoc by (simp add: upd)
    show "fresh m2" using fresh_filled [OF D(7), of E key val n] p by (auto simp: m2 fresh_def)
    show "brk m \<le> b" if "b \<in> own m2 (brk m)" for b using that by (auto simp: F(2))
    show "block_at m2 b = block_at m b" if "b < brk m" for b using that by (simp add: blk)
    show "c_items c2 = (c_items c)[i := c_items c ! i]" by (simp add: c2)
  qed (simp_all add: c2 A2 D(8-10))
qed

lemma link_orphan:
  assumes R: "table_rel c m ass A" and p: "\<And>j. j < length ass \<Longrightarrow> p \<notin> set (ass ! j)" and pit: "item_at m p = Some pit"
    and m2: "m2 = (filled_mem E key val n m)\<lparr>item_at := (item_at (filled_mem E key val n m))
       (p \<mapsto> pit\<lparr>i_next := Ref (brk m)\<rparr>, brk m \<mapsto> filled_item E (brk m) n\<lparr>i_age := c_age c\<rparr>)\<rparr>"
    and c2: "c2 = c\<lparr>c_current_entries := c_current_entries c + 1, c_age := c_age c + 1\<rparr>"
    and A2: "a_buckets A2 = a_buckets A" "a_capacity A2 = a_capacity A" "a_entries A2 = a_entries A + 1"
      "a_age A2 = a_age A + 1"
  shows "table_rel c2 m2 ass A2"
proof (rule table_rel_frame [OF R])
  show "item_at m2 a = item_at m a" if "i < length ass" "a \<in> set (ass ! i)" for i a
    using table_rel_below [OF R that] p [OF that(1)] that(2) by (auto simp: m2)
  have "p < brk m" using fresh_less(1) [OF table_relD(7) [OF R] pit] .
  then show "fresh m2" using fresh_filled [OF table_relD(7) [OF R], of E key val n] by (auto simp: m2 fresh_def)
qed (use table_relD(8-10) [OF R] A2 in \<open>simp_all add: m2 c2\<close>)

text \<open>Both kinds of insertion, once room has been made.\<close>

lemma insert_empty_rep:
  assumes R: "table_rel c' m' ass' (spec_room ix A)" and i: "ix key < length ass'" and nil: "ass' ! ix key = []" "\<not> insert_lost ix key A"
    and room: "(if c_current_entries c \<ge> c_capacity c then LRUCacheRemoveLeastUsedItem (c, m) else Some (c, m)) = Some (c', m')"
    and E: "zeroing E" and args: "cstring key" "unat n \<le> length val"
  shows "\<exists>item c1 m1 c2 m2 ass2. insert_item E key val n (ix key) Null (c, m) = Some (item, c1, m1) \<and>
    stamp_item item (c1, m1) = Some (c2, m2) \<and>
    table_rel c2 m2 ass2 (spec_insert ix key (take (unat n) val) A) \<and> handle_eq c' c2"
proof -
  note D = table_relD [OF R]
  obtain m1 where new: "new_item E key m' = Some (Ref (brk m'), m1)"
    "store_value E (Ref (brk m')) val n m1 = Some (filled_mem E key val n m')"
    using new_item_filled [of E key n val m'] E args by (auto simp: zeroing_def)
  let ?m2 = "(filled_mem E key val n m')\<lparr>item_at := (item_at (filled_mem E key val n m'))
     (brk m' \<mapsto> filled_item E (brk m') n\<lparr>i_age := c_age c'\<rparr>)\<rparr>"
  let ?c1 = "c'\<lparr>c_items := (c_items c')[ix key := Ref (brk m')], c_current_entries := c_current_entries c' + 1\<rparr>"
  have "insert_item E key val n (ix key) Null (c, m) = Some (Ref (brk m'), ?c1, filled_mem E key val n m')"
    using room new i D(2) by (simp add: insert_item_def)
  moreover have "stamp_item (Ref (brk m')) (?c1, filled_mem E key val n m') = Some (?c1\<lparr>c_age := c_age c' + 1\<rparr>, ?m2)"
    by (simp add: stamp_item_def)
  moreover have "table_rel (?c1\<lparr>c_age := c_age c' + 1\<rparr>) ?m2 (ass'[ix key := ass' ! ix key @ [brk m']]) (spec_insert ix key (take (unat n) val) A)"
    using nil i D(10) by (intro link_empty [OF R _ _ E args refl]) (simp_all add: spec_insert_buckets)
  ultimately show ?thesis by (fastforce simp: handle_eq_def)
qed

lemma insert_behind_rep:
  assumes R: "table_rel c' m' ass' (spec_room ix A)" and i: "ix key < length ass'" and pit: "item_at m' p = Some pit"
    and lost: "insert_lost ix key A \<Longrightarrow> \<forall>j < length ass'. p \<notin> set (ass' ! j)"
    and kept: "\<not> insert_lost ix key A \<Longrightarrow> ass' ! ix key = butlast (ass' ! ix key) @ [p]"
    and room: "(if c_current_entries c \<ge> c_capacity c then LRUCacheRemoveLeastUsedItem (c, m) else Some (c, m)) = Some (c', m')"
    and E: "zeroing E" and args: "cstring key" "unat n \<le> length val"
  shows "\<exists>item c1 m1 c2 m2 ass2. insert_item E key val n (ix key) (Ref p) (c, m) = Some (item, c1, m1) \<and>
    stamp_item item (c1, m1) = Some (c2, m2) \<and>
    table_rel c2 m2 ass2 (spec_insert ix key (take (unat n) val) A) \<and> handle_eq c' c2"
proof -
  note D = table_relD [OF R]
  obtain m1 where new: "new_item E key m' = Some (Ref (brk m'), m1)"
    "store_value E (Ref (brk m')) val n m1 = Some (filled_mem E key val n m')"
    using new_item_filled [of E key n val m'] E args by (auto simp: zeroing_def)
  have pb: "p \<noteq> brk m'" using fresh_less(1) [OF D(7) pit] by simp
  let ?mf = "filled_mem E key val n m'"
  let ?m1 = "?mf\<lparr>item_at := (item_at ?mf)(p \<mapsto> pit\<lparr>i_next := Ref (brk m')\<rparr>)\<rparr>"
  let ?m2 = "?mf\<lparr>item_at := (item_at ?mf)
     (p \<mapsto> pit\<lparr>i_next := Ref (brk m')\<rparr>, brk m' \<mapsto> filled_item E (brk m') n\<lparr>i_age := c_age c'\<rparr>)\<rparr>"
  let ?c1 = "c'\<lparr>c_current_entries := c_current_entries c' + 1\<rparr>"
  have 1: "insert_item E key val n (ix key) (Ref p) (c, m) = Some (Ref (brk m'), ?c1, ?m1)"
    using room new pit pb by (simp add: insert_item_def)
  have 2: "stamp_item (Ref (brk m')) (?c1, ?m1) = Some (?c1\<lparr>c_age := c_age c' + 1\<rparr>, ?m2)"
    using pb by (simp add: stamp_item_def)
  have "\<exists>ass2. table_rel (?c1\<lparr>c_age := c_age c' + 1\<rparr>) ?m2 ass2 (spec_insert ix key (take (unat n) val) A)"
  proof (cases "insert_lost ix key A")
    case True
    then show ?thesis using lost
      by (intro exI [of _ ass'] link_orphan [OF R _ pit refl refl]) (auto simp: spec_insert_buckets)
  next
    case False
    have "table_rel (?c1\<lparr>c_age := c_age c' + 1\<rparr>) ?m2 (ass'[ix key := ass' ! ix key @ [brk m']]) (spec_insert ix key (take (unat n) val) A)"
      using False D(10) i by (intro link_behind [OF R _ kept E args pit refl]) (simp_all add: spec_insert_buckets)
    then show ?thesis by blast
  qed
  then show ?thesis using 1 2 by (fastforce simp: handle_eq_def)
qed

lemma insert_rep:
  assumes R: "table_rel c m ass A" and inv: "table_inv ix A" and E: "zeroing E"
    and args: "cstring key" "unat n \<le> length val"
  shows "\<exists>item c1 m1 c2 m2 ass2.
    insert_item E key val n (ix key) (last_ptr Null (ass ! ix key)) (c, m) = Some (item, c1, m1) \<and>
    stamp_item item (c1, m1) = Some (c2, m2) \<and>
    table_rel c2 m2 ass2 (spec_insert ix key (take (unat n) val) A) \<and> handle_eq c c2"
proof -
  note D = table_relD [OF R]
  have i: "ix key < length ass" using table_invD(1) [OF inv, of key] D(3) by simp
  obtain c' m' ass' where room:
    "(if c_current_entries c \<ge> c_capacity c then LRUCacheRemoveLeastUsedItem (c, m) else Some (c, m)) = Some (c', m')"
    and R': "table_rel c' m' ass' (spec_room ix A)" and h: "handle_eq c c'" and len: "length ass' = length ass"
    and dom: "dom (item_at m') = dom (item_at m)" and fate: "tail_fate A (spec_room ix A) (ix key) ass ass'"
    using room_rep [OF R inv i] by blast
  have i': "ix key < length ass'" using i len by simp
  have lost: "insert_lost ix key A \<longleftrightarrow> ass ! ix key \<noteq> [] \<and>
      e_key (last (a_buckets A ! ix key)) \<notin> e_key ` set (a_buckets (spec_room ix A) ! ix key)"
    using bucket_rep_length [OF D(5) [OF i]] by (auto simp: insert_lost_def Let_def)
  have trans: "handle_eq c' c2 \<Longrightarrow> handle_eq c c2" for c2 using h by (auto simp: handle_eq_def)
  show ?thesis
  proof (cases "ass ! ix key = []")
    case True
    then have "ass' ! ix key = []" "\<not> insert_lost ix key A" using fate lost by (simp_all add: tail_fate_def)
    note ins = insert_empty_rep [OF R' i' this room E args]
    have "last_ptr Null (ass ! ix key) = Null" using True by simp
    then show ?thesis using ins trans by (simp only:) blast
  next
    case False
    let ?p = "last (ass ! ix key)"
    have "?p \<in> dom (item_at m)"
      using bucket_rep_items [OF D(5) [OF i], of ?p] False item_rep_item by fastforce
    then obtain pit where pit: "item_at m' ?p = Some pit" using dom by (metis domD)
    have "insert_lost ix key A \<Longrightarrow> \<forall>j < length ass'. ?p \<notin> set (ass' ! j)"
      using fate lost len unfolding tail_fate_def by metis
    moreover have "\<not> insert_lost ix key A \<Longrightarrow> ass' ! ix key \<noteq> [] \<and> last (ass' ! ix key) = ?p"
      using fate lost False unfolding tail_fate_def by blast
    then have "\<not> insert_lost ix key A \<Longrightarrow> ass' ! ix key = butlast (ass' ! ix key) @ [?p]" by (metis append_butlast_last_id)
    ultimately have ins: "\<exists>item c1 m1 c2 m2 ass2. insert_item E key val n (ix key) (Ref ?p) (c, m) = Some (item, c1, m1) \<and>
        stamp_item item (c1, m1) = Some (c2, m2) \<and>
        table_rel c2 m2 ass2 (spec_insert ix key (take (unat n) val) A) \<and> handle_eq c' c2"
      by (intro insert_behind_rep [OF R' i' pit _ _ room E args])
    have "last_ptr Null (ass ! ix key) = Ref ?p" using False by (simp add: last_ptr_def)
    then show ?thesis using ins trans by (simp only:) blast
  qed
qed

section \<open>Changing an item in place\<close>

text \<open>A bucket of which one item changed in place: the rest of the bucket reads as before, and stays apart from the item.\<close>

lemma bucket_rep_modify:
  assumes B: "bucket_rep m p (xs @ a # ys) (es1 @ e # es2)" and len: "length xs = length es1"
    and it: "item_at m a = Some it" "item_at m' a = Some it'" "i_next it' = i_next it"
    and items: "\<And>b. b \<noteq> a \<Longrightarrow> item_at m' b = item_at m b"
    and blocks: "\<And>b b'. b \<in> set (xs @ ys) \<Longrightarrow> b' \<in> own m b \<Longrightarrow> block_at m' b' = block_at m b'"
    and apart: "\<And>b. b \<in> set (xs @ ys) \<Longrightarrow> own m b \<inter> own m' a = {}" and rep: "item_rep m' a e'"
  shows "bucket_rep m' p (xs @ a # ys) (es1 @ e' # es2)"
proof -
  let ?as = "xs @ a # ys"
  have B: "chain i_next (item_at m) p ?as" "distinct ?as" "list_all2 (item_rep m) xs es1" "list_all2 (item_rep m) ys es2"
    "\<forall>b \<in> set ?as. \<forall>b' \<in> set ?as. b \<noteq> b' \<longrightarrow> own m b \<inter> own m b' = {}"
    using B len by (simp_all add: bucket_rep_def list_all2_append)
  have own_eq: "own m' b = own m b" if "b \<noteq> a" for b using items [OF that] by (rule own_cong)
  have keep: "item_rep m' b x" if "b \<in> set (xs @ ys)" "item_rep m b x" for b x
    using that(1) B(2) items [of b] blocks [OF that(1)] by (intro item_rep_frame [OF that(2)]) auto
  have "list_all2 (item_rep m') xs es1" "list_all2 (item_rep m') ys es2"
    using keep by (auto intro!: list.rel_mono_strong [OF B(3)] list.rel_mono_strong [OF B(4)])
  then have "list_all2 (item_rep m') ?as (es1 @ e' # es2)" using rep len by (simp add: list_all2_append)
  moreover have "chain i_next (item_at m') p ?as"
    using B(1) it items by (subst path_cong [of _ _ _ "item_at m"]) (metis option.simps(9))+
  moreover have "own m' b \<inter> own m' b' = {}" if "b \<in> set ?as" "b' \<in> set ?as" "b \<noteq> b'" for b b'
    using that B(5) own_eq apart [of b] apart [of b'] by (cases "b = a"; cases "b' = a") auto
  ultimately show ?thesis using B(2) unfolding bucket_rep_def by blast
qed

lemma table_rel_modify:
  assumes R: "table_rel c m ass A" and i: "i < length ass" and as: "ass ! i = xs @ a # ys"
    and es: "a_buckets A ! i = es1 @ e # es2" and len: "length xs = length es1"
    and it: "item_at m a = Some it" "item_at m' a = Some it'" "i_next it' = i_next it"
    and items: "\<And>b. b \<noteq> a \<Longrightarrow> item_at m' b = item_at m b"
    and blocks: "\<And>b. b \<notin> own m a \<Longrightarrow> b < brk m \<Longrightarrow> block_at m' b = block_at m b"
    and rep: "item_rep m' a e'" and own_a: "\<And>b. b \<in> own m' a \<Longrightarrow> b \<in> own m a \<or> brk m \<le> b"
    and "fresh m'"
    and "c_hash_table_size c' = c_hash_table_size c" "c_items c' = c_items c"
    and "a_buckets A' = (a_buckets A)[i := es1 @ e' # es2]"
    and "c_capacity c' = a_capacity A'" "c_current_entries c' = a_entries A'" "c_age c' = a_age A'"
  shows "table_rel c' m' ass A'"
proof -
  note D = table_relD [OF R]
  have B: "bucket_rep m (c_items c ! i) (xs @ a # ys) (es1 @ e # es2)" using D(5) [OF i] as es by simp
  have apart: "own m b \<inter> own m a = {}" if "j < length ass" "b \<in> set (ass ! j)" "b \<noteq> a" for j b
    using D(6) [OF that(1) i, of b a] B as that by (cases "j = i") (auto simp: bucket_rep_def)
  have apart': "own m b \<inter> own m' a = {}" if "j < length ass" "b \<in> set (ass ! j)" "b \<noteq> a" for j b
    using apart [OF that] own_a table_rel_below [OF R that(1,2)] by (meson disjoint_iff not_le)
  have frame: "item_at m' b = item_at m b \<and> (\<forall>b' \<in> own m b. block_at m' b' = block_at m b')"
    if "j < length ass" "b \<in> set (ass ! j)" "b \<noteq> a" for j b
    using items [OF that(3)] apart [OF that] blocks table_rel_below [OF R that(1,2)] by blast
  have own_eq: "own m' b = own m b" if "b \<noteq> a" for b using items [OF that] by (rule own_cong)
  have "b \<in> set (ass ! i) \<and> b \<noteq> a" if "b \<in> set (xs @ ys)" for b using that as B by (auto simp: bucket_rep_def)
  then have "bucket_rep m' (c_items c ! i) (xs @ a # ys) (es1 @ e' # es2)"
    using frame [OF i] apart' [OF i] by (intro bucket_rep_modify [OF B len it items _ _ rep]) blast+
  then have "bucket_rep m' (c_items c ! i) (ass ! i) (es1 @ e' # es2)" using as by simp
  then have "table_rel c' m' (ass[i := ass ! i]) A'"
  proof (rule table_rel_update [OF R i])
    fix j b assume j: "j < length ass" "j \<noteq> i" "b \<in> set (ass ! j)"
    then have "b \<noteq> a" using D(6) [OF j(1) i j(2,3), of a] as by simp
    then show "item_at m' b = item_at m b \<and> (\<forall>b' \<in> own m b. block_at m' b' = block_at m b')"
      using frame j(1,3) by blast
    show "b \<noteq> b' \<and> own m b \<inter> own m' b' = {}" if "b' \<in> set (ass ! i)" for b'
      using D(6) [OF j(1) i j(2,3) that] apart' [OF j(1,3) \<open>b \<noteq> a\<close>] own_eq by (cases "b' = a") auto
  qed (use assms(13-19) in simp_all)
  then show ?thesis by simp
qed

lemma stamp_rep:
  assumes R: "table_rel c m ass A" and i: "i < length ass" and as: "ass ! i = xs @ a # ys"
    and es: "a_buckets A ! i = es1 @ e # es2" and len: "length xs = length es1"
  shows "\<exists>it c' m'. item_at m a = Some it \<and> stamp_item (Ref a) (c, m) = Some (c', m') \<and> handle_eq c c' \<and>
    table_rel c' m' ass (A\<lparr>a_buckets := (a_buckets A)[i := es1 @ e\<lparr>e_age := a_age A\<rparr> # es2], a_age := a_age A + 1\<rparr>) \<and>
    get_block (i_value it) m' = Some (e_val e) \<and> unat (i_value_length it) = length (e_val e)"
proof -
  note D = table_relD [OF R]
  have rep: "item_rep m a e" using D(5) [OF i] as es len by (simp add: bucket_rep_def list_all2_append)
  then obtain it where it: "item_at m a = Some it" using item_rep_item by blast
  let ?c = "c\<lparr>c_age := c_age c + 1\<rparr>" and ?m = "m\<lparr>item_at := (item_at m)(a \<mapsto> it\<lparr>i_age := c_age c\<rparr>)\<rparr>"
  have "table_rel ?c ?m ass
      (A\<lparr>a_buckets := (a_buckets A)[i := es1 @ e\<lparr>e_age := a_age A\<rparr> # es2], a_age := a_age A + 1\<rparr>)"
  proof (rule table_rel_modify [OF R i as es len it, of ?m "it\<lparr>i_age := c_age c\<rparr>"])
    show "item_rep ?m a (e\<lparr>e_age := a_age A\<rparr>)" using rep it D(10) by (auto simp: item_rep_def)
    show "fresh ?m" using D(7) it by (auto simp: fresh_def)
  qed (use it D(8-10) in \<open>auto simp: own_def\<close>)
  moreover have "stamp_item (Ref a) (c, m) = Some (?c, ?m)" using it by (simp add: stamp_item_def)
  moreover have "get_block (i_value it) ?m = Some (e_val e) \<and> unat (i_value_length it) = length (e_val e)"
    using rep it by (auto simp: item_rep_def)
  ultimately show ?thesis using it by (auto simp: handle_eq_def)
qed

lemma overwrite_rep:
  assumes R: "table_rel c m ass A" and i: "i < length ass" and as: "ass ! i = xs @ a # ys"
    and es: "a_buckets A ! i = es1 @ e # es2" and len: "length xs = length es1"
    and E: "zeroing E" and n: "unat n \<le> length val"
  shows "\<exists>it m1 m2 c' m'. item_at m a = Some it \<and> free_block (i_value it) m = Some m1 \<and>
    store_value E (Ref a) val n m1 = Some m2 \<and> stamp_item (Ref a) (c, m2) = Some (c', m') \<and> handle_eq c c' \<and>
    table_rel c' m' ass (A\<lparr>a_buckets := (a_buckets A)[i :=
      es1 @ e\<lparr>e_val := take (unat n) val, e_age := a_age A\<rparr> # es2], a_age := a_age A + 1\<rparr>)"
proof -
  note D = table_relD [OF R]
  have rep: "item_rep m a e" using D(5) [OF i] as es len by (simp add: bucket_rep_def list_all2_append)
  then obtain it k v where it: "item_at m a = Some it" "i_key it = Ref k" "i_value it = Ref v" "k \<noteq> v"
    "block_at m k = Some (e_key e @ [0])" "cstring (e_key e)" "block_at m v = Some (e_val e)"
    by (auto simp: item_rep_def)
  have own: "own m a = {k, v}" using it by (auto simp: own_def)
  have k: "k < brk m" "v < brk m" using fresh_less(2) [OF D(7)] it by auto
  let ?it = "it\<lparr>i_value := Ref (brk m), i_value_length := n, i_age := c_age c\<rparr>"
  let ?m1 = "m\<lparr>block_at := (block_at m)(v := None)\<rparr>"
  let ?m2 = "m\<lparr>item_at := (item_at m)(a \<mapsto> it\<lparr>i_value := Ref (brk m), i_value_length := n\<rparr>),
     block_at := (block_at m)(v := None, brk m \<mapsto> take (unat n) val), brk := Suc (brk m)\<rparr>"
  let ?m = "m\<lparr>item_at := (item_at m)(a \<mapsto> ?it),
     block_at := (block_at m)(v := None, brk m \<mapsto> take (unat n) val), brk := Suc (brk m)\<rparr>"
  let ?c = "c\<lparr>c_age := c_age c + 1\<rparr>"
  have "free_block (i_value it) m = Some ?m1" using it by simp
  moreover have "store_value E (Ref a) val n ?m1 = Some ?m2"
    using it E n k by (simp add: store_value_def malloc_block_def Let_def zeroing_def)
  moreover have "stamp_item (Ref a) (c, ?m2) = Some (?c, ?m)" by (simp add: stamp_item_def)
  moreover have "table_rel ?c ?m ass (A\<lparr>a_buckets := (a_buckets A)[i :=
      es1 @ e\<lparr>e_val := take (unat n) val, e_age := a_age A\<rparr> # es2], a_age := a_age A + 1\<rparr>)"
  proof (rule table_rel_modify [OF R i as es len it(1), of ?m ?it])
    show "item_rep ?m a (e\<lparr>e_val := take (unat n) val, e_age := a_age A\<rparr>)"
      using it k n D(10) by (simp add: item_rep_def)
    show "fresh ?m" using D(7) it(1) fresh_less(1) [OF D(7) it(1)] by (auto simp: fresh_def)
    show "b \<in> own m a \<or> brk m \<le> b" if "b \<in> own ?m a" for b using that it own by (auto simp: own_def)
  qed (use own D(8-10) in auto)
  ultimately show ?thesis using it(1) by (fastforce simp: handle_eq_def)
qed

end
