(* ===== verification/Lru_Correct.thy ===== *)
theory Lru_Correct
  imports Lru_Refine
begin

text \<open>
  The interface functions of the LRU cache against the layers of \<open>Lru_Spec\<close>: each call returns
  (it neither dereferences a bad pointer nor loops), keeps the representation relation, and has
  the effect of the bucket layer's operation. The properties of the cache follow from these
  refinements: what a lookup returns, which item is evicted, what the counters mean, and the
  places where the code departs from a textbook LRU cache.
\<close>

section \<open>The interface functions refine the bucket layer\<close>

lemma lock_rel: "lru_rel c m A \<Longrightarrow> lock_cache c = Some (c\<lparr>c_mutex := True\<rparr>)"
  by (simp add: lru_rel_def lock_cache_def)

lemma locked_table:
  assumes "lru_rel c m A"
  obtains ass where "table_rel (c\<lparr>c_mutex := True\<rparr>) m ass A" "table_inv (hash_ix c) A"
    "hash_ix (c\<lparr>c_mutex := True\<rparr>) = hash_ix c"
proof -
  obtain ass where R: "table_rel c m ass A" using assms by (auto simp: lru_rel_def)
  show ?thesis
  proof (rule that)
    show "table_rel (c\<lparr>c_mutex := True\<rparr>) m ass A"
      using R by (rule table_rel_counters) (use table_relD(8-10) [OF R] in simp_all)
    show "table_inv (hash_ix c) A" using assms by (simp add: lru_rel_def)
    show "hash_ix (c\<lparr>c_mutex := True\<rparr>) = hash_ix c" by (rule hash_ix_cong) simp_all
  qed
qed

lemma unlock_rel:
  assumes "table_rel c' m' ass' A'" and "handle_eq (c\<lparr>c_mutex := True\<rparr>) c'" and "table_inv (hash_ix c) A'"
  shows "\<exists>c''. unlock_cache c' = Some c'' \<and> lru_rel c'' m' A' \<and> hash_ix c'' = hash_ix c"
proof -
  let ?c = "c'\<lparr>c_mutex := False\<rparr>"
  have "unlock_cache c' = Some ?c" using assms(2) by (simp add: unlock_cache_def handle_eq_def)
  moreover have "hash_ix ?c = hash_ix c" using assms(2) by (intro hash_ix_cong) (simp_all add: handle_eq_def)
  moreover have "table_rel ?c m' ass' A'"
    using assms(1) by (rule table_rel_counters) (use table_relD(8-10) [OF assms(1)] in simp_all)
  ultimately show ?thesis using assms(3) by (auto simp: lru_rel_def)
qed

text \<open>The common prefix of the three operations: lock, hash, search.\<close>

lemma locked_search:
  assumes "table_rel c m ass A" and "table_inv (hash_ix c) A"
  obtains i where "LRUCacheGetHashIndex c key = Some i" "unat i = hash_ix c key" "hash_ix c key < length ass"
    "array_get (c_items c) (hash_ix c key) = Some (c_items c ! hash_ix c key)"
    "bucket_rep m (c_items c ! hash_ix c key) (ass ! hash_ix c key) (a_buckets A ! hash_ix c key)"
proof -
  note D = table_relD [OF assms(1)]
  obtain i where i: "LRUCacheGetHashIndex c key = Some i" "unat i = hash_ix c key"
    using hash_index_ix [OF D(11)] by blast
  have "hash_ix c key < length ass" using hash_ix_less [OF D(11), of key] D(1) by simp
  then show ?thesis using that i D(2,5) by simp
qed

lemma set_refines:
  assumes rel: "lru_rel c m A" and E: "zeroing E" and args: "cstring key" "unat n \<le> length val"
  shows "\<exists>c' m'. LRUCacheSet E key val n (c, m) = Some (c', m') \<and>
    lru_rel c' m' (spec_set (hash_ix c) key (take (unat n) val) A) \<and> hash_ix c' = hash_ix c"
proof -
  let ?c = "c\<lparr>c_mutex := True\<rparr>" and ?ix = "hash_ix c"
  obtain ass where R: "table_rel ?c m ass A" and inv: "table_inv ?ix A" and ix: "hash_ix ?c = ?ix"
    using locked_table [OF rel] .
  obtain i where i: "LRUCacheGetHashIndex ?c key = Some i" "unat i = ?ix key" "?ix key < length ass"
    "array_get (c_items ?c) (?ix key) = Some (c_items ?c ! ?ix key)"
    and B: "bucket_rep m (c_items ?c ! ?ix key) (ass ! ?ix key) (a_buckets A ! ?ix key)"
    using locked_search [OF R inv [folded ix], of key] unfolding ix .
  note inv' = table_inv_set [OF inv, of key "take (unat n) val"]
  show ?thesis
  proof (cases "lookup_entry key (a_buckets A ! ?ix key)")
    case None
    have f: "find_item m key Null (c_items ?c ! ?ix key) = Some (last_ptr Null (ass ! ?ix key), Null)"
      using find_item_lookup(1) [OF B None] .
    obtain item c1 m1 c2 m2 ass2 where ins:
      "insert_item E key val n (?ix key) (last_ptr Null (ass ! ?ix key)) (?c, m) = Some (item, c1, m1)"
      "stamp_item item (c1, m1) = Some (c2, m2)"
      "table_rel c2 m2 ass2 (spec_set ?ix key (take (unat n) val) A)" "handle_eq ?c c2"
      using insert_rep [OF R inv E args] None by (auto simp: spec_set_def)
    obtain c3 where "unlock_cache c2 = Some c3" "lru_rel c3 m2 (spec_set ?ix key (take (unat n) val) A)"
      "hash_ix c3 = ?ix"
      using unlock_rel [OF ins(3,4) inv'] by blast
    then show ?thesis using lock_rel [OF rel] i f ins(1,2) by (auto simp: LRUCacheSet_def)
  next
    case (Some e)
    obtain as1 a as2 es1 es2 where S: "ass ! ?ix key = as1 @ a # as2" "a_buckets A ! ?ix key = es1 @ e # es2"
      "key \<notin> e_key ` set es1" "e_key e = key" "list_all2 (item_rep m) as1 es1"
      "find_item m key Null (c_items ?c ! ?ix key) = Some (last_ptr Null as1, Ref a)"
      using find_item_lookup(2) [OF B Some] by blast
    have spec: "spec_set ?ix key (take (unat n) val) A = A\<lparr>a_buckets := (a_buckets A)[?ix key :=
        es1 @ e\<lparr>e_val := take (unat n) val, e_age := a_age A\<rparr> # es2], a_age := a_age A + 1\<rparr>"
      using Some S(2-4) by (simp add: spec_set_def upd_entry_split)
    obtain it m1 m2 c2 m3 where ow: "item_at m a = Some it" "free_block (i_value it) m = Some m1"
      "store_value E (Ref a) val n m1 = Some m2" "stamp_item (Ref a) (?c, m2) = Some (c2, m3)" "handle_eq ?c c2"
      "table_rel c2 m3 ass (spec_set ?ix key (take (unat n) val) A)"
      using overwrite_rep [OF R i(3) S(1,2) list_all2_lengthD [OF S(5)] E args(2)] unfolding spec by blast
    obtain c3 where "unlock_cache c2 = Some c3" "lru_rel c3 m3 (spec_set ?ix key (take (unat n) val) A)"
      "hash_ix c3 = ?ix"
      using unlock_rel [OF ow(6,5) inv'] by blast
    then show ?thesis using lock_rel [OF rel] i S(6) ow(1-4) by (auto simp: LRUCacheSet_def)
  qed
qed

lemma get_refines:
  assumes rel: "lru_rel c m A"
  shows "\<exists>r v l c' m'. LRUCacheGet key (c, m) = Some (r, v, l, c', m') \<and>
    lru_rel c' m' (snd (spec_get (hash_ix c) key A)) \<and> hash_ix c' = hash_ix c \<and>
    (case fst (spec_get (hash_ix c) key A) of
       None \<Rightarrow> r = LRU_CACHE_KEY_MISSING \<and> v = Null \<and> l = 0 \<and> c' = c \<and> m' = m
     | Some bs \<Rightarrow> r = LRU_CACHE_OK \<and> get_block v m' = Some bs \<and> unat l = length bs)"
proof -
  let ?c = "c\<lparr>c_mutex := True\<rparr>" and ?ix = "hash_ix c"
  obtain ass where R: "table_rel ?c m ass A" and inv: "table_inv ?ix A" and ix: "hash_ix ?c = ?ix"
    using locked_table [OF rel] .
  obtain i where i: "LRUCacheGetHashIndex ?c key = Some i" "unat i = ?ix key" "?ix key < length ass"
    "array_get (c_items ?c) (?ix key) = Some (c_items ?c ! ?ix key)"
    and B: "bucket_rep m (c_items ?c ! ?ix key) (ass ! ?ix key) (a_buckets A ! ?ix key)"
    using locked_search [OF R inv [folded ix], of key] unfolding ix .
  show ?thesis
  proof (cases "lookup_entry key (a_buckets A ! ?ix key)")
    case None
    have f: "find_item m key Null (c_items ?c ! ?ix key) = Some (last_ptr Null (ass ! ?ix key), Null)"
      using find_item_lookup(1) [OF B None] .
    have "c\<lparr>c_mutex := False\<rparr> = c" using rel by (simp add: lru_rel_def)
    then have "LRUCacheGet key (c, m) = Some (LRU_CACHE_KEY_MISSING, Null, 0, c, m)"
      using lock_rel [OF rel] i f by (simp add: LRUCacheGet_def unlock_cache_def)
    then show ?thesis using None rel by (simp add: spec_get_def)
  next
    case (Some e)
    obtain as1 a as2 es1 es2 where S: "ass ! ?ix key = as1 @ a # as2" "a_buckets A ! ?ix key = es1 @ e # es2"
      "key \<notin> e_key ` set es1" "e_key e = key" "list_all2 (item_rep m) as1 es1"
      "find_item m key Null (c_items ?c ! ?ix key) = Some (last_ptr Null as1, Ref a)"
      using find_item_lookup(2) [OF B Some] by blast
    have spec: "spec_get ?ix key A = (Some (e_val e), A\<lparr>a_buckets := (a_buckets A)[?ix key :=
        es1 @ e\<lparr>e_age := a_age A\<rparr> # es2], a_age := a_age A + 1\<rparr>)"
      using Some S(2-4) by (simp add: spec_get_def upd_entry_split)
    obtain it c2 m3 where st: "item_at m a = Some it" "stamp_item (Ref a) (?c, m) = Some (c2, m3)" "handle_eq ?c c2"
      "table_rel c2 m3 ass (snd (spec_get ?ix key A))"
      "get_block (i_value it) m3 = Some (e_val e)" "unat (i_value_length it) = length (e_val e)"
      using stamp_rep [OF R i(3) S(1,2) list_all2_lengthD [OF S(5)]] unfolding spec snd_conv by blast
    obtain c3 where "unlock_cache c2 = Some c3" "lru_rel c3 m3 (snd (spec_get ?ix key A))" "hash_ix c3 = ?ix"
      using unlock_rel [OF st(4,3) table_inv_get [OF inv]] by blast
    then show ?thesis using lock_rel [OF rel] i S(6) st(1,2,5,6) spec by (auto simp: LRUCacheGet_def)
  qed
qed

lemma delete_refines:
  assumes rel: "lru_rel c m A"
  shows "\<exists>r c' m'. LRUCacheDelete key (c, m) = Some (r, c', m') \<and>
    lru_rel c' m' (snd (spec_delete (hash_ix c) key A)) \<and> hash_ix c' = hash_ix c \<and>
    (r = LRU_CACHE_OK \<longleftrightarrow> fst (spec_delete (hash_ix c) key A))"
proof -
  let ?c = "c\<lparr>c_mutex := True\<rparr>" and ?ix = "hash_ix c"
  obtain ass where R: "table_rel ?c m ass A" and inv: "table_inv ?ix A" and ix: "hash_ix ?c = ?ix"
    using locked_table [OF rel] .
  obtain i where i: "LRUCacheGetHashIndex ?c key = Some i" "unat i = ?ix key" "?ix key < length ass"
    "array_get (c_items ?c) (?ix key) = Some (c_items ?c ! ?ix key)"
    and B: "bucket_rep m (c_items ?c ! ?ix key) (ass ! ?ix key) (a_buckets A ! ?ix key)"
    using locked_search [OF R inv [folded ix], of key] unfolding ix .
  show ?thesis
  proof (cases "lookup_entry key (a_buckets A ! ?ix key)")
    case None
    have f: "find_item m key Null (c_items ?c ! ?ix key) = Some (last_ptr Null (ass ! ?ix key), Null)"
      using find_item_lookup(1) [OF B None] .
    have "c\<lparr>c_mutex := False\<rparr> = c" using rel by (simp add: lru_rel_def)
    then have "LRUCacheDelete key (c, m) = Some (LRU_CACHE_KEY_MISSING, c, m)"
      using lock_rel [OF rel] i f by (simp add: LRUCacheDelete_def unlock_cache_def)
    then show ?thesis using None rel by (simp add: spec_delete_def)
  next
    case (Some e)
    obtain as1 a as2 es1 es2 where S: "ass ! ?ix key = as1 @ a # as2" "a_buckets A ! ?ix key = es1 @ e # es2"
      "key \<notin> e_key ` set es1" "e_key e = key" "list_all2 (item_rep m) as1 es1"
      "find_item m key Null (c_items ?c ! ?ix key) = Some (last_ptr Null as1, Ref a)"
      using find_item_lookup(2) [OF B Some] by blast
    have spec: "spec_delete ?ix key A = (True, A\<lparr>a_buckets := (a_buckets A)[?ix key := es1 @ es2]\<rparr>)"
      using Some S(2-4) by (simp add: spec_delete_def del_entry_split)
    obtain c2 m3 where rm: "LRUCacheRemoveItem (last_ptr Null as1) (Ref a) (?ix key) (?c, m) = Some (c2, m3)"
      "table_rel c2 m3 (ass[?ix key := as1 @ as2]) (snd (spec_delete ?ix key A))" "handle_eq ?c c2"
      using remove_item_rep [OF R i(3) S(1,2) list_all2_lengthD [OF S(5)]] unfolding spec snd_conv by blast
    obtain c3 where "unlock_cache c2 = Some c3" "lru_rel c3 m3 (snd (spec_delete ?ix key A))" "hash_ix c3 = ?ix"
      using unlock_rel [OF rm(2,3) table_inv_delete [OF inv]] by blast
    then show ?thesis using lock_rel [OF rel] i S(6) rm(1) spec by (auto simp: LRUCacheDelete_def)
  qed
qed

section \<open>Creating a cache\<close>

definition empty_abs :: "u64 \<Rightarrow> lru_abs" where
  "empty_abs n = \<lparr>a_buckets = replicate (unat n) [], a_capacity = n, a_entries = 0, a_age = 0\<rparr>"

lemma entries_empty_abs [simp]: "entries (empty_abs n) = []"
  by (simp add: entries_def empty_abs_def)

lemma table_slots_exact: "unat n < 2 ^ 61 \<Longrightarrow> table_slots n = unat n"
  by (simp add: table_slots_def unat_word_ariths)

lemma new_refines:
  assumes "zeroing E" and "n \<noteq> 0" and "fresh m" and "unat n < 2 ^ 61"
  shows "\<exists>c m'. LRUCacheNew E now n m = (Some c, m') \<and> lru_rel c m' (empty_abs n)"
proof -
  have "map (m_slot E (Suc (brk m))) [0..<unat n] = replicate (unat n) Null"
    using assms(1) by (intro nth_equalityI) (auto simp: zeroing_def)
  then obtain c m' where N: "LRUCacheNew E now n m = (Some c, m')"
    "c = \<lparr>c_items = replicate (unat n) Null, c_hash_table_size = n, c_capacity = n, c_current_entries = 0,
          c_age = 0, c_seed = now, c_mutex = False\<rparr>" "m' = m\<lparr>brk := Suc (Suc (brk m))\<rparr>"
    using assms(1) table_slots_exact [OF assms(4)] by (auto simp: LRUCacheNew_def Let_def zeroing_def)
  have len: "0 < unat n" using assms(2) by (simp add: unat_gt_0)
  have "table_rel c m' (replicate (unat n) []) (empty_abs n)"
    using assms(3) len by (simp add: N(2,3) table_rel_def empty_abs_def bucket_rep_def fresh_def)
  moreover have "table_inv (hash_ix c) (empty_abs n)"
    using hash_ix_less [of c] assms(2) by (simp add: table_inv_def empty_abs_def N(2))
  ultimately show ?thesis using N by (auto simp: lru_rel_def)
qed

section \<open>Freeing and printing a cache\<close>

definition nodes :: "addr list list \<Rightarrow> addr set" where
  "nodes ass = (\<Union>as \<in> set ass. set as)"

definition without :: "lru_mem \<Rightarrow> addr set \<Rightarrow> lru_mem" where
  "without m N = m\<lparr>item_at := item_at m |` (- N), block_at := block_at m |` (- (\<Union>a \<in> N. own m a))\<rparr>"

lemma without_empty [simp]: "without m {} = m"
  by (simp add: without_def restrict_map_def)

lemma own_without: "a \<notin> N \<Longrightarrow> own (without m N) a = own m a"
  by (simp add: own_def without_def)

lemma without_without:
  assumes "M \<inter> N = {}" shows "without (without m M) N = without m (M \<union> N)"
proof -
  have "(\<Union>a \<in> N. own (without m M) a) = (\<Union>a \<in> N. own m a)" using assms own_without by (metis SUP_cong disjoint_iff)
  then show ?thesis by (simp add: without_def Int_commute)
qed

lemma bucket_rep_without:
  assumes "bucket_rep m p as es" and "\<And>a b. a \<in> set as \<Longrightarrow> b \<in> N \<Longrightarrow> a \<noteq> b \<and> own m a \<inter> own m b = {}"
  shows "bucket_rep (without m N) p as es"
  using assms(2) by (intro bucket_rep_frame [OF assms(1)]) (auto simp: without_def restrict_map_def)

lemma bucket_rep_Cons:
  assumes "bucket_rep m p (a # as) es"
  obtains e es' it where "es = e # es'" "p = Ref a" "item_at m a = Some it" "item_rep m a e"
    "bucket_rep m (i_next it) as es'" "\<And>b. b \<in> set as \<Longrightarrow> b \<noteq> a \<and> own m b \<inter> own m a = {}"
proof -
  obtain e es' it where *: "es = e # es'" "p = Ref a" "item_at m a = Some it" "item_rep m a e"
    "list_all2 (item_rep m) as es'" "chain i_next (item_at m) (i_next it) as"
    using assms by (auto simp: bucket_rep_def list_all2_Cons1)
  show ?thesis using assms * by (intro that [of e es' it]) (auto simp: bucket_rep_def)
qed

lemma free_bucket_rep: "bucket_rep m p as es \<Longrightarrow> free_bucket p m = Some (without m (set as))"
proof (induction as arbitrary: m p es)
  case Nil
  then show ?case by (subst free_bucket.simps) (simp add: bucket_rep_def)
next
  case (Cons a as)
  obtain e es' it where C: "es = e # es'" "p = Ref a" "item_at m a = Some it" "item_rep m a e"
    "bucket_rep m (i_next it) as es'" "\<And>b. b \<in> set as \<Longrightarrow> b \<noteq> a \<and> own m b \<inter> own m a = {}"
    using bucket_rep_Cons [OF Cons.prems] by metis
  obtain k v where kv: "i_key it = Ref k" "i_value it = Ref v" "k \<noteq> v" "block_at m k \<noteq> None" "block_at m v \<noteq> None"
    using C(3,4) by (auto simp: item_rep_def)
  have own: "own m a = {k, v}" using C(3) kv by (auto simp: own_def)
  let ?m = "m\<lparr>block_at := (block_at m)(k := None, v := None), item_at := (item_at m)(a := None)\<rparr>"
  have m: "?m = without m {a}" by (rule lru_mem.equality) (auto simp: without_def own restrict_map_def fun_eq_iff)
  have "bucket_rep (without m {a}) (i_next it) as es'" using C(6) by (intro bucket_rep_without [OF C(5)]) auto
  then have "free_bucket (i_next it) ?m = Some (without (without m {a}) (set as))" unfolding m by (rule Cons.IH)
  moreover have "without (without m {a}) (set as) = without m (set (a # as))"
    using C(6) by (subst without_without) auto
  ultimately show ?case using C(2,3) kv by (subst free_bucket.simps) auto
qed

lemma free_table_rep:
  assumes R: "table_rel c m ass A" and "j \<le> length ass"
  shows "free_table c [j..<length ass] (without m (nodes (take j ass))) = Some (without m (nodes ass))"
  using assms(2)
proof (induction "length ass - j" arbitrary: j)
  case (Suc n)
  then have j: "j < length ass" by simp
  note D = table_relD [OF R]
  have apart: "a \<noteq> b \<and> own m a \<inter> own m b = {}" if ab: "a \<in> set (ass ! j)" "b \<in> nodes (take j ass)" for a b
  proof -
    obtain k where "k < j" "b \<in> set (ass ! k)" using ab(2) j by (auto simp: nodes_def set_conv_nth [of "take j ass"])
    then show ?thesis using D(6) [OF j, of k a b] ab(1) j by simp
  qed
  have "bucket_rep (without m (nodes (take j ass))) (c_items c ! j) (ass ! j) (a_buckets A ! j)"
    using apart by (intro bucket_rep_without [OF D(5) [OF j]])
  then have "free_bucket (c_items c ! j) (without m (nodes (take j ass))) =
      Some (without (without m (nodes (take j ass))) (set (ass ! j)))"
    by (rule free_bucket_rep)
  moreover have "without (without m (nodes (take j ass))) (set (ass ! j)) = without m (nodes (take (Suc j) ass))"
    using apart j by (subst without_without) (auto simp: nodes_def take_Suc_conv_app_nth Un_commute)
  moreover have "n = length ass - Suc j" "Suc j \<le> length ass" using Suc.hyps(2) j by simp_all
  ultimately show ?case using Suc.hyps(1) [of "Suc j"] j D(2) by (simp add: upt_conv_Cons)
qed simp

lemma dump_bucket_rep:
  assumes "chain i_next (item_at m) p as" and "list_all2 (item_rep m) as es"
  shows "dump_bucket m p out =
    Some (out @ map (\<lambda>(i, e). (i, e_key e, e_age e)) (List.enumerate (length out) es))"
  using assms
proof (induction as arbitrary: p es out)
  case Nil
  then show ?case by (subst dump_bucket.simps) simp
next
  case (Cons a as)
  then obtain e es' it where *: "es = e # es'" "item_rep m a e" "list_all2 (item_rep m) as es'"
    "p = Ref a" "item_at m a = Some it" "chain i_next (item_at m) (i_next it) as"
    by (auto simp: list_all2_Cons1)
  obtain k where "i_key it = Ref k" "block_at m k = Some (e_key e @ [0])" "cstring (e_key e)" "i_age it = e_age e"
    using *(2,5) by (auto simp: item_rep_def)
  then have "dump_bucket m p out = dump_bucket m (i_next it) (out @ [(length out, e_key e, e_age e)])"
    using *(4,5) by (subst dump_bucket.simps) simp
  then show ?case using Cons.IH [OF *(6,3), of "out @ [(length out, e_key e, e_age e)]"] *(1) by simp
qed

lemma dump_table_rep:
  assumes R: "table_rel c m ass A" and "j \<le> length ass"
  shows "dump_table c m [j..<length ass] out =
    Some (out @ map (\<lambda>(i, e). (i, e_key e, e_age e)) (List.enumerate (length out) (concat (drop j (a_buckets A)))))"
  using assms(2)
proof (induction "length ass - j" arbitrary: j out)
  case 0
  then show ?case using table_relD(3) [OF R] by simp
next
  case (Suc n)
  then have j: "j < length ass" by simp
  note D = table_relD [OF R]
  let ?f = "map (\<lambda>(i, e). (i, e_key e, e_age e))"
  let ?out = "out @ ?f (List.enumerate (length out) (a_buckets A ! j))"
  have "dump_bucket m (c_items c ! j) out = Some ?out"
    using D(5) [OF j] by (intro dump_bucket_rep) (auto simp: bucket_rep_def)
  moreover have "drop j (a_buckets A) = a_buckets A ! j # drop (Suc j) (a_buckets A)"
    using j D(3) by (metis Cons_nth_drop_Suc)
  moreover have "n = length ass - Suc j" "Suc j \<le> length ass" using Suc.hyps(2) j by simp_all
  ultimately show ?case using Suc.hyps(1) [of "Suc j" ?out] j D(2)
    by (simp add: upt_conv_Cons enumerate_append_eq)
qed

section \<open>Runs of operations\<close>

datatype lru_op = Set_Op "byte list" "byte list" | Get_Op "byte list" | Delete_Op "byte list"

fun lru_step :: "malloc_env \<Rightarrow> lru_op \<Rightarrow> LRUCache \<times> lru_mem \<Rightarrow> (LRUCache \<times> lru_mem) option" where
  "lru_step E (Set_Op k v) s = LRUCacheSet E k v (of_nat (length v)) s"
| "lru_step E (Get_Op k) s = map_option (\<lambda>(r, p, l, s'). s') (LRUCacheGet k s)"
| "lru_step E (Delete_Op k) s = map_option (\<lambda>(r, s'). s') (LRUCacheDelete k s)"

fun lru_run :: "malloc_env \<Rightarrow> lru_op list \<Rightarrow> LRUCache \<times> lru_mem \<Rightarrow> (LRUCache \<times> lru_mem) option" where
  "lru_run E [] s = Some s"
| "lru_run E (x # xs) s = do { s \<leftarrow> lru_step E x s; lru_run E xs s }"

fun op_ok :: "lru_op \<Rightarrow> bool" where
  "op_ok (Set_Op k v) \<longleftrightarrow> cstring k \<and> length v < 2 ^ 64"
| "op_ok (Get_Op k) \<longleftrightarrow> cstring k"
| "op_ok (Delete_Op k) \<longleftrightarrow> cstring k"

fun spec_op :: "(byte list \<Rightarrow> nat) \<Rightarrow> lru_op \<Rightarrow> lru_abs \<Rightarrow> lru_abs" where
  "spec_op ix (Set_Op k v) A = spec_set ix k v A"
| "spec_op ix (Get_Op k) A = snd (spec_get ix k A)"
| "spec_op ix (Delete_Op k) A = snd (spec_delete ix k A)"

definition lru_good :: "LRUCache \<Rightarrow> lru_mem \<Rightarrow> lru_abs \<Rightarrow> bool" where
  "lru_good c m A \<longleftrightarrow> lru_rel c m A \<and> age_inv A \<and> count_inv A \<and> 0 < a_capacity A"

lemma lru_step_refines:
  assumes "lru_rel c m A" and "zeroing E" and "op_ok x"
  shows "\<exists>c' m'. lru_step E x (c, m) = Some (c', m') \<and> lru_rel c' m' (spec_op (hash_ix c) x A) \<and> hash_ix c' = hash_ix c"
proof (cases x)
  case (Set_Op k v)
  then have "unat (of_nat (length v) :: u64) = length v" using assms(3) by (simp add: unat_of_nat)
  then show ?thesis using set_refines [OF assms(1,2), of k "of_nat (length v)" v] Set_Op assms(3) by auto
next
  case (Get_Op k)
  then show ?thesis using get_refines [OF assms(1), of k] by auto
next
  case (Delete_Op k)
  then show ?thesis using delete_refines [OF assms(1), of k] by auto
qed

lemma spec_op_simps [simp]:
  "a_capacity (spec_op ix x A) = a_capacity A"
  "length (a_buckets (spec_op ix x A)) = length (a_buckets A)"
  by (cases x; simp add: spec_set_def spec_get_def spec_delete_def split: option.split)+

lemma spec_op_age: "unat (a_age A) < 0x7fffffff \<Longrightarrow> unat (a_age (spec_op ix x A)) \<le> unat (a_age A) + 1"
  by (cases x)
     (auto simp: spec_set_def spec_get_def spec_delete_def word_less_nat_alt unat_word_ariths split: option.split)

lemma lru_step_good:
  assumes "lru_good c m A" and "zeroing E" and "op_ok x" and "unat (a_age A) < 0x7fffffff"
  shows "\<exists>c' m'. lru_step E x (c, m) = Some (c', m') \<and> lru_good c' m' (spec_op (hash_ix c) x A) \<and> hash_ix c' = hash_ix c"
proof -
  have inv: "table_inv (hash_ix c) A" "age_inv A" "count_inv A" "0 < a_capacity A" "lru_rel c m A"
    using assms(1) by (simp_all add: lru_good_def lru_rel_def)
  have age: "a_age A < 0x7fffffff" using assms(4) by (simp add: word_less_nat_alt)
  have "age_inv (spec_op (hash_ix c) x A) \<and> count_inv (spec_op (hash_ix c) x A)"
    using age_inv_set [OF inv(1,2) age] count_inv_set [OF inv(1,2) age inv(3,4)] age_inv_get [OF inv(1,2) age]
      count_inv_get [OF inv(1) age inv(3)] spec_delete_recency(2) [OF inv(1,2)] count_inv_delete [OF inv(1,3)]
    by (cases x) auto
  then show ?thesis using lru_step_refines [OF inv(5) assms(2,3)] inv(4) by (auto simp: lru_good_def)
qed

lemma lru_run_good:
  assumes "lru_good c m A" and "zeroing E" and "list_all op_ok xs" and "unat (a_age A) + length xs \<le> 0x7fffffff"
  shows "\<exists>c' m'. lru_run E xs (c, m) = Some (c', m') \<and> lru_good c' m' (fold (spec_op (hash_ix c)) xs A)"
  using assms
proof (induction xs arbitrary: c m A)
  case (Cons x xs)
  then have "unat (a_age A) < 0x7fffffff" by simp
  then obtain c1 m1 where 1: "lru_step E x (c, m) = Some (c1, m1)" "lru_good c1 m1 (spec_op (hash_ix c) x A)"
      "hash_ix c1 = hash_ix c"
    using lru_step_good [OF Cons.prems(1,2), of x] Cons.prems(3) by auto
  have "unat (a_age (spec_op (hash_ix c) x A)) + length xs \<le> 0x7fffffff"
    using spec_op_age [of A "hash_ix c" x] Cons.prems(4) by simp
  then show ?case using Cons.IH [OF 1(2) Cons.prems(2)] Cons.prems(3) 1(1,3) by auto
qed auto

lemma spec_run_capacity [simp]: "a_capacity (fold (spec_op ix) xs A) = a_capacity A"
  by (induction xs arbitrary: A) simp_all

end
