(* ===== verification/Lru_Properties.thy ===== *)
theory Lru_Properties
  imports Lru_Correct
begin

text \<open>
  The properties of the LRU cache, over the functions of \<open>Lru_Cache\<close>. They rest on the refinement
  lemmas of \<open>Lru_Correct\<close> and on the recency lemmas of \<open>Lru_Spec\<close>. The last part states where the
  code departs from a cache that evicts exactly the least recently used pair.
\<close>

section \<open>Concrete caches\<close>

text \<open>An allocator of zeroed memory, the empty heap, and the caches of one and two slots that
  \<open>LRUCacheNew\<close> makes of them; they instantiate the hypotheses of the properties.\<close>

definition zero_env :: malloc_env where
  "zero_env = \<lparr>m_fails = (\<lambda>_. False),
     m_item = (\<lambda>_. \<lparr>i_key = Null, i_value = Null, i_value_length = 0, i_age = 0, i_next = Null\<rparr>),
     m_byte = (\<lambda>_ _. 0), m_slot = (\<lambda>_ _. Null), m_word = (\<lambda>_. 0)\<rparr>"

definition empty_mem :: lru_mem where
  "empty_mem = \<lparr>item_at = (\<lambda>_. None), block_at = (\<lambda>_. None), brk = 0\<rparr>"

lemma zeroing_zero_env: "zeroing zero_env"
  by (simp add: zeroing_def zero_env_def)

lemma fresh_empty_mem: "fresh empty_mem"
  by (simp add: fresh_def empty_mem_def)

lemma age_inv_empty_abs: "age_inv (empty_abs n)"
  by (simp add: age_inv_def)

lemma lru_good_new:
  assumes "zeroing E" and "n \<noteq> 0" and "fresh m" and "unat n < 2 ^ 61"
  shows "\<exists>c m'. LRUCacheNew E now n m = (Some c, m') \<and> lru_good c m' (empty_abs n)"
  using new_refines [OF assms] assms(2)
  by (auto simp: lru_good_def age_inv_empty_abs count_inv_def word_gt_0) (simp_all add: empty_abs_def)

text \<open>In a table of one slot every key has index 0.\<close>

lemma hash_ix_one: "c_hash_table_size c = 1 \<Longrightarrow> hash_ix c = (\<lambda>_. 0)"
  using hash_ix_less [of c] by (fastforce simp: fun_eq_iff)

lemma one_slot_cache:
  "\<exists>c m. LRUCacheNew zero_env now 1 empty_mem = (Some c, m) \<and> lru_rel c m (empty_abs 1) \<and> hash_ix c = (\<lambda>_. 0)"
proof -
  obtain c m where N: "LRUCacheNew zero_env now 1 empty_mem = (Some c, m)" "lru_rel c m (empty_abs 1)"
    using new_refines [OF zeroing_zero_env _ fresh_empty_mem, of 1 now] by auto
  then have "c_hash_table_size c = 1" by (auto simp: LRUCacheNew_def Let_def zero_env_def)
  then show ?thesis using N hash_ix_one by blast
qed

definition one_entry :: "byte list \<Rightarrow> byte list \<Rightarrow> lru_abs" where
  "one_entry k v = spec_set (\<lambda>_. 0) k v (empty_abs 1)"

lemma one_entry_cache:
  assumes "cstring k" and "length v < 2 ^ 64"
  shows "\<exists>c m. lru_rel c m (one_entry k v) \<and> hash_ix c = (\<lambda>_. 0)"
proof -
  obtain c m where "lru_rel c m (empty_abs 1)" "hash_ix c = (\<lambda>_. 0)" using one_slot_cache by blast
  moreover have "unat (of_nat (length v) :: u64) = length v" using assms(2) by (simp add: unat_of_nat)
  ultimately show ?thesis
    using set_refines [of c m "empty_abs 1" zero_env k "of_nat (length v)" v] assms(1) zeroing_zero_env
    by (auto simp: one_entry_def)
qed

lemma one_entry_eq:
  "one_entry k v = \<lparr>a_buckets = [[\<lparr>e_key = k, e_val = v, e_age = 0\<rparr>]], a_capacity = 1, a_entries = 1, a_age = 1\<rparr>"
  by (simp add: one_entry_def spec_set_def empty_abs_def lookup_entry_def spec_insert_def spec_room_def insert_lost_def)

lemma one_entry_inv: "age_inv (one_entry k v)" "unat (a_entries (one_entry k v)) = length (entries (one_entry k v))"
  "a_age (one_entry k v) < 0x7fffffff" "recency_of (one_entry k v) = [(k, v)]"
  by (simp_all add: one_entry_eq age_inv_def entries_def recency_of_def pair_of_def)

lemma one_entry_lost: "insert_lost (\<lambda>_. 0) key (one_entry k v)"
  by (simp add: one_entry_eq insert_lost_def spec_room_def spec_evict_def age_bound_def Let_def)

text \<open>A cache whose uninitialised \<open>age\<close> field happened to hold \<^verbatim>\<open>INT_MAX\<close>, with one pair.\<close>

lemma aged_cache:
  assumes "cstring k" and "length v < 2 ^ 64"
  shows "\<exists>c m. lru_rel c m \<lparr>a_buckets = [[\<lparr>e_key = k, e_val = v, e_age = 0x7fffffff\<rparr>]], a_capacity = 1,
    a_entries = 1, a_age = 0x80000000\<rparr>"
proof -
  obtain c m where c: "lru_rel c m (empty_abs 1)" "hash_ix c = (\<lambda>_. 0)" using one_slot_cache by blast
  let ?c = "c\<lparr>c_age := 0x7fffffff\<rparr>" and ?A = "(empty_abs 1)\<lparr>a_age := 0x7fffffff\<rparr>"
  obtain ass where R: "table_rel c m ass (empty_abs 1)" using c(1) by (auto simp: lru_rel_def)
  have "table_rel ?c m ass ?A" using table_relD(8,9) [OF R] by (intro table_rel_counters [OF R]) auto
  moreover have ix: "hash_ix ?c = (\<lambda>_. 0)" using hash_ix_cong [of ?c c] c(2) by simp
  moreover have "table_inv (\<lambda>_. 0) ?A" by (simp add: table_inv_def empty_abs_def)
  ultimately have "lru_rel ?c m ?A" using c(1) unfolding lru_rel_def by auto
  moreover have "unat (of_nat (length v) :: u64) = length v" using assms(2) by (simp add: unat_of_nat)
  ultimately show ?thesis
    using set_refines [of ?c m ?A zero_env k "of_nat (length v)" v] assms(1) zeroing_zero_env ix
    by (auto simp: spec_set_def empty_abs_def lookup_entry_def spec_insert_def spec_room_def insert_lost_def)
qed

section \<open>The cache as a whole\<close>

text \<open>C1. On an allocator that never fails and hands out zeroed memory (\<open>zeroing\<close>: the code never
  clears the table, the age and the link of a new item), a new cache of \<open>n\<close> entries, \<open>0 < n < 2\<^sup>6\<^sup>1\<close>
  (so that the size of the table does not wrap around), serves any sequence of up to \<^verbatim>\<open>INT_MAX\<close> calls
  of set, get and delete: no call dereferences a bad pointer, frees a block twice, overruns a buffer,
  deadlocks or loops, the memory stays the representation of the table that the bucket layer computes
  for the same calls, and the table never holds more than \<open>n\<close> entries.\<close>

theorem lru_ops_safe:
  assumes "zeroing E" and "n \<noteq> 0" and "unat n < 2 ^ 61" and "fresh m"
    and "list_all op_ok ops" and "length ops \<le> 0x7fffffff"
  shows "\<exists>c m1 c' m' A. LRUCacheNew E now n m = (Some c, m1) \<and> lru_run E ops (c, m1) = Some (c', m') \<and>
    A = fold (spec_op (hash_ix c)) ops (empty_abs n) \<and> lru_rel c' m' A \<and> length (entries A) \<le> unat n"
proof -
  obtain c m1 where N: "LRUCacheNew E now n m = (Some c, m1)" "lru_good c m1 (empty_abs n)"
    using lru_good_new [OF assms(1,2,4,3)] by blast
  let ?A = "fold (spec_op (hash_ix c)) ops (empty_abs n)"
  have "unat (a_age (empty_abs n)) + length ops \<le> 0x7fffffff" using assms(6) by (simp add: empty_abs_def)
  then obtain c' m' where R: "lru_run E ops (c, m1) = Some (c', m')" "lru_good c' m' ?A"
    using lru_run_good [OF N(2) assms(1,5)] by blast
  have "a_capacity ?A = n" by (simp add: empty_abs_def)
  then have "lru_rel c' m' ?A" "length (entries ?A) \<le> unat n" using R(2) by (auto simp: lru_good_def count_inv_def)
  then show ?thesis using N(1) R(1) by blast
qed

theorem lru_ops_safe_witness:
  "\<exists>c m1 c' m' A. LRUCacheNew zero_env 9 2 empty_mem = (Some c, m1) \<and>
    lru_run zero_env [Set_Op [97] [1], Set_Op [98] [2, 3], Get_Op [97], Set_Op [99] [], Delete_Op [98]] (c, m1) = Some (c', m') \<and>
    A = fold (spec_op (hash_ix c)) [Set_Op [97] [1], Set_Op [98] [2, 3], Get_Op [97], Set_Op [99] [], Delete_Op [98]] (empty_abs 2) \<and>
    lru_rel c' m' A \<and> length (entries A) \<le> unat (2 :: u64)"
  by (rule lru_ops_safe [OF zeroing_zero_env _ _ fresh_empty_mem]) (simp_all add: cstring_def)

section \<open>The operations as operations on a recency list\<close>

text \<open>C2. \<open>LRUCacheSet\<close> implements the textbook operation: an existing key gets the new value and
  becomes the most recent; a new key is appended, after the least recent pair has been dropped when
  the cache was full. This holds if \<open>malloc\<close> does not fail and returns zeroed memory (\<open>zeroing\<close>: the
  code never sets \<open>item->next\<close> of a new item), the entry counter is exact, fewer than \<^verbatim>\<open>INT_MAX\<close>
  stamps were given, the key is a C string and the value has the bytes its length says, and the item
  that insertion links behind is not the evicted one.\<close>

theorem LRUCacheSet_is_lru_set:
  assumes "lru_rel c m A" and "age_inv A" and "a_age A < 0x7fffffff" and "unat (a_entries A) = length (entries A)"
    and "zeroing E" and "cstring key" and "unat n \<le> length val"
    and "map_of (recency_of A) key = None \<longrightarrow> \<not> insert_lost (hash_ix c) key A"
  shows "\<exists>c' m' A'. LRUCacheSet E key val n (c, m) = Some (c', m') \<and> lru_rel c' m' A' \<and> age_inv A' \<and>
    recency_of A' = lru_set (unat (a_capacity A)) key (take (unat n) val) (recency_of A)"
proof -
  have inv: "table_inv (hash_ix c) A" using assms(1) by (simp add: lru_rel_def)
  have "recency_of (spec_set (hash_ix c) key (take (unat n) val) A) =
      lru_set (unat (a_capacity A)) key (take (unat n) val) (recency_of A)"
    using assms(8) by (intro spec_set_recency [OF inv assms(2,3) _ assms(4)]) blast
  then show ?thesis using set_refines [OF assms(1,5-7)] age_inv_set [OF inv assms(2,3)] by blast
qed

theorem LRUCacheSet_is_lru_set_witness:
  "\<exists>c m c' m' A'. LRUCacheSet zero_env [97] [5, 6] 2 (c, m) = Some (c', m') \<and> lru_rel c m (one_entry [97] [1]) \<and>
    lru_rel c' m' A' \<and> age_inv A' \<and> recency_of A' = [([97], [5, 6])]"
proof -
  obtain c m where c: "lru_rel c m (one_entry [97] [1])" using one_entry_cache [of "[97]" "[1]"] by (auto simp: cstring_def)
  then obtain c' m' A' where "LRUCacheSet zero_env [97] [5, 6] 2 (c, m) = Some (c', m')" "lru_rel c' m' A'"
    "age_inv A'" "recency_of A' = [([97], [5, 6])]"
    using LRUCacheSet_is_lru_set [OF c one_entry_inv(1,3,2) zeroing_zero_env, of "[97]" 2 "[5, 6]"]
    by (auto simp: cstring_def one_entry_inv(4) lru_set_def lru_touch_def)
  then show ?thesis using c by blast
qed

text \<open>C5. \<open>LRUCacheGet\<close> implements the textbook lookup: for a stored key it returns \<open>LRU_CACHE_OK\<close>, a
  pointer to the stored bytes and their length, and the pair becomes the most recent; for any other key
  it returns \<open>LRU_CACHE_KEY_MISSING\<close>, a null pointer and length 0, and nothing changes.\<close>

theorem LRUCacheGet_is_lru_get:
  assumes "lru_rel c m A" and "age_inv A" and "a_age A < 0x7fffffff"
  shows "\<exists>r v l c' m' A'. LRUCacheGet key (c, m) = Some (r, v, l, c', m') \<and> lru_rel c' m' A' \<and> age_inv A' \<and>
    recency_of A' = snd (lru_get key (recency_of A)) \<and>
    (case fst (lru_get key (recency_of A)) of
       None \<Rightarrow> r = LRU_CACHE_KEY_MISSING \<and> v = Null \<and> l = 0 \<and> c' = c \<and> m' = m
     | Some bs \<Rightarrow> r = LRU_CACHE_OK \<and> get_block v m' = Some bs \<and> unat l = length bs)"
proof -
  have inv: "table_inv (hash_ix c) A" using assms(1) by (simp add: lru_rel_def)
  show ?thesis
    using get_refines [OF assms(1), of key] age_inv_get [OF inv assms(2,3)] spec_get_recency [OF inv assms(2), of key]
    by (auto simp: spec_get_recency(1) [OF inv assms(2)]) blast
qed

theorem LRUCacheGet_is_lru_get_witness:
  "\<exists>c m r v l c' m'. lru_rel c m (one_entry [97] [1, 2]) \<and> LRUCacheGet [97] (c, m) = Some (r, v, l, c', m') \<and>
    r = LRU_CACHE_OK \<and> get_block v m' = Some [1, 2] \<and> unat l = 2"
proof -
  obtain c m where c: "lru_rel c m (one_entry [97] [1, 2])"
    using one_entry_cache [of "[97]" "[1, 2]"] by (auto simp: cstring_def)
  then obtain v l c' m' where "LRUCacheGet [97] (c, m) = Some (LRU_CACHE_OK, v, l, c', m')"
    "get_block v m' = Some [1, 2]" "unat l = 2"
    using LRUCacheGet_is_lru_get [OF c one_entry_inv(1,3), of "[97]"] by (auto simp: one_entry_inv(4) lru_get_def)
  then show ?thesis using c by blast
qed

text \<open>C6. \<open>LRUCacheDelete\<close> removes exactly the pair of the key, keeps the order of the others, and
  reports \<open>LRU_CACHE_OK\<close> exactly if the key was stored. But it does not decrement
  \<open>current_entries\<close>: after a successful delete the counter exceeds the number of stored pairs, and
  stays so.\<close>

theorem LRUCacheDelete_is_lru_delete:
  assumes "lru_rel c m A" and "age_inv A"
  shows "\<exists>r c' m' A'. LRUCacheDelete key (c, m) = Some (r, c', m') \<and> lru_rel c' m' A' \<and> age_inv A' \<and>
    recency_of A' = lru_delete key (recency_of A) \<and>
    (r = LRU_CACHE_OK \<longleftrightarrow> map_of (recency_of A) key \<noteq> None) \<and>
    c_current_entries c' = c_current_entries c"
proof -
  have inv: "table_inv (hash_ix c) A" using assms(1) by (simp add: lru_rel_def)
  obtain r c' m' where d: "LRUCacheDelete key (c, m) = Some (r, c', m')"
    "lru_rel c' m' (snd (spec_delete (hash_ix c) key A))" "r = LRU_CACHE_OK \<longleftrightarrow> fst (spec_delete (hash_ix c) key A)"
    using delete_refines [OF assms(1), of key] by blast
  have "c_current_entries c' = a_entries (snd (spec_delete (hash_ix c) key A))" "c_current_entries c = a_entries A"
    using d(2) assms(1) by (auto simp: lru_rel_def dest: table_relD(9))
  then have "c_current_entries c' = c_current_entries c" by (simp add: spec_delete_def split: option.split)
  then show ?thesis using d spec_delete_recency [OF inv assms(2), of key] by blast
qed

theorem LRUCacheDelete_is_lru_delete_witness:
  "\<exists>c m c' m' A'. lru_rel c m (one_entry [97] [1]) \<and> LRUCacheDelete [97] (c, m) = Some (LRU_CACHE_OK, c', m') \<and>
    lru_rel c' m' A' \<and> recency_of A' = [] \<and> c_current_entries c' = 1"
proof -
  obtain c m where c: "lru_rel c m (one_entry [97] [1])" using one_entry_cache [of "[97]" "[1]"] by (auto simp: cstring_def)
  then have "c_current_entries c = 1" by (auto simp: lru_rel_def one_entry_eq dest: table_relD(9))
  then obtain c' m' A' where "LRUCacheDelete [97] (c, m) = Some (LRU_CACHE_OK, c', m')" "lru_rel c' m' A'"
    "recency_of A' = []" "c_current_entries c' = 1"
    using LRUCacheDelete_is_lru_delete [OF c one_entry_inv(1), of "[97]"] by (auto simp: one_entry_inv(4) lru_delete_def)
  then show ?thesis using c by blast
qed

text \<open>C7. What was set is found: if \<open>malloc\<close> does not fail and returns zeroed memory, a lookup right after
  \<open>LRUCacheSet\<close> returns the bytes that were stored, unless the insertion linked the new item behind an
  evicted one.\<close>

theorem LRUCacheSet_then_Get:
  assumes "lru_rel c m A" and "zeroing E" and "cstring key" and "unat n \<le> length val"
    and "lookup_entry key (a_buckets A ! hash_ix c key) = None \<longrightarrow> \<not> insert_lost (hash_ix c) key A"
  shows "\<exists>c1 m1 v l c' m'. LRUCacheSet E key val n (c, m) = Some (c1, m1) \<and>
    LRUCacheGet key (c1, m1) = Some (LRU_CACHE_OK, v, l, c', m') \<and>
    get_block v m' = Some (take (unat n) val) \<and> l = n"
proof -
  have inv: "table_inv (hash_ix c) A" using assms(1) by (simp add: lru_rel_def)
  let ?A = "spec_set (hash_ix c) key (take (unat n) val) A"
  obtain c1 m1 where s: "LRUCacheSet E key val n (c, m) = Some (c1, m1)" "lru_rel c1 m1 ?A" "hash_ix c1 = hash_ix c"
    using set_refines [OF assms(1-4)] by blast
  have "fst (spec_get (hash_ix c1) key ?A) = Some (take (unat n) val)"
    using spec_set_get [OF inv assms(5) [rule_format]] s(3) by simp
  then obtain v l c' m' where g: "LRUCacheGet key (c1, m1) = Some (LRU_CACHE_OK, v, l, c', m')"
    "get_block v m' = Some (take (unat n) val)" "unat l = unat n"
    using get_refines [OF s(2), of key] assms(4) by (auto simp: min_def)
  then show ?thesis using s(1) by (auto simp: word_unat_eq_iff)
qed

theorem LRUCacheSet_then_Get_witness:
  "\<exists>c m c1 m1 v l c' m'. lru_rel c m (one_entry [97] [1]) \<and> LRUCacheSet zero_env [97] [5, 6, 7] 2 (c, m) = Some (c1, m1) \<and>
    LRUCacheGet [97] (c1, m1) = Some (LRU_CACHE_OK, v, l, c', m') \<and> get_block v m' = Some [5, 6] \<and> l = 2"
proof -
  obtain c m where c: "lru_rel c m (one_entry [97] [1])" "hash_ix c = (\<lambda>_. 0)"
    using one_entry_cache [of "[97]" "[1]"] by (auto simp: cstring_def)
  then obtain c1 m1 v l c' m' where "LRUCacheSet zero_env [97] [5, 6, 7] 2 (c, m) = Some (c1, m1)"
    "LRUCacheGet [97] (c1, m1) = Some (LRU_CACHE_OK, v, l, c', m')" "get_block v m' = Some [5, 6]" "l = 2"
    using LRUCacheSet_then_Get [OF c(1) zeroing_zero_env, of "[97]" 2 "[5, 6, 7]"]
    by (auto simp: cstring_def one_entry_eq lookup_entry_def)
  then show ?thesis using c(1) by blast
qed

text \<open>C29. Where the cache loses an insertion: if the cache is full and the item to evict is the last one
  of the new key's bucket, then \<open>LRUCacheSet\<close> hangs the new item behind the evicted one, the call looks
  successful, and the very next lookup of the key reports \<open>LRU_CACHE_KEY_MISSING\<close>.\<close>

theorem LRUCacheSet_loses_insertion:
  assumes "lru_rel c m A" and "zeroing E" and "cstring key" and "unat n \<le> length val"
    and "a_buckets A ! hash_ix c key \<noteq> []" and "key \<notin> e_key ` set (a_buckets A ! hash_ix c key)"
    and "a_capacity A \<le> a_entries A" and "victim (entries A) None = Some (last (a_buckets A ! hash_ix c key))"
  shows "\<exists>c1 m1. LRUCacheSet E key val n (c, m) = Some (c1, m1) \<and>
    LRUCacheGet key (c1, m1) = Some (LRU_CACHE_KEY_MISSING, Null, 0, c1, m1)"
proof -
  have inv: "table_inv (hash_ix c) A" using assms(1) by (simp add: lru_rel_def)
  have lost: "insert_lost (hash_ix c) key A" using insert_lost_iff [OF inv] assms(5,7,8) by blast
  let ?A = "spec_set (hash_ix c) key (take (unat n) val) A"
  obtain c1 m1 where s: "LRUCacheSet E key val n (c, m) = Some (c1, m1)" "lru_rel c1 m1 ?A" "hash_ix c1 = hash_ix c"
    using set_refines [OF assms(1-4)] by blast
  have "fst (spec_get (hash_ix c1) key ?A) = None"
    using spec_set_lost_get [OF inv lost] assms(6) s(3) by (simp add: lookup_entry_None)
  then show ?thesis using get_refines [OF s(2), of key] s(1) by auto
qed

theorem LRUCacheSet_loses_insertion_witness:
  "\<exists>c m c1 m1. lru_rel c m (one_entry [97] [1]) \<and> LRUCacheSet zero_env [98] [2] 1 (c, m) = Some (c1, m1) \<and>
    LRUCacheGet [98] (c1, m1) = Some (LRU_CACHE_KEY_MISSING, Null, 0, c1, m1)"
proof -
  obtain c m where c: "lru_rel c m (one_entry [97] [1])" "hash_ix c = (\<lambda>_. 0)"
    using one_entry_cache [of "[97]" "[1]"] by (auto simp: cstring_def)
  then have "\<exists>c1 m1. LRUCacheSet zero_env [98] [2] 1 (c, m) = Some (c1, m1) \<and>
    LRUCacheGet [98] (c1, m1) = Some (LRU_CACHE_KEY_MISSING, Null, 0, c1, m1)"
    by (intro LRUCacheSet_loses_insertion [OF c(1) zeroing_zero_env])
       (simp_all add: cstring_def one_entry_eq entries_def age_bound_def)
  then show ?thesis using c(1) by blast
qed

section \<open>Eviction\<close>

text \<open>C8. On a table that holds at least one pair and whose age counter is at most \<^verbatim>\<open>INT_MAX\<close> (so that
  every stamp lies below it), \<open>LRUCacheRemoveLeastUsedItem\<close> removes the least recently used pair, exactly
  that one, and counts it. The removed item's key and value are freed;
  its structure is not: the set of allocated items is the same before and after.\<close>

theorem evicts_least_recent:
  assumes "table_rel c m ass A" and "table_inv (hash_ix c) A" and "age_inv A" and "a_age A \<le> 0x7fffffff"
    and "entries A \<noteq> []"
  shows "\<exists>c' m' ass' A'. LRUCacheRemoveLeastUsedItem (c, m) = Some (c', m') \<and> table_rel c' m' ass' A' \<and>
    recency_of A' = tl (recency_of A) \<and> c_current_entries c' = c_current_entries c - 1 \<and>
    dom (item_at m') = dom (item_at m)"
proof -
  obtain e where e: "victim (entries A) None = Some e" using victim_exists [OF assms(3-5)] by blast
  obtain c' m' ass' where ev: "LRUCacheRemoveLeastUsedItem (c, m) = Some (c', m')"
    "table_rel c' m' ass' (spec_evict (hash_ix c) A)" "dom (item_at m') = dom (item_at m)"
    using evict_rep [OF assms(1,2)] by blast
  have "recency_of (spec_evict (hash_ix c) A) = tl (recency_of A)" using spec_evict_recency [OF assms(2-4)] by blast
  moreover have "a_entries (spec_evict (hash_ix c) A) = a_entries A - 1" using e by (simp add: spec_evict_def entries_def)
  ultimately show ?thesis using ev table_relD(9) [OF ev(2)] table_relD(9) [OF assms(1)] by metis
qed

theorem evicts_least_recent_witness:
  "\<exists>c m c' m' ass' A'. lru_rel c m (one_entry [97] [1]) \<and> LRUCacheRemoveLeastUsedItem (c, m) = Some (c', m') \<and>
    table_rel c' m' ass' A' \<and> recency_of A' = [] \<and> c_current_entries c' = c_current_entries c - 1 \<and>
    dom (item_at m') = dom (item_at m)"
proof -
  obtain c m where c: "lru_rel c m (one_entry [97] [1])" using one_entry_cache [of "[97]" "[1]"] by (auto simp: cstring_def)
  then obtain ass where R: "table_rel c m ass (one_entry [97] [1])" "table_inv (hash_ix c) (one_entry [97] [1])"
    by (auto simp: lru_rel_def)
  obtain c' m' ass' A' where "LRUCacheRemoveLeastUsedItem (c, m) = Some (c', m')" "table_rel c' m' ass' A'"
    "recency_of A' = []" "c_current_entries c' = c_current_entries c - 1" "dom (item_at m') = dom (item_at m)"
    using evicts_least_recent [OF R one_entry_inv(1)] one_entry_inv(3) [of "[97]" "[1]"] one_entry_inv(4) [of "[97]" "[1]"]
    by (fastforce simp: one_entry_eq entries_def)
  then show ?thesis using c by blast
qed

text \<open>Where eviction stops: the scan starts with \<open>least_age = INT_MAX\<close>, so a cache all of whose items
  carry a stamp of at least \<^verbatim>\<open>INT_MAX\<close> evicts nothing, however full it is.\<close>

theorem old_items_never_evicted:
  assumes "table_rel c m ass A" and "table_inv (hash_ix c) A" and "list_all (\<lambda>e. 0x7fffffff \<le> e_age e) (entries A)"
  shows "LRUCacheRemoveLeastUsedItem (c, m) = Some (c, m)"
proof -
  have "victim (entries A) None = None" using assms(3) by (auto simp: victim_None list_all_iff)
  then show ?thesis using scan_table_rep [OF assms(1), of 0 least_init None] table_relD(1) [OF assms(1)]
    by (auto simp: LRUCacheRemoveLeastUsedItem_def least_rel_def least_init_def entries_def)
qed

theorem old_items_never_evicted_witness:
  "\<exists>c m A. lru_rel c m A \<and> a_capacity A = 1 \<and> recency_of A = [([97], [1])] \<and>
    LRUCacheRemoveLeastUsedItem (c, m) = Some (c, m)"
proof -
  let ?A = "\<lparr>a_buckets = [[\<lparr>e_key = [97], e_val = [1], e_age = 0x7fffffff\<rparr>]], a_capacity = 1, a_entries = 1, a_age = 0x80000000\<rparr>"
  obtain c m where c: "lru_rel c m ?A" using aged_cache [of "[97]" "[1]"] by (auto simp: cstring_def)
  then obtain ass where R: "table_rel c m ass ?A" "table_inv (hash_ix c) ?A" by (auto simp: lru_rel_def)
  have "LRUCacheRemoveLeastUsedItem (c, m) = Some (c, m)"
    using old_items_never_evicted [OF R] by (simp add: entries_def)
  moreover have "recency_of ?A = [([97], [1])]" by (simp add: recency_of_def entries_def pair_of_def)
  ultimately show ?thesis using c by fastforce
qed

section \<open>Creation, release, printing\<close>

text \<open>The index of a key lies in the table exactly if the table is not empty; for the empty table of
  \<open>LRUCacheNew(0)\<close> the index computation divides by zero.\<close>

theorem hash_index_in_table:
  "(\<exists>i. LRUCacheGetHashIndex c key = Some i \<and> i < c_hash_table_size c) \<longleftrightarrow> c_hash_table_size c \<noteq> 0"
  using hash_index_Some [of c key] by (auto simp: LRUCacheGetHashIndex_def Let_def split: prod.splits)

text \<open>\<open>LRUCacheNew\<close> relies on zeroed memory: if the bucket table it allocates happens to hold
  pointers to nowhere, which it never clears, the first lookup dereferences one of them.\<close>

theorem garbage_table_faults:
  assumes "LRUCacheNew E now n m = (Some c, m1)"
    and "\<forall>i. \<exists>a. m_slot E (Suc (brk m)) i = Ref a \<and> item_at m a = None"
  shows "LRUCacheGet key (c, m1) = None"
proof -
  have N: "c_hash_table_size c = n" "c_items c = map (m_slot E (Suc (brk m))) [0..<table_slots n]" "\<not> c_mutex c"
    "item_at m1 = item_at m"
    using assms(1) by (auto simp: LRUCacheNew_def Let_def split: if_splits)
  let ?c = "c\<lparr>c_mutex := True\<rparr>"
  have "find_item m1 key Null p = None" if slot: "array_get (c_items c) j = Some p" for j p
  proof -
    obtain a where "p = Ref a" "item_at m1 a = None"
      using slot assms(2) N(2,4) by (auto simp: array_get_def split: if_splits)
    then show ?thesis by (subst find_item.simps) (simp add: LRUCacheCompareKey_def get_item_def)
  qed
  then have "array_get (c_items c) j \<bind> find_item m1 key Null = None" for j
    by (cases "array_get (c_items c) j") auto
  then show ?thesis using N(3)
    by (cases "LRUCacheGetHashIndex ?c key") (simp_all add: LRUCacheGet_def lock_cache_def flip: bind_assoc)
qed

theorem garbage_table_faults_witness:
  "\<exists>c m1. LRUCacheNew (zero_env\<lparr>m_slot := (\<lambda>_ _. Ref 42)\<rparr>) 0 3 empty_mem = (Some c, m1) \<and>
    LRUCacheGet [97] (c, m1) = None"
proof -
  let ?E = "zero_env\<lparr>m_slot := (\<lambda>_ _. Ref 42)\<rparr>"
  obtain c m1 where "LRUCacheNew ?E 0 3 empty_mem = (Some c, m1)" by (simp add: LRUCacheNew_def Let_def zero_env_def)
  then show ?thesis using garbage_table_faults [of ?E 0 3 empty_mem c m1] by (simp add: empty_mem_def)
qed

text \<open>The size of the table is not checked: for \<open>2\<^sup>6\<^sup>1\<close> entries the product of \<open>size_t\<close> values is 0, the
  allocation of 0 bytes succeeds, and the first lookup reads a slot outside the table.\<close>

theorem huge_table_faults:
  assumes "LRUCacheNew E now (2 ^ 61) m = (Some c, m1)"
  shows "c_hash_table_size c = 2 ^ 61 \<and> c_items c = [] \<and> LRUCacheGet key (c, m1) = None"
proof -
  have "table_slots (2 ^ 61) = 0" by (simp add: table_slots_def)
  then have N: "c_hash_table_size c = 2 ^ 61" "c_items c = []" "\<not> c_mutex c"
    using assms by (auto simp: LRUCacheNew_def Let_def split: if_splits)
  then show ?thesis
    by (cases "LRUCacheGetHashIndex (c\<lparr>c_mutex := True\<rparr>) key") (simp_all add: LRUCacheGet_def lock_cache_def array_get_def)
qed

theorem huge_table_faults_witness:
  "\<exists>c m1. LRUCacheNew zero_env 0 (2 ^ 61) empty_mem = (Some c, m1) \<and> LRUCacheGet [97] (c, m1) = None"
proof -
  obtain c m1 where "LRUCacheNew zero_env 0 (2 ^ 61) empty_mem = (Some c, m1)" by (simp add: LRUCacheNew_def Let_def zero_env_def)
  then show ?thesis using huge_table_faults by blast
qed

text \<open>\<open>LRUCacheFree\<close> returns and releases every item of the table together with its key and its
  value, each once, and nothing else.\<close>

theorem LRUCacheFree_releases_items:
  assumes "table_rel c m ass A"
  shows "\<exists>m'. LRUCacheFree (c, m) = Some m' \<and>
    dom (item_at m') = dom (item_at m) - nodes ass \<and>
    dom (block_at m') = dom (block_at m) - (\<Union>a \<in> nodes ass. own m a)"
proof -
  have "LRUCacheFree (c, m) = Some (without m (nodes ass))"
    using free_table_rep [OF assms, of 0] table_relD(1) [OF assms] by (simp add: LRUCacheFree_def nodes_def)
  then show ?thesis by (auto simp: without_def)
qed

theorem LRUCacheFree_releases_items_witness:
  "\<exists>c m ass m'. table_rel c m ass (one_entry [97] [1]) \<and> nodes ass \<noteq> {} \<and> LRUCacheFree (c, m) = Some m' \<and>
    dom (item_at m') = dom (item_at m) - nodes ass"
proof -
  obtain c m ass where R: "table_rel c m ass (one_entry [97] [1])"
    using one_entry_cache [of "[97]" "[1]"] by (auto simp: cstring_def lru_rel_def)
  have "bucket_rep m (c_items c ! 0) (ass ! 0) (a_buckets (one_entry [97] [1]) ! 0)" "0 < length ass"
    using table_relD(4) [OF R] table_relD(5) [OF R, of 0] by auto
  then have "ass ! 0 \<noteq> []" "ass ! 0 \<in> set ass" unfolding one_entry_eq bucket_rep_def by auto
  then have "nodes ass \<noteq> {}" by (auto simp: nodes_def)
  then show ?thesis using LRUCacheFree_releases_items [OF R] R by metis
qed

text \<open>\<open>LRUCacheDump\<close> prints every stored pair's key and age once, bucket by bucket, numbered from 0.\<close>

theorem LRUCacheDump_lists_entries:
  assumes "lru_rel c m A"
  shows "LRUCacheDump (c, m) = Some (map (\<lambda>(i, e). (i, e_key e, e_age e)) (List.enumerate 0 (entries A)))"
proof -
  obtain ass where R: "table_rel c m ass A" using assms by (auto simp: lru_rel_def)
  then show ?thesis using dump_table_rep [OF R, of 0 "[]"] table_relD(1) [OF R] by (simp add: LRUCacheDump_def entries_def)
qed

theorem LRUCacheDump_lists_entries_witness:
  "\<exists>c m. lru_rel c m (one_entry [97] [1]) \<and> LRUCacheDump (c, m) = Some [(0, [97], 0)]"
proof -
  obtain c m where "lru_rel c m (one_entry [97] [1])" using one_entry_cache [of "[97]" "[1]"] by (auto simp: cstring_def)
  moreover from this have "LRUCacheDump (c, m) = Some [(0, [97], 0)]"
    by (simp add: LRUCacheDump_lists_entries one_entry_eq entries_def)
  ultimately show ?thesis by blast
qed

end
