(* ===== verification/Posix_Io.thy ===== *)
theory Posix_Io
  imports C_Prelude
begin

text \<open>
  What the small Unix programs use of the system and of \<^verbatim>\<open>stdio\<close>.

  A program or a part of it is a function on the output written so far that returns a \<open>run\<close>: it went
  on, it ended with an exit status, it is blocked, or it did something undefined. A file descriptor is
  the list of answers its \<^verbatim>\<open>read\<close> calls get (\<open>rd\<close>); when the list is used up, the next read
  blocks. A \<^verbatim>\<open>FILE\<close> is the bytes that \<^verbatim>\<open>fgetc\<close> still delivers and whether their end is an error.
  The answers of \<^verbatim>\<open>open\<close>, \<^verbatim>\<open>fopen\<close>, \<^verbatim>\<open>write\<close> and \<^verbatim>\<open>close\<close> are arguments.
\<close>

section \<open>Runs\<close>

datatype 's run = Continue 's | Exit nat 's | Hang 's | Crash

fun run_bind :: "'s run \<Rightarrow> ('s \<Rightarrow> 't run) \<Rightarrow> ('s \<Rightarrow> 't) \<Rightarrow> 't run" where
  "run_bind (Continue s) f g = f s"
| "run_bind (Exit n s) f g = Exit n (g s)"
| "run_bind (Hang s) f g = Hang (g s)"
| "run_bind Crash f g = Crash"

abbreviation and_run :: "'s run \<Rightarrow> ('s \<Rightarrow> 's run) \<Rightarrow> 's run" where
  "and_run r f \<equiv> run_bind r f id"

text \<open>Falling off the end of \<open>main\<close>, or \<open>return 0\<close>.\<close>

definition return_0 :: "'s \<Rightarrow> 's run" where
  "return_0 s = Exit 0 s"

lemma and_run_assoc [simp]: "and_run (and_run r f) g = and_run r (\<lambda>s. and_run (f s) g)"
  by (cases r) auto

lemma and_run_Continue [simp]: "and_run r Continue = r"
  by (cases r) auto

text \<open>\<open>for (int i = ...; i < argc; ++i)\<close> over the file names of the command line.\<close>

fun each_file :: "('n \<Rightarrow> 's \<Rightarrow> 's run) \<Rightarrow> 'n list \<Rightarrow> 's \<Rightarrow> 's run" where
  "each_file body [] s = Continue s"
| "each_file body (x # xs) s = and_run (body x s) (each_file body xs)"

lemma each_file_append: "each_file body (xs @ ys) s = and_run (each_file body xs s) (each_file body ys)"
proof (induction xs arbitrary: s)
  case (Cons x xs)
  then show ?case by (cases "body x s") simp_all
qed simp

section \<open>Input\<close>

datatype rd = Got "byte list" | Eof | Err bool

text \<open>\<open>Err True\<close> is \<open>EINTR\<close>. A successful read delivers between one byte and what was asked for.\<close>

definition rd_ok :: "nat \<Rightarrow> rd \<Rightarrow> bool" where
  "rd_ok n r = (case r of Got bs \<Rightarrow> bs \<noteq> [] \<and> length bs \<le> n | _ \<Rightarrow> True)"

fun data_of :: "rd list \<Rightarrow> byte list" where
  "data_of [] = []"
| "data_of (Got bs # rs) = bs @ data_of rs"
| "data_of (Eof # rs) = []"
| "data_of (Err e # rs) = data_of rs"

record FILE =
  f_data :: "byte list"
  f_error :: bool

type_synonym file_name = "byte list"
type_synonym file_system = "file_name \<Rightarrow> FILE option"

section \<open>Bytes of text\<close>

abbreviation newline :: byte where
  "newline \<equiv> 10"

text \<open>Decimal numbers: \<^verbatim>\<open>%zu\<close>, \<^verbatim>\<open>%d\<close> and \<^verbatim>\<open>%5zd\<close>.\<close>

fun decimal :: "nat \<Rightarrow> byte list" where
  "decimal n = (if n < 10 then [48 + of_nat n] else decimal (n div 10) @ [48 + of_nat (n mod 10)])"

declare decimal.simps [simp del]

definition signed_decimal :: "int \<Rightarrow> byte list" where
  "signed_decimal i = (if i < 0 then [45] else []) @ decimal (nat \<bar>i\<bar>)"

definition padded :: "nat \<Rightarrow> nat \<Rightarrow> byte list" where
  "padded w n = replicate (w - length (decimal n)) 32 @ decimal n"

text \<open>The lines of a text: each but the last ends with its newline; a last line without one counts.\<close>

fun lines_of :: "byte list \<Rightarrow> byte list list" where
  "lines_of [] = []"
| "lines_of (b # bs) =
     (if b = newline then [b] # lines_of bs
      else case lines_of bs of [] \<Rightarrow> [[b]] | l # ls \<Rightarrow> (b # l) # ls)"

lemma concat_lines_of [simp]: "concat (lines_of bs) = bs"
  by (induction bs) (auto split: list.splits)

lemma lines_of_nonempty: "l \<in> set (lines_of bs) \<Longrightarrow> l \<noteq> []"
  by (induction bs arbitrary: l) (auto split: list.splits if_splits)

lemma lines_of_Nil [simp]: "lines_of bs = [] \<longleftrightarrow> bs = []"
  by (cases bs) (auto split: list.splits)

lemma lines_of_line [simp]:
  "newline \<notin> set l \<Longrightarrow> lines_of (l @ newline # bs) = (l @ [newline]) # lines_of bs"
  by (induction l) auto

lemma lines_of_last: "newline \<notin> set l \<Longrightarrow> l \<noteq> [] \<Longrightarrow> lines_of l = [l]"
proof (induction l)
  case (Cons b l)
  then show ?case by (cases "l = []") simp_all
qed simp

text \<open>Every text is full lines followed by a rest without newline.\<close>

lemma text_cases:
  obtains (rest) "newline \<notin> set bs" | (line) l r where "bs = l @ newline # r" "newline \<notin> set l"
  by (metis split_list_first)

lemma text_induct [case_names rest line]:
  assumes "\<And>bs. newline \<notin> set bs \<Longrightarrow> P bs"
    and "\<And>l bs. newline \<notin> set l \<Longrightarrow> P bs \<Longrightarrow> P (l @ newline # bs)"
  shows "P bs"
proof (induction bs rule: length_induct)
  case (1 bs)
  show ?case
  proof (cases bs rule: text_cases)
    case rest
    then show ?thesis by (rule assms(1))
  next
    case (line l r)
    then show ?thesis using 1 assms(2) by simp
  qed
qed

lemma lines_of_count: "count_list bs newline = length (filter (\<lambda>l. last l = newline) (lines_of bs))"
proof (induction bs rule: text_induct)
  case (rest bs)
  then have "count_list bs newline = 0" by (simp add: count_list_0_iff)
  moreover have "bs \<noteq> [] \<Longrightarrow> last bs \<noteq> newline" using rest last_in_set by metis
  ultimately show ?case using rest by (cases "bs = []") (simp_all add: lines_of_last)
next
  case (line l bs)
  moreover from this have "count_list l newline = 0" by (simp add: count_list_0_iff)
  ultimately show ?case by simp
qed

section \<open>C strings in buffers\<close>

text \<open>The string at an offset of a buffer, and \<^verbatim>\<open>strcmp\<close> of the strings at the start of two buffers.\<close>

definition str_at :: "byte list \<Rightarrow> nat \<Rightarrow> byte list option" where
  "str_at buf p = map_option (\<lambda>n. take n (drop p buf)) (strlen (drop p buf))"

fun strcmp :: "byte list \<Rightarrow> byte list \<Rightarrow> int option" where
  "strcmp (x # xs) (y # ys) =
     (if x \<noteq> y then Some (if x < y then - 1 else 1) else if x = 0 then Some 0 else strcmp xs ys)"
| "strcmp _ _ = None"

lemma str_at_cstring [simp]: "cstring w \<Longrightarrow> length u = p \<Longrightarrow> str_at (u @ w @ 0 # r) p = Some w"
  by (simp add: str_at_def)

lemma str_at_Some: "str_at buf p = Some w \<longleftrightarrow> cstring w \<and> (\<exists>r. drop p buf = w @ 0 # r)"
proof
  assume "str_at buf p = Some w"
  then obtain n where n: "strlen (drop p buf) = Some n" "w = take n (drop p buf)" by (auto simp: str_at_def)
  then have "n < length (drop p buf)" "drop p buf ! n = 0" "cstring w" using strlen_SomeD [OF n(1)] by simp_all
  then show "cstring w \<and> (\<exists>r. drop p buf = w @ 0 # r)" using n(2) id_take_nth_drop by metis
qed (auto simp: str_at_def)

lemma strcmp_eq: "cstring x \<Longrightarrow> cstring y \<Longrightarrow> \<exists>c. strcmp (x @ 0 # r) (y @ 0 # r') = Some c \<and> (c = 0 \<longleftrightarrow> x = y)"
proof (induction x arbitrary: y)
  case Nil
  then show ?case by (cases y) (auto simp: cstring_def)
next
  case (Cons a x)
  then show ?case by (cases y) (auto simp: cstring_def)
qed

text \<open>The pieces of a text between separators.\<close>

fun split_on :: "('a \<Rightarrow> bool) \<Rightarrow> 'a list \<Rightarrow> 'a list list" where
  "split_on P [] = [[]]"
| "split_on P (x # xs) =
     (if P x then [] # split_on P xs
      else case split_on P xs of [] \<Rightarrow> [[x]] | w # ws \<Rightarrow> (x # w) # ws)"

lemma split_on_piece [simp]: "\<forall>x \<in> set w. \<not> P x \<Longrightarrow> P d \<Longrightarrow> split_on P (w @ d # xs) = w # split_on P xs"
  by (induction w) auto

lemma split_on_last [simp]: "\<forall>x \<in> set w. \<not> P x \<Longrightarrow> split_on P w = [w]"
  by (induction w) auto

section \<open>Programs that treat one file after the other\<close>

text \<open>
  The contract of a loop body over files: on a good file it goes on and has appended the file's result
  to the output, on any other it does not go on, and does not end the program with status 0. Then the
  loop's status and output are determined by the first file that is not good.
\<close>

locale file_filter =
  fixes body :: "'n \<Rightarrow> byte list \<Rightarrow> byte list run"
    and good :: "'n \<Rightarrow> bool"
    and result :: "'n \<Rightarrow> byte list"
  assumes body_good: "good x \<Longrightarrow> body x out = Continue (out @ result x)"
    and body_bad: "\<not> good x \<Longrightarrow> body x out \<noteq> Continue s \<and> body x out \<noteq> Exit 0 s"
begin

lemma all_good: "list_all good xs \<Longrightarrow> each_file body xs out = Continue (out @ concat (map result xs))"
  by (induction xs arbitrary: out) (simp_all add: body_good)

lemma first_bad:
  assumes "list_all good xs" and "\<not> good y"
  shows "each_file body (xs @ y # ys) out = body y (out @ concat (map result xs))"
  using all_good [OF assms(1), of out] body_bad [OF assms(2)]
  by (cases "body y (out @ concat (map result xs))") (auto simp: each_file_append)

lemma status: "and_run (each_file body xs out) return_0 = Exit 0 out' \<longleftrightarrow>
    list_all good xs \<and> out' = out @ concat (map result xs)"
proof (cases "list_all good xs")
  case True
  then show ?thesis by (auto simp: all_good return_0_def)
next
  case False
  then have "\<exists>y \<in> set xs. \<not> good y" by (simp add: list_all_iff)
  then obtain as z bs where "xs = as @ z # bs" "\<not> good z" "\<forall>y \<in> set as. good y"
    using split_list_first_prop [of xs "\<lambda>y. \<not> good y"] by blast
  then have "each_file body xs out = body z (out @ concat (map result as))" using first_bad [of as z bs out] by (simp add: list_all_iff)
  then show ?thesis using body_bad [OF \<open>\<not> good z\<close>, of "out @ concat (map result as)"] False
    by (cases "body z (out @ concat (map result as))") (auto simp: return_0_def)
qed

end

end
