(* ===== verification/Lru_Test.thy ===== *)
theory Lru_Test
  imports Lru_Properties Posix_Io
begin

text \<open>
  The test program of the LRU cache, \<^verbatim>\<open>src/lru_cache01/test.c\<close>, as a client of the functions of \<open>Lru_Cache\<close>. A failed assertion
  ends the program with the status of \<^verbatim>\<open>SIGABRT\<close>; a call without a defined result is \<open>Crash\<close>.
\<close>

section \<open>test.c\<close>

definition call :: "'a option \<Rightarrow> ('a \<Rightarrow> 's run) \<Rightarrow> 's run" where
  "call r k = (case r of None \<Rightarrow> Crash | Some x \<Rightarrow> k x)"

definition assert_c :: "bool \<Rightarrow> byte list run \<Rightarrow> byte list run" where
  "assert_c b k = (if b then k else Exit 134 [])"

text \<open>The keys, the values and their bytes in memory.\<close>

abbreviation key1 :: "byte list" where "key1 \<equiv> [49]"
abbreviation key2 :: "byte list" where "key2 \<equiv> [50]"
abbreviation key3 :: "byte list" where "key3 \<equiv> [51]"

definition value1 :: "byte list" where "value1 = [0xef, 0xbe, 0xad, 0xde]"
definition value2 :: "byte list" where "value2 = [42, 0, 0, 0]"
definition value3 :: "byte list" where "value3 = [77, 0, 0, 0]"

definition lru_test_main :: "malloc_env \<Rightarrow> u64 \<Rightarrow> lru_mem \<Rightarrow> byte list run" where
  "lru_test_main E now m =
     (case LRUCacheNew E now 2 m of
        (None, m) \<Rightarrow> Crash
      | (Some c, m) \<Rightarrow>
        call (LRUCacheSet E key1 value1 4 (c, m)) (\<lambda>s.
        call (LRUCacheSet E key2 value2 4 s) (\<lambda>s.
        call (LRUCacheGet key1 s) (\<lambda>(error, v, v_size, s).
        assert_c (error = LRU_CACHE_OK) (
        call (get_block v (snd s)) (\<lambda>bs.
        call (if length bs < 4 then None else Some (take 4 bs)) (\<lambda>bs.
        assert_c (bs = value1) (
        assert_c (v_size = 4) (
        call (LRUCacheSet E key3 value3 4 s) (\<lambda>s.
        call (LRUCacheGet key2 s) (\<lambda>(error, v2, v_size, s).
        assert_c (error = LRU_CACHE_KEY_MISSING) (
        assert_c (v2 = Null) (
        call (LRUCacheDelete key3 s) (\<lambda>(error, s).
        assert_c (error = LRU_CACHE_OK) (
        call (LRUCacheDelete key3 s) (\<lambda>(error, s).
        assert_c (error = LRU_CACHE_KEY_MISSING) (
        call (LRUCacheFree s) (\<lambda>m.
        Exit 0 (bytes ''OK'' @ [newline])))))))))))))))))))"

section \<open>The same calls on the abstract table\<close>

definition test_table :: "(byte list \<Rightarrow> nat) \<Rightarrow> lru_abs" where
  "test_table ix = spec_set ix key2 value2 (spec_set ix key1 value1 (empty_abs 2))"

definition test_full :: "(byte list \<Rightarrow> nat) \<Rightarrow> lru_abs" where
  "test_full ix = spec_set ix key3 value3 (snd (spec_get ix key1 (test_table ix)))"

lemma test_specs:
  assumes "\<And>k. ix k < 2"
  shows "fst (spec_get ix key1 (test_table ix)) = Some value1"
    and "fst (spec_get ix key2 (test_full ix)) = None"
    and "fst (spec_delete ix key3 (test_full ix)) \<longleftrightarrow> ix key2 \<noteq> ix key3"
    and "\<not> fst (spec_delete ix key3 (snd (spec_delete ix key3 (test_full ix))))"
proof -
  have two: "ix k = 0 \<or> ix k = 1" for k using assms [of k] by auto
  have "unat (2 :: u64) = Suc (Suc 0)" by simp
  then have e: "empty_abs 2 = \<lparr>a_buckets = [[], []], a_capacity = 2, a_entries = 0, a_age = 0\<rparr>"
    by (simp only: empty_abs_def replicate.simps)
  have n: "\<not> (2 :: u64) \<le> 1" by (simp add: word_le_nat_alt)
  note d = e n test_table_def test_full_def spec_set_def spec_get_def spec_delete_def spec_insert_def spec_room_def spec_evict_def
    insert_lost_def lookup_entry_def age_bound_def Let_def
  show "fst (spec_get ix key1 (test_table ix)) = Some value1"
    using two [of key1] two [of key2] by (elim disjE) (simp_all add: d)
  show "fst (spec_get ix key2 (test_full ix)) = None"
    using two [of key1] two [of key2] two [of key3] by (elim disjE) (simp_all add: d)
  show "fst (spec_delete ix key3 (test_full ix)) \<longleftrightarrow> ix key2 \<noteq> ix key3"
    using two [of key1] two [of key2] two [of key3] by (elim disjE) (simp_all add: d)
  show "\<not> fst (spec_delete ix key3 (snd (spec_delete ix key3 (test_full ix))))"
    using two [of key1] two [of key2] two [of key3] by (elim disjE) (simp_all add: d)
qed

text \<open>The cache can be freed, whatever it holds.\<close>

lemma free_returns: "lru_rel c m A \<Longrightarrow> \<exists>m'. LRUCacheFree (c, m) = Some m'"
proof -
  assume "lru_rel c m A"
  then obtain ass where R: "table_rel c m ass A" by (auto simp: lru_rel_def)
  then show ?thesis using free_table_rep [OF R, of 0] table_relD(1) [OF R] by (simp add: LRUCacheFree_def nodes_def)
qed

lemma call_Some [simp]: "call (Some x) k = k x"
  by (simp add: call_def)

section \<open>What the test shows\<close>

text \<open>C24. The test program of the cache passes only by luck of the hash: on zeroed memory it prints \<^verbatim>\<open>OK\<close> exactly if the keys
  \<^verbatim>\<open>2\<close> and \<^verbatim>\<open>3\<close> have different slots in the table of two slots, which depends on the seed, the time of day. Otherwise key \<^verbatim>\<open>3\<close> is linked behind the item of key \<^verbatim>\<open>2\<close> that
  was just evicted, and the assertion that it can be deleted fails. No call of the test is undefined.\<close>

theorem lru_test_outcome:
  assumes "zeroing E" and "fresh m"
  shows "\<exists>c m1. LRUCacheNew E now 2 m = (Some c, m1) \<and>
    lru_test_main E now m = (if hash_ix c key2 \<noteq> hash_ix c key3 then Exit 0 (bytes ''OK'' @ [newline]) else Exit 134 [])"
proof -
  obtain c m1 where new: "LRUCacheNew E now 2 m = (Some c, m1)" "lru_rel c m1 (empty_abs 2)"
    using new_refines [OF assms(1) _ assms(2), of 2 now] by auto
  let ?ix = "hash_ix c"
  have "c_hash_table_size c = 2" using new(1) by (auto simp: LRUCacheNew_def Let_def split: if_splits)
  then have "?ix k < 2" for k using hash_ix_less [of c k] by simp
  note t = test_specs [of ?ix, OF this]
  have four: "unat (4 :: u64) = 4" "length value1 = 4" "length value2 = 4" "length value3 = 4"
    by (simp_all add: value1_def value2_def value3_def)
  have k: "cstring key1" "cstring key2" "cstring key3" by (simp_all add: cstring_def)
  obtain c2 m2 where s1: "LRUCacheSet E key1 value1 4 (c, m1) = Some (c2, m2)"
    "lru_rel c2 m2 (spec_set ?ix key1 value1 (empty_abs 2))" "hash_ix c2 = ?ix"
    using set_refines [OF new(2) assms(1) k(1), of 4 value1] four by auto
  obtain c3 m3 where s2: "LRUCacheSet E key2 value2 4 (c2, m2) = Some (c3, m3)"
    "lru_rel c3 m3 (test_table ?ix)" "hash_ix c3 = ?ix"
    using set_refines [OF s1(2) assms(1) k(2), of 4 value2] four s1(3) by (auto simp: test_table_def)
  obtain v l c4 m4 where g1: "LRUCacheGet key1 (c3, m3) = Some (LRU_CACHE_OK, v, l, c4, m4)"
    "lru_rel c4 m4 (snd (spec_get ?ix key1 (test_table ?ix)))" "hash_ix c4 = ?ix" "get_block v m4 = Some value1" "unat l = length value1"
    using get_refines [OF s2(2), of key1] s2(3) t(1) by auto
  obtain c5 m5 where s3: "LRUCacheSet E key3 value3 4 (c4, m4) = Some (c5, m5)" "lru_rel c5 m5 (test_full ?ix)" "hash_ix c5 = ?ix"
    using set_refines [OF g1(2) assms(1) k(3), of 4 value3] four g1(3) by (auto simp: test_full_def)
  have g2: "LRUCacheGet key2 (c5, m5) = Some (LRU_CACHE_KEY_MISSING, Null, 0, c5, m5)"
    using get_refines [OF s3(2), of key2] s3(3) t(2) by auto
  obtain r c6 m6 where d1: "LRUCacheDelete key3 (c5, m5) = Some (r, c6, m6)"
    "lru_rel c6 m6 (snd (spec_delete ?ix key3 (test_full ?ix)))" "hash_ix c6 = ?ix" "r = LRU_CACHE_OK \<longleftrightarrow> ?ix key2 \<noteq> ?ix key3"
    using delete_refines [OF s3(2), of key3] s3(3) t(3) by auto
  obtain r' c7 m7 where d2: "LRUCacheDelete key3 (c6, m6) = Some (r', c7, m7)"
    "lru_rel c7 m7 (snd (spec_delete ?ix key3 (snd (spec_delete ?ix key3 (test_full ?ix)))))" "r' \<noteq> LRU_CACHE_OK"
    using delete_refines [OF d1(2), of key3] d1(3) t(4) by auto
  have "r' = LRU_CACHE_KEY_MISSING" using d2(3) by (cases r') auto
  moreover obtain m8 where "LRUCacheFree (c7, m7) = Some m8" using free_returns [OF d2(2)] by blast
  moreover have "l = 4" using g1(5) four(1,2) by (simp add: word_unat_eq_iff)
  ultimately have "lru_test_main E now m = (if ?ix key2 \<noteq> ?ix key3 then Exit 0 (bytes ''OK'' @ [newline]) else Exit 134 [])"
    using new(1) s1(1) s2(1) g1(1,4) s3(1) g2 d1(1,4) d2(1) four
    by (simp add: lru_test_main_def assert_c_def)
  then show ?thesis using new(1) by blast
qed

text \<open>Two seconds of the clock: on the first the test passes, four seconds later it fails.\<close>

definition seeded :: "u64 \<Rightarrow> LRUCache" where
  "seeded now = \<lparr>c_items = [Null, Null], c_hash_table_size = 2, c_capacity = 2, c_current_entries = 0, c_age = 0, c_seed = now, c_mutex = False\<rparr>"

lemma seeded_slots:
  "LRUCacheGetHashIndex (seeded 1700000000) key2 = Some 1" "LRUCacheGetHashIndex (seeded 1700000000) key3 = Some 0"
  "LRUCacheGetHashIndex (seeded 1700000004) key2 = Some 1" "LRUCacheGetHashIndex (seeded 1700000004) key3 = Some 1"
  by code_simp+

lemma new_seeded: "fst (LRUCacheNew zero_env now 2 empty_mem) = Some (seeded now)"
proof -
  have "table_slots 2 = Suc (Suc 0)" by (simp add: table_slots_def)
  then have "map (\<lambda>_. Null) [0..<table_slots 2] = [Null, Null]" by simp
  then show ?thesis by (simp add: LRUCacheNew_def Let_def zero_env_def empty_mem_def seeded_def)
qed

theorem lru_test_outcome_witness:
  "lru_test_main zero_env 1700000000 empty_mem = Exit 0 (bytes ''OK'' @ [newline]) \<and>
   lru_test_main zero_env 1700000004 empty_mem = Exit 134 []"
  using lru_test_outcome [OF zeroing_zero_env fresh_empty_mem, of 1700000000]
    lru_test_outcome [OF zeroing_zero_env fresh_empty_mem, of 1700000004]
    new_seeded [of 1700000000] new_seeded [of 1700000004]
  by (auto simp: hash_ix_def seeded_slots)

end
