(* ===== verification/Job_Queue.thy ===== *)
theory Job_Queue
  imports C_Prelude
begin

text \<open>
  The semaphore and the job queue of \<^verbatim>\<open>src/thread_pool02\<close> (\<^verbatim>\<open>semaphore.c\<close>, \<^verbatim>\<open>job_queue.c\<close>), and
  the interface of a first-in first-out queue of linked nodes that both thread pools rely on.

  A job is a node in a store; \<open>malloc\<close> is an argument, the address it returned or \<open>None\<close> for
  failure. Addresses are those of a 64-bit machine (\<open>addr_ok\<close>), so fewer than \<open>2 ^ 64\<close> jobs exist at
  any time and the queue's \<open>length\<close> counter does not wrap.
  A condition variable counts the threads that sleep on it and the wake-ups that have been delivered to them: a
  signal delivers one more if a thread sleeps that none has been delivered for, a broadcast one for every sleeping
  thread, and a sleeping thread goes on only by taking a wake-up. Which of the sleeping threads takes it is not determined.
\<close>

section \<open>The queue interface\<close>

text \<open>Both queues run under a mutex, so an operation is a function of the queue and its store.\<close>

fun push_all :: "('a \<Rightarrow> 's \<Rightarrow> 's option) \<Rightarrow> 'a list \<Rightarrow> 's \<Rightarrow> 's option" where
  "push_all push [] s = Some s"
| "push_all push (x # xs) s = do { s \<leftarrow> push x s; push_all push xs s }"

fun pull_n :: "('s \<Rightarrow> ('a option \<times> 's) option) \<Rightarrow> nat \<Rightarrow> 's \<Rightarrow> ('a option list \<times> 's) option" where
  "pull_n pull 0 s = Some ([], s)"
| "pull_n pull (Suc n) s = do { (x, s) \<leftarrow> pull s; (xs, s) \<leftarrow> pull_n pull n s; Some (x # xs, s) }"

locale fifo_queue =
  fixes rep :: "'s \<Rightarrow> 'a list \<Rightarrow> bool"
    and can_push :: "'a \<Rightarrow> 's \<Rightarrow> bool"
    and push :: "'a \<Rightarrow> 's \<Rightarrow> 's option"
    and pull :: "'s \<Rightarrow> ('a option \<times> 's) option"
  assumes push_law: "rep s xs \<Longrightarrow> can_push x s \<Longrightarrow> \<exists>s'. push x s = Some s' \<and> rep s' (xs @ [x])"
    and pull_law: "rep s (x # xs) \<Longrightarrow> \<exists>s'. pull s = Some (Some x, s') \<and> rep s' xs"
    and empty_law: "rep s [] \<Longrightarrow> \<exists>s'. pull s = Some (None, s') \<and> rep s' []"
begin

text \<open>What is pulled is what was pushed, in the order it was pushed, then nothing.\<close>

lemma pull_n_order:
  "rep s xs \<Longrightarrow> \<exists>s'. pull_n pull n s = Some (map Some (take n xs) @ replicate (n - length xs) None, s') \<and> rep s' (drop n xs)"
proof (induction n arbitrary: s xs)
  case (Suc n)
  show ?case
  proof (cases xs)
    case Nil
    then obtain s' where "pull s = Some (None, s')" "rep s' []" using empty_law Suc.prems by blast
    then show ?thesis using Suc.IH [of s' "[]"] Nil by auto
  next
    case (Cons x ys)
    then obtain s' where "pull s = Some (Some x, s')" "rep s' ys" using pull_law Suc.prems by blast
    then show ?thesis using Suc.IH [of s' ys] Cons by auto
  qed
qed simp

lemma push_pull_order:
  assumes "rep s xs" and "can_push y s" and "push y s = Some s'"
  shows "\<exists>s''. pull_n pull (Suc (length xs)) s' = Some (map Some (xs @ [y]), s'') \<and> rep s'' []"
proof -
  have "rep s' (xs @ [y])" using push_law [OF assms(1,2)] assms(3) by auto
  then show ?thesis using pull_n_order [of s' "xs @ [y]" "Suc (length xs)"] by simp
qed

end

section \<open>Condition variables\<close>

record cond =
  sleepers :: nat
  wakeups :: nat

definition pthread_cond_init :: cond where
  "pthread_cond_init = \<lparr>sleepers = 0, wakeups = 0\<rparr>"

definition pthread_cond_signal :: "cond \<Rightarrow> cond" where
  "pthread_cond_signal c = (if wakeups c < sleepers c then c\<lparr>wakeups := wakeups c + 1\<rparr> else c)"

definition pthread_cond_broadcast :: "cond \<Rightarrow> cond" where
  "pthread_cond_broadcast c = c\<lparr>wakeups := sleepers c\<rparr>"

text \<open>\<open>pthread_cond_wait\<close> in two halves: the thread falls asleep; later it takes a wake-up, if there is one.\<close>

definition cond_sleep :: "cond \<Rightarrow> cond" where
  "cond_sleep c = c\<lparr>sleepers := sleepers c + 1\<rparr>"

definition cond_wake :: "cond \<Rightarrow> cond outcome" where
  "cond_wake c = (if 0 < wakeups c then Next (c\<lparr>sleepers := sleepers c - 1, wakeups := wakeups c - 1\<rparr>) else Blocked)"

section \<open>The binary semaphore\<close>

record BinarySemaphore =
  bs_mutex :: bool
  bs_cond :: cond
  bs_value :: bool

definition BinarySemaphoreInit :: "BinarySemaphore \<Rightarrow> BinarySemaphore" where
  "BinarySemaphoreInit bs = bs\<lparr>bs_mutex := False, bs_cond := pthread_cond_init, bs_value := False\<rparr>"

text \<open>The argument is what \<open>malloc\<close> returned: null, or a structure of arbitrary content.\<close>

definition BinarySemaphoreCreate :: "BinarySemaphore option \<Rightarrow> BinarySemaphore option" where
  "BinarySemaphoreCreate raw = map_option BinarySemaphoreInit raw"

definition BinarySemaphoreReset :: "BinarySemaphore \<Rightarrow> BinarySemaphore" where
  "BinarySemaphoreReset bs = BinarySemaphoreInit bs"

definition lock_sem :: "BinarySemaphore \<Rightarrow> BinarySemaphore option" where
  "lock_sem bs = (if bs_mutex bs then None else Some (bs\<lparr>bs_mutex := True\<rparr>))"

definition unlock_sem :: "BinarySemaphore \<Rightarrow> BinarySemaphore option" where
  "unlock_sem bs = (if bs_mutex bs then Some (bs\<lparr>bs_mutex := False\<rparr>) else None)"

definition BinarySemaphorePost :: "BinarySemaphore \<Rightarrow> BinarySemaphore option" where
  "BinarySemaphorePost bs = do {
     bs \<leftarrow> lock_sem bs;
     bs \<leftarrow> Some (bs\<lparr>bs_value := True\<rparr>);
     bs \<leftarrow> Some (bs\<lparr>bs_cond := pthread_cond_signal (bs_cond bs)\<rparr>);
     unlock_sem bs
   }"

definition BinarySemaphorePostAll :: "BinarySemaphore \<Rightarrow> BinarySemaphore option" where
  "BinarySemaphorePostAll bs = do {
     bs \<leftarrow> lock_sem bs;
     bs \<leftarrow> Some (bs\<lparr>bs_value := True\<rparr>);
     bs \<leftarrow> Some (bs\<lparr>bs_cond := pthread_cond_broadcast (bs_cond bs)\<rparr>);
     unlock_sem bs
   }"

text \<open>The wait from its test of the value on: with the value set it is over (\<open>True\<close>), and leaves the value as it is; else the
  thread falls asleep and gives the mutex back (\<open>False\<close>). A thread that wakes up, \<open>BinarySemaphoreWake\<close>, takes the mutex and
  tests again: \<open>while (!bs->value) cond_wait\<close>.\<close>

definition BinarySemaphoreWait :: "BinarySemaphore \<Rightarrow> (bool \<times> BinarySemaphore) outcome" where
  "BinarySemaphoreWait bs =
     (case lock_sem bs of None \<Rightarrow> Fault
      | Some bs \<Rightarrow>
          if \<not> bs_value bs
          then and_then (checked (unlock_sem (bs\<lparr>bs_cond := cond_sleep (bs_cond bs)\<rparr>))) (Pair False)
          else and_then (checked (unlock_sem bs)) (Pair True))"

definition BinarySemaphoreWake :: "BinarySemaphore \<Rightarrow> BinarySemaphore outcome" where
  "BinarySemaphoreWake bs = and_then (cond_wake (bs_cond bs)) (\<lambda>c. bs\<lparr>bs_cond := c\<rparr>)"

section \<open>Jobs and the queue\<close>

record Job =
  j_next :: ptr
  j_func :: nat
  j_arg :: nat

record JobQueue =
  q_mutex :: bool
  q_front :: ptr
  q_last :: ptr
  q_has_job :: BinarySemaphore
  q_length :: u64

type_synonym job_mem = "Job store"

abbreviation set_job_next :: "ptr \<Rightarrow> Job \<Rightarrow> Job" where
  "set_job_next p j \<equiv> j\<lparr>j_next := p\<rparr>"

interpretation job_list: linked_nodes j_next set_job_next
  by unfold_locales simp

definition get_job :: "ptr \<Rightarrow> job_mem \<Rightarrow> Job option" where
  "get_job p h = (case p of Null \<Rightarrow> None | Ref a \<Rightarrow> h a)"

definition put_job :: "ptr \<Rightarrow> (Job \<Rightarrow> Job) \<Rightarrow> job_mem \<Rightarrow> job_mem option" where
  "put_job p f h = (case p of Null \<Rightarrow> None | Ref a \<Rightarrow> map_option (\<lambda>j. h(a \<mapsto> f j)) (h a))"

definition free_job :: "ptr \<Rightarrow> job_mem \<Rightarrow> job_mem option" where
  "free_job p h = (case p of Null \<Rightarrow> Some h | Ref a \<Rightarrow> if h a = None then None else Some (h(a := None)))"

definition JobQueueCreate :: "JobQueue option \<Rightarrow> BinarySemaphore option \<Rightarrow> JobQueue option" where
  "JobQueueCreate raw raw_sem =
     (case raw of None \<Rightarrow> None
      | Some jq \<Rightarrow>
          (let jq = jq\<lparr>q_front := Null, q_last := Null, q_length := 0\<rparr>
           in case BinarySemaphoreCreate raw_sem of None \<Rightarrow> None
              | Some bs \<Rightarrow> Some (jq\<lparr>q_has_job := bs, q_mutex := False\<rparr>)))"

definition lock_queue :: "JobQueue \<Rightarrow> JobQueue option" where
  "lock_queue jq = (if q_mutex jq then None else Some (jq\<lparr>q_mutex := True\<rparr>))"

definition unlock_queue :: "JobQueue \<Rightarrow> JobQueue option" where
  "unlock_queue jq = (if q_mutex jq then Some (jq\<lparr>q_mutex := False\<rparr>) else None)"

definition JobQueuePush :: "ptr \<Rightarrow> JobQueue \<times> job_mem \<Rightarrow> (JobQueue \<times> job_mem) option" where
  "JobQueuePush job = (\<lambda>(jq, h). do {
     jq \<leftarrow> lock_queue jq;
     h \<leftarrow> put_job job (\<lambda>j. j\<lparr>j_next := Null\<rparr>) h;
     (jq, h) \<leftarrow>
       (if q_length jq = 0 then Some (jq\<lparr>q_front := job, q_last := job\<rparr>, h)
        else do {
          h \<leftarrow> put_job (q_last jq) (\<lambda>j. j\<lparr>j_next := job\<rparr>) h;
          Some (jq\<lparr>q_last := job\<rparr>, h)
        });
     jq \<leftarrow> Some (jq\<lparr>q_length := q_length jq + 1\<rparr>);
     bs \<leftarrow> BinarySemaphorePost (q_has_job jq);
     jq \<leftarrow> unlock_queue (jq\<lparr>q_has_job := bs\<rparr>);
     Some (jq, h)
   })"

definition JobQueuePull :: "JobQueue \<times> job_mem \<Rightarrow> (ptr \<times> JobQueue \<times> job_mem) option" where
  "JobQueuePull = (\<lambda>(jq, h). do {
     jq \<leftarrow> lock_queue jq;
     (job, jq) \<leftarrow>
       (if q_length jq = 0 then Some (Null, jq)
        else if q_length jq = 1
        then Some (q_front jq, jq\<lparr>q_front := Null, q_last := Null, q_length := 0\<rparr>)
        else do {
          j \<leftarrow> get_job (q_front jq) h;
          bs \<leftarrow> BinarySemaphorePost (q_has_job jq);
          Some (q_front jq, jq\<lparr>q_front := j_next j, q_length := q_length jq - 1, q_has_job := bs\<rparr>)
        });
     jq \<leftarrow> unlock_queue jq;
     Some (job, jq, h)
   })"

text \<open>\<open>JobQueueClear\<close>: the loop over \<open>length > 0\<close>, then the resets.\<close>

partial_function (option) clear_loop :: "JobQueue \<times> job_mem \<Rightarrow> (JobQueue \<times> job_mem) option" where
  "clear_loop s =
     (if q_length (fst s) > 0
      then do {
        (j, jq, h) \<leftarrow> JobQueuePull s;
        h \<leftarrow> free_job j h;
        clear_loop (jq, h)
      }
      else Some s)"

declare clear_loop.simps [code]

definition JobQueueClear :: "JobQueue \<times> job_mem \<Rightarrow> (JobQueue \<times> job_mem) option" where
  "JobQueueClear s = do {
     (jq, h) \<leftarrow> clear_loop s;
     jq \<leftarrow> Some (jq\<lparr>q_front := Null, q_last := Null, q_has_job := BinarySemaphoreReset (q_has_job jq)\<rparr>);
     Some (jq\<lparr>q_length := 0\<rparr>, h)
   }"

text \<open>\<open>JobQueueDestory\<close> empties the queue; what remains is the job store.\<close>

definition JobQueueDestory :: "JobQueue \<times> job_mem \<Rightarrow> job_mem option" where
  "JobQueueDestory s = do { (jq, h) \<leftarrow> JobQueueClear s; Some h }"

section \<open>The queue against a list of jobs\<close>

definition addr_ok :: "addr \<Rightarrow> bool" where
  "addr_ok a \<longleftrightarrow> int a < 0xffffffffffffffff"

lemma addr_bound:
  assumes "distinct as" and "\<forall>a \<in> set as. addr_ok a" shows "length as < 2 ^ 64"
proof -
  have "set as \<subseteq> {..< 2 ^ 64 - 1}" using assms(2) by (auto simp: addr_ok_def)
  then have "card (set as) \<le> card {..< 2 ^ 64 - 1 :: nat}" by (rule card_mono [rotated]) simp
  then show ?thesis using distinct_card [OF assms(1)] by simp
qed

definition queue_rep :: "JobQueue \<Rightarrow> job_mem \<Rightarrow> addr list \<Rightarrow> bool" where
  "queue_rep jq h as \<longleftrightarrow>
     chain j_next h (q_front jq) as \<and> q_last jq = last_ptr Null as \<and> distinct as \<and>
     (\<forall>a \<in> set as. addr_ok a) \<and> q_length jq = of_nat (length as) \<and>
     \<not> q_mutex jq \<and> \<not> bs_mutex (q_has_job jq) \<and>
     (as \<noteq> [] \<longrightarrow> bs_value (q_has_job jq))"

definition job_is :: "job_mem \<Rightarrow> addr \<times> nat \<times> nat \<Rightarrow> bool" where
  "job_is h x = (case h (fst x) of None \<Rightarrow> False | Some j \<Rightarrow> snd x = (j_func j, j_arg j))"

lemma unat_u64: "n < 2 ^ 64 \<Longrightarrow> unat (of_nat n :: u64) = n"
  by (simp add: unat_of_nat)

lemma u64_of_nat_eq: "n < 2 ^ 64 \<Longrightarrow> m < 2 ^ 64 \<Longrightarrow> (of_nat n :: u64) = of_nat m \<longleftrightarrow> n = m"
  by (metis unat_u64)

lemma queue_repD:
  assumes "queue_rep jq h as"
  shows "chain j_next h (q_front jq) as" "q_last jq = last_ptr Null as" "distinct as" "\<forall>a \<in> set as. addr_ok a"
    "q_length jq = of_nat (length as)" "\<not> q_mutex jq" "\<not> bs_mutex (q_has_job jq)"
    "as \<noteq> [] \<Longrightarrow> bs_value (q_has_job jq)" "length as < 2 ^ 64"
proof -
  show "length as < 2 ^ 64" using assms addr_bound unfolding queue_rep_def by blast
qed (use assms in \<open>unfold queue_rep_def, blast+\<close>)

lemma queue_length_zero: "queue_rep jq h as \<Longrightarrow> q_length jq = 0 \<longleftrightarrow> as = []"
  using u64_of_nat_eq [of "length as" 0] queue_repD(5,9) by auto

lemma queue_length_one: "queue_rep jq h as \<Longrightarrow> q_length jq = 1 \<longleftrightarrow> length as = 1"
  using u64_of_nat_eq [of "length as" 1] queue_repD(5,9) by auto

lemma queue_rep_frame:
  "queue_rep jq h as \<Longrightarrow> (\<And>a. a \<in> set as \<Longrightarrow> h' a = h a) \<Longrightarrow> queue_rep jq h' as"
  using path_cong [of as j_next h h'] by (simp add: queue_rep_def)

text \<open>What a post does to a semaphore whose mutex is free.\<close>

definition posted :: "BinarySemaphore \<Rightarrow> BinarySemaphore" where
  "posted bs = bs\<lparr>bs_value := True, bs_cond := pthread_cond_signal (bs_cond bs)\<rparr>"

lemma posted_simps [simp]: "bs_mutex (posted bs) = bs_mutex bs" "bs_value (posted bs)"
  "bs_cond (posted bs) = pthread_cond_signal (bs_cond bs)"
  by (simp_all add: posted_def)

lemma post_sem: "\<not> bs_mutex bs \<Longrightarrow> BinarySemaphorePost bs = Some (posted bs)"
  by (simp add: BinarySemaphorePost_def lock_sem_def unlock_sem_def posted_def)

lemma wait_sem: "\<not> bs_mutex bs \<Longrightarrow>
    BinarySemaphoreWait bs = Next (if bs_value bs then (True, bs) else (False, bs\<lparr>bs_cond := cond_sleep (bs_cond bs)\<rparr>))"
  by (simp add: BinarySemaphoreWait_def lock_sem_def unlock_sem_def)

lemma push_rep:
  assumes R: "queue_rep jq h as" and a: "h a = Some j" "a \<notin> set as" "addr_ok a"
  shows "\<exists>jq' h'. JobQueuePush (Ref a) (jq, h) = Some (jq', h') \<and> queue_rep jq' h' (as @ [a]) \<and>
    bs_value (q_has_job jq') \<and> h' a = Some (j\<lparr>j_next := Null\<rparr>) \<and>
    (\<forall>b. b \<noteq> a \<longrightarrow> map_option (set_job_next Null) (h' b) = map_option (set_job_next Null) (h b)) \<and>
    (\<forall>b. b \<noteq> a \<longrightarrow> b \<notin> set as \<longrightarrow> h' b = h b)"
proof -
  note D = queue_repD [OF R]
  have next_len: "(of_nat (length as) :: u64) + 1 = of_nat (length (as @ [a]))" by simp
  show ?thesis
  proof (cases as rule: rev_cases)
    case Nil
    then show ?thesis using R a D(5,6,7) queue_length_zero [OF R]
      by (simp add: JobQueuePush_def lock_queue_def unlock_queue_def put_job_def post_sem queue_rep_def)
  next
    case (snoc bs b)
    have b: "b \<noteq> a" "q_last jq = Ref b" using snoc a(2) D(2) by auto
    obtain n where n: "h b = Some n" using D(1) snoc by auto
    let ?h = "h(a \<mapsto> j\<lparr>j_next := Null\<rparr>, b \<mapsto> n\<lparr>j_next := Ref a\<rparr>)"
    have "chain j_next ?h (q_front jq) (bs @ [b, a])"
      using D(1,3) a(2) n snoc by (intro job_list.chain_snoc) auto
    then have "queue_rep (jq\<lparr>q_last := Ref a, q_length := q_length jq + 1, q_has_job := posted (q_has_job jq),
        q_mutex := False\<rparr>) ?h (as @ [a])"
      using D(3-7) a(2,3) snoc by (simp add: queue_rep_def last_ptr_def)
    moreover have "q_length jq \<noteq> 0" using queue_length_zero [OF R] snoc by simp
    moreover have "bs_value (q_has_job jq)" using D(8) snoc by simp
    ultimately show ?thesis using a b n D(6,7) snoc
      by (auto simp: JobQueuePush_def lock_queue_def unlock_queue_def put_job_def post_sem)
  qed
qed

lemma pull_rep_empty: "queue_rep jq h [] \<Longrightarrow> JobQueuePull (jq, h) = Some (Null, jq, h)"
  using queue_length_zero [of jq h "[]"] queue_repD(6) [of jq h "[]"]
  by (simp add: JobQueuePull_def lock_queue_def unlock_queue_def)

lemma pull_rep:
  assumes R: "queue_rep jq h (a # as)"
  shows "\<exists>jq'. JobQueuePull (jq, h) = Some (Ref a, jq', h) \<and> queue_rep jq' h as \<and> bs_value (q_has_job jq')"
proof -
  note D = queue_repD [OF R]
  obtain j where j: "h a = Some j" "chain j_next h (j_next j) as" "q_front jq = Ref a" using D(1) by auto
  have len: "q_length jq \<noteq> 0" using queue_length_zero [OF R] by simp
  show ?thesis
  proof (cases "as = []")
    case True
    then show ?thesis using R j D(6-8) len queue_length_one [OF R]
      by (simp add: JobQueuePull_def lock_queue_def unlock_queue_def queue_rep_def)
  next
    case False
    then have "q_length jq \<noteq> 1" using queue_length_one [OF R] by simp
    moreover have "q_length jq - 1 = of_nat (length as)" using D(5) by simp
    ultimately show ?thesis using False j D(2-4,6,7) len
      by (simp add: JobQueuePull_def lock_queue_def unlock_queue_def get_job_def post_sem queue_rep_def last_ptr_def)
  qed
qed

lemma push_sem:
  assumes "JobQueuePush p (jq, h) = Some (jq', h')" and "\<not> bs_mutex (q_has_job jq)"
  shows "q_has_job jq' = posted (q_has_job jq)"
  using assms by (auto simp: JobQueuePush_def lock_queue_def unlock_queue_def post_sem bind_eq_Some_conv split: if_splits)

lemma pull_sem:
  assumes "JobQueuePull (jq, h) = Some (p, jq', h')" and "\<not> bs_mutex (q_has_job jq)"
  shows "q_has_job jq' = q_has_job jq \<or> q_has_job jq' = posted (q_has_job jq)"
  using assms by (auto simp: JobQueuePull_def lock_queue_def unlock_queue_def post_sem bind_eq_Some_conv split: if_splits)

section \<open>Emptying the queue\<close>

lemma clear_loop_rep:
  "queue_rep jq h as \<Longrightarrow> \<exists>jq'. clear_loop (jq, h) = Some (jq', h |` (- set as)) \<and> queue_rep jq' (h |` (- set as)) []"
proof (induction as arbitrary: jq h)
  case Nil
  then have "\<not> 0 < q_length jq" using queue_length_zero [OF Nil] by simp
  then show ?case using Nil by (subst clear_loop.simps) (simp add: restrict_map_def)
next
  case (Cons a as)
  obtain jq1 where p: "JobQueuePull (jq, h) = Some (Ref a, jq1, h)" "queue_rep jq1 h as" using pull_rep [OF Cons.prems] by blast
  have a: "h a \<noteq> None" "a \<notin> set as" "0 < q_length jq"
    using queue_repD(1,3) [OF Cons.prems] queue_length_zero [OF Cons.prems] by (auto simp: word_gt_0)
  have "queue_rep jq1 (h(a := None)) as" using a(2) by (intro queue_rep_frame [OF p(2)]) auto
  then obtain jq' where "clear_loop (jq1, h(a := None)) = Some (jq', h(a := None) |` (- set as))"
    "queue_rep jq' (h(a := None) |` (- set as)) []" using Cons.IH by blast
  moreover have "h(a := None) |` (- set as) = h |` (- set (a # as))" by (auto simp: restrict_map_def fun_eq_iff)
  ultimately show ?case using p(1) a(1,3) by (subst clear_loop.simps) (auto simp: free_job_def)
qed

lemma clear_rep:
  assumes "queue_rep jq h as"
  shows "\<exists>jq'. JobQueueClear (jq, h) = Some (jq', h |` (- set as)) \<and> queue_rep jq' (h |` (- set as)) []"
proof -
  obtain jq1 where "clear_loop (jq, h) = Some (jq1, h |` (- set as))" "queue_rep jq1 (h |` (- set as)) []"
    using clear_loop_rep [OF assms] by blast
  then show ?thesis by (simp add: JobQueueClear_def queue_rep_def BinarySemaphoreReset_def BinarySemaphoreInit_def)
qed

section \<open>Adding a task\<close>

text \<open>\<open>ThreadPoolAddTask\<close> of \<^verbatim>\<open>thread_pool.c\<close> touches nothing of the pool but its queue. The first argument
  is what \<open>malloc\<close> returned: null, or an address with some content.\<close>

definition ThreadPoolAddTask ::
    "(addr \<times> Job) option \<Rightarrow> nat \<Rightarrow> nat \<Rightarrow> JobQueue \<times> job_mem \<Rightarrow> (bool \<times> JobQueue \<times> job_mem) option" where
  "ThreadPoolAddTask mem func arg = (\<lambda>(jq, h).
     case mem of None \<Rightarrow> Some (False, jq, h)
     | Some (a, raw) \<Rightarrow> do {
         h \<leftarrow> Some (h(a \<mapsto> raw));
         h \<leftarrow> put_job (Ref a) (\<lambda>j. j\<lparr>j_func := func\<rparr>) h;
         h \<leftarrow> put_job (Ref a) (\<lambda>j. j\<lparr>j_arg := arg\<rparr>) h;
         (jq, h) \<leftarrow> JobQueuePush (Ref a) (jq, h);
         Some (True, jq, h)
       })"

lemma add_task_rep:
  assumes "queue_rep jq h as" and "h a = None" and "addr_ok a"
  shows "\<exists>jq' h'. ThreadPoolAddTask (Some (a, raw)) f g (jq, h) = Some (True, jq', h') \<and> queue_rep jq' h' (as @ [a]) \<and>
    bs_value (q_has_job jq') \<and> h' a = Some \<lparr>j_next = Null, j_func = f, j_arg = g\<rparr> \<and>
    (\<forall>b. b \<noteq> a \<longrightarrow> map_option (set_job_next Null) (h' b) = map_option (set_job_next Null) (h b)) \<and>
    (\<forall>b. b \<noteq> a \<longrightarrow> b \<notin> set as \<longrightarrow> h' b = h b)"
proof -
  let ?j = "raw\<lparr>j_func := f, j_arg := g\<rparr>" and ?h = "h(a \<mapsto> raw\<lparr>j_func := f, j_arg := g\<rparr>)"
  have fresh: "a \<notin> set as" using path_allocated [OF queue_repD(1) [OF assms(1)]] assms(2) by fastforce
  have "queue_rep jq ?h as" using fresh by (intro queue_rep_frame [OF assms(1)]) auto
  moreover have "?j\<lparr>j_next := Null\<rparr> = \<lparr>j_next = Null, j_func = f, j_arg = g\<rparr>" by (cases raw) simp
  ultimately show ?thesis using push_rep [of jq ?h as a ?j] fresh assms(3)
    by (auto simp: ThreadPoolAddTask_def put_job_def)
qed

text \<open>The queue as a queue of jobs, each with its address, function and argument.\<close>

type_synonym job_view = "addr \<times> nat \<times> nat"

definition jobs_rep :: "JobQueue \<times> job_mem \<Rightarrow> job_view list \<Rightarrow> bool" where
  "jobs_rep = (\<lambda>(jq, h) xs. queue_rep jq h (map fst xs) \<and> (\<forall>x \<in> set xs. job_is h x))"

definition job_fresh :: "job_view \<Rightarrow> JobQueue \<times> job_mem \<Rightarrow> bool" where
  "job_fresh x s \<longleftrightarrow> snd s (fst x) = None \<and> addr_ok (fst x)"

definition add_job :: "Job \<Rightarrow> job_view \<Rightarrow> JobQueue \<times> job_mem \<Rightarrow> (JobQueue \<times> job_mem) option" where
  "add_job raw = (\<lambda>(a, f, g) s. map_option snd (ThreadPoolAddTask (Some (a, raw)) f g s))"

definition take_job :: "JobQueue \<times> job_mem \<Rightarrow> (job_view option \<times> JobQueue \<times> job_mem) option" where
  "take_job s = do {
     (p, jq, h) \<leftarrow> JobQueuePull s;
     case p of Null \<Rightarrow> Some (None, jq, h)
     | Ref a \<Rightarrow> do { j \<leftarrow> h a; Some (Some (a, j_func j, j_arg j), jq, h) }
   }"

lemma job_is_next:
  assumes "map_option (set_job_next Null) (h' (fst x)) = map_option (set_job_next Null) (h (fst x))"
  shows "job_is h' x = job_is h x"
proof (cases "h (fst x)"; cases "h' (fst x)")
  fix j j' assume j: "h (fst x) = Some j" "h' (fst x) = Some j'"
  then have "set_job_next Null j' = set_job_next Null j" using assms by simp
  then have "j_func j' = j_func j" "j_arg j' = j_arg j" by (metis Job.select_convs(2,3) Job.surjective Job.update_convs(1))+
  then show ?thesis using j by (simp add: job_is_def)
qed (use assms in \<open>auto simp: job_is_def\<close>)

interpretation job_fifo: fifo_queue jobs_rep job_fresh "add_job raw" take_job for raw
proof
  fix s xs x
  assume R: "jobs_rep s xs" and F: "job_fresh x s"
  obtain jq h a f g where [simp]: "s = (jq, h)" "x = (a, f, g)" by (metis prod.exhaust)
  obtain jq' h' where *: "ThreadPoolAddTask (Some (a, raw)) f g (jq, h) = Some (True, jq', h')"
    "queue_rep jq' h' (map fst xs @ [a])" "h' a = Some \<lparr>j_next = Null, j_func = f, j_arg = g\<rparr>"
    "\<And>b. b \<noteq> a \<Longrightarrow> map_option (set_job_next Null) (h' b) = map_option (set_job_next Null) (h b)"
    using add_task_rep [of jq h "map fst xs" a raw f g] R F by (auto simp: jobs_rep_def job_fresh_def)
  have "a \<notin> fst ` set xs" using queue_repD(3) [OF *(2)] by simp
  then have "job_is h' y" if y: "y \<in> set xs" for y
    using job_is_next [of h' y h] *(4) [of "fst y"] y R by (force simp: jobs_rep_def)
  then show "\<exists>s'. add_job raw x s = Some s' \<and> jobs_rep s' (xs @ [x])"
    using *(1-3) by (auto simp: add_job_def jobs_rep_def job_is_def)
next
  fix s xs and x :: job_view
  assume R: "jobs_rep s (x # xs)"
  obtain jq h a f g where [simp]: "s = (jq, h)" "x = (a, f, g)" by (metis prod.exhaust)
  obtain jq' where "JobQueuePull (jq, h) = Some (Ref a, jq', h)" "queue_rep jq' h (map fst xs)"
    using pull_rep [of jq h a "map fst xs"] R by (auto simp: jobs_rep_def)
  moreover obtain j where "h a = Some j" "f = j_func j" "g = j_arg j"
    using R by (auto simp: jobs_rep_def job_is_def split: option.splits)
  ultimately show "\<exists>s'. take_job s = Some (Some x, s') \<and> jobs_rep s' xs"
    using R by (simp add: take_job_def jobs_rep_def)
next
  fix s
  assume "jobs_rep s []"
  then show "\<exists>s'. take_job s = Some (None, s') \<and> jobs_rep s' []"
    using pull_rep_empty by (cases s) (auto simp: jobs_rep_def take_job_def)
qed

section \<open>Properties of the semaphore and the queue\<close>

text \<open>C17. The queue is first-in first-out: after a task has been added to a queue of given jobs, pulling
  returns those jobs in their order, then the new one, then null, and never dereferences a bad pointer;
  the contents of the jobs are those that were added.\<close>

theorem job_queue_fifo:
  assumes "jobs_rep (jq, h) xs" and "h a = None" and "addr_ok a"
  shows "\<exists>jq' h' s. ThreadPoolAddTask (Some (a, raw)) f g (jq, h) = Some (True, jq', h') \<and>
    pull_n take_job (length xs + 2) (jq', h') = Some (map Some (xs @ [(a, f, g)]) @ [None], s)"
proof -
  have F: "job_fresh (a, f, g) (jq, h)" using assms(2,3) by (simp add: job_fresh_def)
  obtain s' where s': "add_job raw (a, f, g) (jq, h) = Some s'" "jobs_rep s' (xs @ [(a, f, g)])"
    using job_fifo.push_law [OF assms(1) F] by blast
  obtain jq' h' where a: "ThreadPoolAddTask (Some (a, raw)) f g (jq, h) = Some (True, jq', h')"
    using add_task_rep [of jq h "map fst xs" a raw f g] assms by (auto simp: jobs_rep_def)
  then have "s' = (jq', h')" using s'(1) by (simp add: add_job_def)
  then show ?thesis using a job_fifo.pull_n_order [OF s'(2), of "length xs + 2"] by auto
qed

definition sem_zero :: BinarySemaphore where
  "sem_zero = \<lparr>bs_mutex = False, bs_cond = pthread_cond_init, bs_value = False\<rparr>"

definition queue_zero :: JobQueue where
  "queue_zero = \<lparr>q_mutex = False, q_front = Null, q_last = Null, q_has_job = sem_zero, q_length = 0\<rparr>"

lemma jobs_rep_zero: "jobs_rep (queue_zero, Map.empty) []"
  by (simp add: jobs_rep_def queue_rep_def queue_zero_def sem_zero_def)

theorem job_queue_fifo_witness:
  "\<exists>jq' h' s. ThreadPoolAddTask (Some (7, \<lparr>j_next = Ref 3, j_func = 0, j_arg = 0\<rparr>)) 1 2 (queue_zero, Map.empty) = Some (True, jq', h') \<and>
    pull_n take_job 2 (jq', h') = Some ([Some (7, 1, 2), None], s)"
proof -
  have "addr_ok 7" by (simp add: addr_ok_def)
  then show ?thesis using job_queue_fifo [OF jobs_rep_zero, of 7 _ 1 2] by (simp only: append_Nil list.map append_Cons list.size add_0)
qed

text \<open>A new queue is the empty queue, whatever the allocator left in the structures, and creation
  fails exactly if one of the two allocations does.\<close>

theorem JobQueueCreate_empty:
  "case JobQueueCreate raw raw_sem of
     None \<Rightarrow> raw = None \<or> raw_sem = None
   | Some jq \<Rightarrow> raw \<noteq> None \<and> raw_sem \<noteq> None \<and> jobs_rep (jq, h) []"
  by (cases raw; cases raw_sem)
     (auto simp: JobQueueCreate_def BinarySemaphoreCreate_def BinarySemaphoreInit_def jobs_rep_def queue_rep_def)

text \<open>The semaphore is not a binary semaphore but a latch: once it has been posted, by either
  function, every wait passes and leaves it posted, so no wait ever blocks again until a reset.\<close>

theorem semaphore_is_latch:
  assumes "BinarySemaphorePost bs = Some bs' \<or> BinarySemaphorePostAll bs = Some bs'"
  shows "BinarySemaphoreWait bs' = Next (True, bs') \<and> (\<exists>bs''. BinarySemaphoreWait (BinarySemaphoreReset bs') = Next (False, bs''))"
  using assms
  by (auto simp: BinarySemaphorePost_def BinarySemaphorePostAll_def wait_sem lock_sem_def unlock_sem_def
      BinarySemaphoreReset_def BinarySemaphoreInit_def split: if_splits)

theorem semaphore_is_latch_witness:
  "\<exists>bs. BinarySemaphorePost sem_zero = Some bs \<and> BinarySemaphoreWait bs = Next (True, bs)"
proof -
  obtain bs where "BinarySemaphorePost sem_zero = Some bs" by (simp add: post_sem sem_zero_def)
  then show ?thesis using semaphore_is_latch [of sem_zero bs] by blast
qed

text \<open>C30. \<open>JobQueueClear\<close> terminates, frees exactly the queued jobs, each once, and leaves an empty queue
  whose semaphore is reset: a thread that waits on it falls asleep.\<close>

theorem JobQueueClear_frees_queue:
  assumes "jobs_rep (jq, h) xs"
  shows "\<exists>jq'. JobQueueClear (jq, h) = Some (jq', h |` (- fst ` set xs)) \<and>
    jobs_rep (jq', h |` (- fst ` set xs)) [] \<and> (\<exists>bs. BinarySemaphoreWait (q_has_job jq') = Next (False, bs))"
proof -
  obtain jq' where c: "JobQueueClear (jq, h) = Some (jq', h |` (- fst ` set xs))" "queue_rep jq' (h |` (- fst ` set xs)) []"
    using clear_rep [of jq h "map fst xs"] assms by (auto simp: jobs_rep_def)
  moreover have "\<not> bs_value (q_has_job jq')"
    using c(1) by (auto simp: JobQueueClear_def BinarySemaphoreReset_def BinarySemaphoreInit_def split: bind_splits)
  ultimately show ?thesis using queue_repD(7) [OF c(2)]
    by (simp add: jobs_rep_def wait_sem)
qed

theorem JobQueueClear_frees_queue_witness:
  "\<exists>jq jq' h. jobs_rep (jq, h) [(7, 1, 2)] \<and> JobQueueClear (jq, h) = Some (jq', h |` (- {7}))"
proof -
  have "job_fresh (7, 1, 2) (queue_zero, Map.empty)" by (simp add: job_fresh_def addr_ok_def)
  then obtain jq h where s: "jobs_rep (jq, h) [(7, 1, 2)]" using job_fifo.push_law [OF jobs_rep_zero] by fastforce
  then show ?thesis using JobQueueClear_frees_queue [OF s] by auto
qed

end
