(* ===== verification/Thread_Pool2.thy ===== *)
theory Thread_Pool2
  imports Job_Queue
begin

text \<open>
  The thread pool of \<^verbatim>\<open>src/thread_pool02\<close> (\<^verbatim>\<open>thread_pool.c\<close>, \<^verbatim>\<open>thread.c\<close>) as a system of threads: the
  workers, and the client thread that creates the pool, adds tasks, waits and destroys it. A thread's
  control point names the statement it is about to execute; a step is one access to shared data
  or one critical section's entry or exit, so the steps of different threads interleave the way the
  code allows. The job queue's operations are those of \<open>Job_Queue\<close>; each runs under the queue's own
  mutex and is one step. A thread that waits on a condition variable sleeps until it takes a wake-up; besides the wake-ups that
  signals deliver there may be stray ones, as POSIX allows. A worker's step on the pool after \<open>free(pool)\<close> is a \<open>Fault\<close>.
  \<open>added\<close> and \<open>executed\<close> record the tasks that were added and that ran.
\<close>

section \<open>State\<close>

datatype tid = Client | Worker nat

datatype wpc = W_None | W_Start | W_StartUnlock | W_Loop | W_SemWait | W_SemSleep | W_Check | W_Inc | W_IncUnlock
  | W_Pull | W_Run ptr | W_Dec | W_DecUnlock | W_Exit | W_ExitUnlock | W_Done

datatype mpc = M_Create nat | M_Spin | M_Idle | M_WaitLock | M_WaitLen | M_WaitWork | M_WaitCond
  | M_WaitSleep | M_DestroyLoop | M_DestroyQueue | M_Done

record ThreadPool =
  thread_num :: nat
  alive_threads :: int
  working_threads :: int
  pool_mutex :: "tid option"
  pool_cond :: cond
  job_queue :: JobQueue
  alive :: bool

record pool_state =
  pool :: ThreadPool
  jobs :: job_mem
  workers :: "wpc list"
  main_pc :: mpc
  freed :: bool
  added :: "(nat \<times> nat) list"
  executed :: "(nat \<times> nat) list"

section \<open>Creation\<close>

text \<open>The sequential part of \<open>ThreadPoolCreate\<close>. The arguments after the number of threads are the
  results of its allocations: the pool, the queue, the semaphore, the array of threads.\<close>

definition ThreadPoolCreate ::
    "nat \<Rightarrow> ThreadPool option \<Rightarrow> JobQueue option \<Rightarrow> BinarySemaphore option \<Rightarrow> bool \<Rightarrow> job_mem \<Rightarrow> pool_state option" where
  "ThreadPoolCreate num_threads raw raw_queue raw_sem threads_ok h = do {
     p \<leftarrow> raw;
     p \<leftarrow> Some (p\<lparr>thread_num := num_threads, alive := True, alive_threads := 0, working_threads := 0\<rparr>);
     jq \<leftarrow> JobQueueCreate raw_queue raw_sem;
     p \<leftarrow> Some (p\<lparr>job_queue := jq\<rparr>);
     if threads_ok
     then Some \<lparr>pool = p\<lparr>pool_mutex := None, pool_cond := pthread_cond_init\<rparr>, jobs = h, workers = replicate num_threads W_None,
                main_pc = M_Create 0, freed = False, added = [], executed = []\<rparr>
     else None
   }"

text \<open>\<open>ThreadCreate\<close>: without memory for the structure no thread is started.\<close>

definition ThreadCreate :: "bool \<Rightarrow> nat \<Rightarrow> wpc list \<Rightarrow> wpc list" where
  "ThreadCreate ok i ws = (if ok then ws[i := W_Start] else ws)"

section \<open>The steps of a worker\<close>

definition set_pool :: "(ThreadPool \<Rightarrow> ThreadPool) \<Rightarrow> pool_state \<Rightarrow> pool_state" where
  "set_pool f s = s\<lparr>pool := f (pool s)\<rparr>"

definition set_sem :: "BinarySemaphore \<Rightarrow> pool_state \<Rightarrow> pool_state" where
  "set_sem bs = set_pool (\<lambda>p. p\<lparr>job_queue := (job_queue p)\<lparr>q_has_job := bs\<rparr>\<rparr>)"

definition goto :: "nat \<Rightarrow> wpc \<Rightarrow> pool_state \<Rightarrow> pool_state" where
  "goto t pc s = s\<lparr>workers := (workers s)[t := pc]\<rparr>"

definition lock_pool :: "tid \<Rightarrow> pool_state \<Rightarrow> pool_state outcome" where
  "lock_pool me s =
     (case pool_mutex (pool s) of
        None \<Rightarrow> Next (set_pool (\<lambda>p. p\<lparr>pool_mutex := Some me\<rparr>) s)
      | Some owner \<Rightarrow> if owner = me then Fault else Blocked)"

definition unlock_pool :: "tid \<Rightarrow> pool_state \<Rightarrow> pool_state outcome" where
  "unlock_pool me s =
     (if pool_mutex (pool s) = Some me then Next (set_pool (\<lambda>p. p\<lparr>pool_mutex := None\<rparr>) s) else Fault)"

definition run_task :: "nat \<Rightarrow> ptr \<Rightarrow> pool_state \<Rightarrow> pool_state outcome" where
  "run_task t task s =
     (if task \<noteq> Null
      then checked (do {
        j \<leftarrow> get_job task (jobs s);
        h \<leftarrow> free_job task (jobs s);
        Some (goto t W_Dec (s\<lparr>jobs := h, executed := executed s @ [(j_func j, j_arg j)]\<rparr>))
      })
      else Next (goto t W_Dec s))"

definition signal_idle :: "ThreadPool \<Rightarrow> ThreadPool" where
  "signal_idle p = (if working_threads p = 0 then p\<lparr>pool_cond := pthread_cond_signal (pool_cond p)\<rparr> else p)"

definition worker_step :: "nat \<Rightarrow> pool_state \<Rightarrow> pool_state outcome" where
  "worker_step t s =
     (case workers s ! t of
        W_None \<Rightarrow> Blocked
      | W_Done \<Rightarrow> Blocked
      | pc \<Rightarrow>
        if freed s then Fault
        else case pc of
          W_Start \<Rightarrow>
            and_then (lock_pool (Worker t) s)
              (\<lambda>s. goto t W_StartUnlock (set_pool (\<lambda>p. p\<lparr>alive_threads := alive_threads p + 1\<rparr>) s))
        | W_StartUnlock \<Rightarrow> and_then (unlock_pool (Worker t) s) (goto t W_Loop)
        | W_Loop \<Rightarrow> Next (goto t (if alive (pool s) then W_SemWait else W_Exit) s)
        | W_SemWait \<Rightarrow>
            and_then (BinarySemaphoreWait (q_has_job (job_queue (pool s))))
              (\<lambda>(over, bs). goto t (if over then W_Check else W_SemSleep) (set_sem bs s))
        | W_SemSleep \<Rightarrow>
            and_then (BinarySemaphoreWake (q_has_job (job_queue (pool s)))) (\<lambda>bs. goto t W_SemWait (set_sem bs s))
        | W_Check \<Rightarrow> Next (goto t (if alive (pool s) then W_Inc else W_Loop) s)
        | W_Inc \<Rightarrow>
            and_then (lock_pool (Worker t) s)
              (\<lambda>s. goto t W_IncUnlock (set_pool (\<lambda>p. p\<lparr>working_threads := working_threads p + 1\<rparr>) s))
        | W_IncUnlock \<Rightarrow> and_then (unlock_pool (Worker t) s) (goto t W_Pull)
        | W_Pull \<Rightarrow>
            and_then (checked (JobQueuePull (job_queue (pool s), jobs s)))
              (\<lambda>(task, jq, h). goto t (W_Run task) (set_pool (\<lambda>p. p\<lparr>job_queue := jq\<rparr>) (s\<lparr>jobs := h\<rparr>)))
        | W_Run task \<Rightarrow> run_task t task s
        | W_Dec \<Rightarrow>
            and_then (lock_pool (Worker t) s)
              (\<lambda>s. goto t W_DecUnlock (set_pool (signal_idle \<circ> (\<lambda>p. p\<lparr>working_threads := working_threads p - 1\<rparr>)) s))
        | W_DecUnlock \<Rightarrow> and_then (unlock_pool (Worker t) s) (goto t W_Loop)
        | W_Exit \<Rightarrow>
            and_then (lock_pool (Worker t) s)
              (\<lambda>s. goto t W_ExitUnlock (set_pool (\<lambda>p. p\<lparr>alive_threads := alive_threads p - 1\<rparr>) s))
        | _ \<Rightarrow> and_then (unlock_pool (Worker t) s) (goto t W_Done))"

section \<open>The steps of the client\<close>

text \<open>What the client does next where it has a choice: which call it makes, and what the allocator
  answers.\<close>

datatype choice = Go | Thread_Memory bool | Add "(addr \<times> Job) option" nat nat | Wait_Call | Destroy_Call

definition malloc_ok :: "(addr \<times> Job) option \<Rightarrow> job_mem \<Rightarrow> bool" where
  "malloc_ok mem h = (case mem of None \<Rightarrow> True | Some (a, raw) \<Rightarrow> h a = None \<and> addr_ok a)"

definition add_step :: "(addr \<times> Job) option \<Rightarrow> nat \<Rightarrow> nat \<Rightarrow> pool_state \<Rightarrow> pool_state outcome" where
  "add_step mem func arg s =
     (if malloc_ok mem (jobs s)
      then and_then (checked (ThreadPoolAddTask mem func arg (job_queue (pool s), jobs s)))
        (\<lambda>(ok, jq, h). set_pool (\<lambda>p. p\<lparr>job_queue := jq\<rparr>)
           (s\<lparr>jobs := h, added := (if ok then added s @ [(func, arg)] else added s)\<rparr>))
      else Blocked)"

fun main_step :: "choice \<Rightarrow> pool_state \<Rightarrow> pool_state outcome" where
  "main_step ch s =
     (case (main_pc s, ch) of
        (M_Create i, Thread_Memory ok) \<Rightarrow>
          if i < thread_num (pool s)
          then Next (s\<lparr>workers := ThreadCreate ok i (workers s), main_pc := M_Create (Suc i)\<rparr>)
          else Blocked
      | (M_Create i, Go) \<Rightarrow>
          if i < thread_num (pool s) then Blocked else Next (s\<lparr>main_pc := M_Spin\<rparr>)
      | (M_Spin, Go) \<Rightarrow>
          if alive_threads (pool s) \<noteq> int (thread_num (pool s)) then Next s else Next (s\<lparr>main_pc := M_Idle\<rparr>)
      | (M_Idle, Add mem func arg) \<Rightarrow> add_step mem func arg s
      | (M_Idle, Wait_Call) \<Rightarrow> Next (s\<lparr>main_pc := M_WaitLock\<rparr>)
      | (M_WaitLock, Go) \<Rightarrow> and_then (lock_pool Client s) (\<lambda>s. s\<lparr>main_pc := M_WaitLen\<rparr>)
      | (M_WaitLen, Go) \<Rightarrow>
          Next (s\<lparr>main_pc := (if q_length (job_queue (pool s)) > 0 then M_WaitCond else M_WaitWork)\<rparr>)
      | (M_WaitWork, Go) \<Rightarrow>
          if working_threads (pool s) > 0 then Next (s\<lparr>main_pc := M_WaitCond\<rparr>)
          else and_then (unlock_pool Client s) (\<lambda>s. s\<lparr>main_pc := M_Idle\<rparr>)
      | (M_WaitCond, Go) \<Rightarrow>
          and_then (unlock_pool Client s)
            (\<lambda>s. set_pool (\<lambda>p. p\<lparr>pool_cond := cond_sleep (pool_cond p)\<rparr>) (s\<lparr>main_pc := M_WaitSleep\<rparr>))
      | (M_WaitSleep, Go) \<Rightarrow>
          and_then (cond_wake (pool_cond (pool s))) (\<lambda>c. set_pool (\<lambda>p. p\<lparr>pool_cond := c\<rparr>) (s\<lparr>main_pc := M_WaitLock\<rparr>))
      | (M_Idle, Destroy_Call) \<Rightarrow> Next (set_pool (\<lambda>p. p\<lparr>alive := False\<rparr>) (s\<lparr>main_pc := M_DestroyLoop\<rparr>))
      | (M_DestroyLoop, Go) \<Rightarrow>
          if alive_threads (pool s) > 0
          then and_then (checked (BinarySemaphorePostAll (q_has_job (job_queue (pool s)))))
            (\<lambda>bs. set_sem bs s)
          else Next (s\<lparr>main_pc := M_DestroyQueue\<rparr>)
      | (M_DestroyQueue, Go) \<Rightarrow>
          and_then (checked (JobQueueDestory (job_queue (pool s), jobs s)))
            (\<lambda>h. s\<lparr>jobs := h, freed := True, main_pc := M_Done\<rparr>)
      | _ \<Rightarrow> Blocked)"

declare main_step.simps [simp del]

section \<open>Reachable states\<close>

text \<open>A stray wake-up: of a thread that sleeps on the semaphore's condition variable, or of the client that sleeps on the pool's.\<close>

datatype stray = Stray_Worker | Stray_Client

fun stray_wakeup :: "stray \<Rightarrow> pool_state \<Rightarrow> pool_state" where
  "stray_wakeup Stray_Worker s =
     (let bs = q_has_job (job_queue (pool s)) in set_sem (bs\<lparr>bs_cond := pthread_cond_signal (bs_cond bs)\<rparr>) s)"
| "stray_wakeup Stray_Client s = set_pool (\<lambda>p. p\<lparr>pool_cond := pthread_cond_signal (pool_cond p)\<rparr>) s"

inductive reachable :: "nat \<Rightarrow> pool_state \<Rightarrow> bool" for n where
  create: "ThreadPoolCreate n raw raw_queue raw_sem True Map.empty = Some s \<Longrightarrow> reachable n s"
| worker: "reachable n s \<Longrightarrow> t < n \<Longrightarrow> worker_step t s = Next s' \<Longrightarrow> reachable n s'"
| client: "reachable n s \<Longrightarrow> main_step ch s = Next s' \<Longrightarrow> reachable n s'"
| stray: "reachable n s \<Longrightarrow> reachable n (stray_wakeup w s)"

section \<open>Invariants\<close>

fun in_work :: "wpc \<Rightarrow> bool" where
  "in_work W_IncUnlock = True"
| "in_work W_Pull = True"
| "in_work (W_Run p) = True"
| "in_work W_Dec = True"
| "in_work _ = False"

fun counted :: "wpc \<Rightarrow> bool" where
  "counted W_None = False"
| "counted W_Start = False"
| "counted W_ExitUnlock = False"
| "counted W_Done = False"
| "counted _ = True"

fun holds :: "wpc \<Rightarrow> bool" where
  "holds W_StartUnlock = True"
| "holds W_IncUnlock = True"
| "holds W_DecUnlock = True"
| "holds W_ExitUnlock = True"
| "holds _ = False"

fun client_holds :: "mpc \<Rightarrow> bool" where
  "client_holds M_WaitLen = True"
| "client_holds M_WaitWork = True"
| "client_holds M_WaitCond = True"
| "client_holds _ = False"

fun carried :: "wpc \<Rightarrow> addr list" where
  "carried (W_Run (Ref a)) = [a]"
| "carried _ = []"

fun leaving :: "wpc \<Rightarrow> bool" where
  "leaving W_Exit = True"
| "leaving W_ExitUnlock = True"
| "leaving W_Done = True"
| "leaving _ = False"

fun starting :: "wpc \<Rightarrow> bool" where
  "starting W_None = True"
| "starting W_Start = True"
| "starting _ = False"

fun in_create :: "mpc \<Rightarrow> bool" where
  "in_create (M_Create i) = True"
| "in_create M_Spin = True"
| "in_create _ = False"

fun in_destroy :: "mpc \<Rightarrow> bool" where
  "in_destroy M_DestroyLoop = True"
| "in_destroy M_DestroyQueue = True"
| "in_destroy M_Done = True"
| "in_destroy _ = False"

definition workers_inv :: "nat \<Rightarrow> pool_state \<Rightarrow> bool" where
  "workers_inv n s \<longleftrightarrow>
     length (workers s) = n \<and> thread_num (pool s) = n \<and>
     working_threads (pool s) = int (num in_work (workers s)) \<and>
     alive_threads (pool s) = int (num counted (workers s))"

definition lock_inv :: "pool_state \<Rightarrow> bool" where
  "lock_inv s \<longleftrightarrow>
     (\<forall>t < length (workers s). holds (workers s ! t) \<longleftrightarrow> pool_mutex (pool s) = Some (Worker t)) \<and>
     (client_holds (main_pc s) \<longleftrightarrow> pool_mutex (pool s) = Some Client) \<and>
     (\<forall>t. pool_mutex (pool s) = Some (Worker t) \<longrightarrow> t < length (workers s))"

definition phase_inv :: "pool_state \<Rightarrow> bool" where
  "phase_inv s \<longleftrightarrow>
     (freed s \<longleftrightarrow> main_pc s = M_Done) \<and> (alive (pool s) \<longleftrightarrow> \<not> in_destroy (main_pc s)) \<and>
     (\<forall>t < length (workers s).
        (alive (pool s) \<longrightarrow> \<not> leaving (workers s ! t)) \<and>
        (\<not> in_create (main_pc s) \<longrightarrow> \<not> starting (workers s ! t)) \<and>
        (main_pc s = M_DestroyQueue \<or> main_pc s = M_Done \<longrightarrow> \<not> counted (workers s ! t)) \<and>
        (\<forall>i. main_pc s = M_Create i \<and> i \<le> t \<longrightarrow> workers s ! t = W_None))"

definition task_at :: "job_mem \<Rightarrow> addr \<Rightarrow> nat \<times> nat" where
  "task_at h a = (case h a of None \<Rightarrow> (0, 0) | Some j \<Rightarrow> (j_func j, j_arg j))"

definition jobs_inv :: "pool_state \<Rightarrow> addr list \<Rightarrow> bool" where
  "jobs_inv s as \<longleftrightarrow>
     queue_rep (job_queue (pool s)) (jobs s) as \<and>
     distinct (as @ concat (map carried (workers s))) \<and>
     (\<forall>a \<in> set (concat (map carried (workers s))). jobs s a \<noteq> None) \<and>
     mset (added s) = mset (executed s) + mset (map (task_at (jobs s)) (as @ concat (map carried (workers s))))"

text \<open>The condition variables. Each counts its sleeping threads. Once the semaphore has been posted, not all workers sleep
  without a wake-up: this is what the signal of a post is for. The client only sleeps when the semaphore has been posted.\<close>

fun past_sem :: "wpc \<Rightarrow> bool" where
  "past_sem W_Check = True"
| "past_sem W_Inc = True"
| "past_sem W_IncUnlock = True"
| "past_sem W_Pull = True"
| "past_sem (W_Run p) = True"
| "past_sem W_Dec = True"
| "past_sem _ = False"

definition sem :: "pool_state \<Rightarrow> BinarySemaphore" where
  "sem s = q_has_job (job_queue (pool s))"

definition asleep :: "wpc list \<Rightarrow> nat" where
  "asleep ws = num (\<lambda>pc. pc = W_SemSleep) ws"

definition cond_inv :: "pool_state \<Rightarrow> bool" where
  "cond_inv s \<longleftrightarrow>
     sleepers (bs_cond (sem s)) = asleep (workers s) \<and> wakeups (bs_cond (sem s)) \<le> sleepers (bs_cond (sem s)) \<and>
     sleepers (pool_cond (pool s)) = of_bool (main_pc s = M_WaitSleep) \<and> wakeups (pool_cond (pool s)) \<le> sleepers (pool_cond (pool s)) \<and>
     (bs_value (sem s) \<and> workers s \<noteq> [] \<longrightarrow> 0 < wakeups (bs_cond (sem s)) \<or> asleep (workers s) < length (workers s)) \<and>
     (\<forall>t < length (workers s). past_sem (workers s ! t) \<longrightarrow> bs_value (sem s)) \<and>
     (main_pc s = M_WaitCond \<or> main_pc s = M_WaitSleep \<longrightarrow> bs_value (sem s))"

definition pool_inv :: "nat \<Rightarrow> pool_state \<Rightarrow> bool" where
  "pool_inv n s \<longleftrightarrow> workers_inv n s \<and> lock_inv s \<and> phase_inv s \<and> cond_inv s \<and> (\<not> freed s \<longrightarrow> (\<exists>as. jobs_inv s as))"

section \<open>A worker keeps the invariants\<close>

lemma set_pool_simps [simp]:
  "pool (set_pool f s) = f (pool s)" "jobs (set_pool f s) = jobs s" "workers (set_pool f s) = workers s"
  "main_pc (set_pool f s) = main_pc s" "freed (set_pool f s) = freed s" "added (set_pool f s) = added s"
  "executed (set_pool f s) = executed s"
  by (simp_all add: set_pool_def)

lemma set_sem_simps [simp]:
  "job_queue (pool (set_sem bs s)) = (job_queue (pool s))\<lparr>q_has_job := bs\<rparr>" "pool_cond (pool (set_sem bs s)) = pool_cond (pool s)"
  "alive (pool (set_sem bs s)) = alive (pool s)" "thread_num (pool (set_sem bs s)) = thread_num (pool s)"
  "working_threads (pool (set_sem bs s)) = working_threads (pool s)" "alive_threads (pool (set_sem bs s)) = alive_threads (pool s)"
  "pool_mutex (pool (set_sem bs s)) = pool_mutex (pool s)" "jobs (set_sem bs s) = jobs s" "workers (set_sem bs s) = workers s"
  "main_pc (set_sem bs s) = main_pc s" "freed (set_sem bs s) = freed s" "added (set_sem bs s) = added s"
  "executed (set_sem bs s) = executed s"
  by (simp_all add: set_sem_def)

lemma signal_idle_simps [simp]:
  "job_queue (signal_idle p) = job_queue p" "alive (signal_idle p) = alive p" "thread_num (signal_idle p) = thread_num p"
  "working_threads (signal_idle p) = working_threads p" "alive_threads (signal_idle p) = alive_threads p"
  "pool_mutex (signal_idle p) = pool_mutex p"
  by (simp_all add: signal_idle_def)

lemma goto_simps [simp]:
  "pool (goto t pc s) = pool s" "jobs (goto t pc s) = jobs s" "workers (goto t pc s) = (workers s)[t := pc]"
  "main_pc (goto t pc s) = main_pc s" "freed (goto t pc s) = freed s" "added (goto t pc s) = added s"
  "executed (goto t pc s) = executed s"
  by (simp_all add: goto_def)

lemma lock_pool_Next: "lock_pool me s = Next s' \<longleftrightarrow>
    pool_mutex (pool s) = None \<and> s' = set_pool (\<lambda>p. p\<lparr>pool_mutex := Some me\<rparr>) s"
  by (auto simp: lock_pool_def split: option.splits if_splits)

lemma unlock_pool_Next: "unlock_pool me s = Next s' \<longleftrightarrow>
    pool_mutex (pool s) = Some me \<and> s' = set_pool (\<lambda>p. p\<lparr>pool_mutex := None\<rparr>) s"
  by (auto simp: unlock_pool_def)

lemma run_task_Next: "run_task t p s = Next s' \<longleftrightarrow>
    (p = Null \<and> s' = goto t W_Dec s) \<or>
    (\<exists>a j. p = Ref a \<and> jobs s a = Some j \<and>
       s' = goto t W_Dec (s\<lparr>jobs := (jobs s)(a := None), executed := executed s @ [(j_func j, j_arg j)]\<rparr>))"
  by (cases p; cases "jobs s (case p of Ref a \<Rightarrow> a)") (auto simp: run_task_def get_job_def free_job_def)

lemmas step_Next = and_then_Next lock_pool_Next unlock_pool_Next run_task_Next

lemma worker_step_frame:
  assumes "worker_step t s = Next s'"
  shows "main_pc s' = main_pc s" "freed s' = freed s" "added s' = added s" "alive (pool s') = alive (pool s)"
    "thread_num (pool s') = thread_num (pool s)" "\<not> freed s"
  using assms
  by (cases "workers s ! t"; auto simp: worker_step_def step_Next split: if_splits prod.splits)+

lemma worker_step_count:
  assumes "workers_inv n s" and "t < n" and "worker_step t s = Next s'"
  shows "workers_inv n s'"
  using assms
  by (cases "workers s ! t")
     (auto simp: worker_step_def step_Next workers_inv_def int_num_update split: if_splits prod.splits)

lemma worker_step_lock:
  assumes "lock_inv s" and "t < length (workers s)" and "worker_step t s = Next s'"
  shows "lock_inv s'"
proof -
  have "holds (workers s ! t) \<longleftrightarrow> pool_mutex (pool s) = Some (Worker t)" using assms(1,2) by (simp add: lock_inv_def)
  then show ?thesis using assms
    by (cases "workers s ! t")
       (auto simp: worker_step_def step_Next lock_inv_def nth_list_update split: if_splits prod.splits)
qed

lemma worker_step_phase:
  assumes "phase_inv s" and "t < length (workers s)" and "worker_step t s = Next s'"
  shows "phase_inv s'"
  using assms
  by (cases "workers s ! t")
     (auto simp: worker_step_def step_Next phase_inv_def nth_list_update split: if_splits prod.splits)

text \<open>The jobs a state accounts for: the queued ones and those the workers carry.\<close>

abbreviation carried_by :: "pool_state \<Rightarrow> addr list" where
  "carried_by s \<equiv> concat (map carried (workers s))"

lemma carried_update:
  "t < length ws \<Longrightarrow> mset (concat (map carried (ws[t := pc]))) + mset (carried (ws ! t)) =
    mset (concat (map carried ws)) + mset (carried pc)"
  using mset_concat_update [of t "map carried ws" "carried pc"] by (simp add: map_update)

lemma jobs_inv_allocated: "jobs_inv s as \<Longrightarrow> a \<in> set (as @ carried_by s) \<Longrightarrow> jobs s a \<noteq> None"
  using path_allocated [of j_next "jobs s" _ as Null a] by (auto simp: jobs_inv_def queue_rep_def)

lemma jobs_inv_move:
  assumes "jobs_inv s as" and "queue_rep (job_queue (pool s')) (jobs s') as'"
    and "mset (as' @ carried_by s') = mset (as @ carried_by s)"
    and "jobs s' = jobs s" "added s' = added s" "executed s' = executed s"
  shows "jobs_inv s' as'"
proof -
  have "distinct (as' @ carried_by s')"
    using mset_eq_imp_distinct_iff [OF assms(3)] assms(1) unfolding jobs_inv_def by blast
  moreover have "set (as' @ carried_by s') = set (as @ carried_by s)" using assms(3) by (rule mset_eq_setD)
  then have "\<forall>a \<in> set (carried_by s'). jobs s' a \<noteq> None"
    using jobs_inv_allocated [OF assms(1)] assms(4) by (metis Un_iff set_append)
  moreover have "mset (map (task_at (jobs s')) (as' @ carried_by s')) = mset (map (task_at (jobs s)) (as @ carried_by s))"
    using assms(3,4) by (metis mset_map)
  ultimately show ?thesis using assms(1,2,5,6) by (simp only: jobs_inv_def)
qed

lemma jobs_inv_run:
  assumes "jobs_inv s as" and "jobs s a = Some j"
    and "mset (as @ carried_by s) = add_mset a (mset (as @ carried_by s'))"
    and "pool s' = pool s" "jobs s' = (jobs s)(a := None)" "added s' = added s"
    and "executed s' = executed s @ [(j_func j, j_arg j)]"
  shows "jobs_inv s' as"
proof -
  have "distinct (a # as @ carried_by s')"
    using mset_eq_imp_distinct_iff [of "a # as @ carried_by s'" "as @ carried_by s"] assms(1,3)
    unfolding jobs_inv_def by auto
  then have a: "a \<notin> set (as @ carried_by s')" "distinct (as @ carried_by s')" by auto
  have "set (as @ carried_by s) = insert a (set (as @ carried_by s'))" using arg_cong [OF assms(3), of set_mset] by simp
  then have sub: "set (as @ carried_by s') \<subseteq> set (as @ carried_by s)" by blast
  have "queue_rep (job_queue (pool s)) (jobs s) as" using assms(1) unfolding jobs_inv_def by blast
  then have "queue_rep (job_queue (pool s)) ((jobs s)(a := None)) as" by (rule queue_rep_frame) (use a(1) in auto)
  then have "queue_rep (job_queue (pool s')) (jobs s') as" by (simp add: assms(4,5))
  moreover have "jobs s' b \<noteq> None" if b: "b \<in> set (carried_by s')" for b
  proof -
    have "b \<in> set (as @ carried_by s)" "b \<noteq> a" using b sub a(1) by auto
    then show ?thesis using jobs_inv_allocated [OF assms(1)] assms(5) by simp
  qed
  moreover have tasks: "map (task_at (jobs s')) (as @ carried_by s') = map (task_at (jobs s)) (as @ carried_by s')"
    using a(1) assms(5) by (intro map_cong) (auto simp: task_at_def)
  moreover obtain X where X: "mset (map (task_at (jobs s')) (as @ carried_by s')) = X" by blast
  have "mset (map (task_at (jobs s)) (as @ carried_by s)) = add_mset (j_func j, j_arg j) X"
    unfolding X [unfolded tasks, symmetric]
    using arg_cong [OF assms(3), of "image_mset (task_at (jobs s))"] assms(2) by (simp add: task_at_def [of _ a])
  then have "mset (added s') = mset (executed s') + X" using assms(1,6,7) unfolding jobs_inv_def by simp
  ultimately show ?thesis using a(2) X unfolding jobs_inv_def by blast
qed

text \<open>The semaphore without its condition variable: what the queue's invariant looks at.\<close>

lemma queue_rep_sem:
  "queue_rep jq h as \<Longrightarrow> bs_mutex bs = bs_mutex (q_has_job jq) \<Longrightarrow> bs_value bs = bs_value (q_has_job jq) \<or> bs_value bs \<Longrightarrow>
   queue_rep (jq\<lparr>q_has_job := bs\<rparr>) h as"
  by (auto simp: queue_rep_def)

lemma sem_wait_Next: "BinarySemaphoreWait bs = Next (over, bs') \<Longrightarrow> bs_mutex bs' = bs_mutex bs \<and> bs_value bs' = bs_value bs"
  by (auto simp: BinarySemaphoreWait_def lock_sem_def unlock_sem_def split: if_splits)

lemma sem_wake_Next: "BinarySemaphoreWake bs = Next bs' \<Longrightarrow> bs_mutex bs' = bs_mutex bs \<and> bs_value bs' = bs_value bs"
  by (auto simp: BinarySemaphoreWake_def and_then_Next)

lemma worker_step_jobs:
  assumes J: "jobs_inv s as" and t: "t < length (workers s)" and st: "worker_step t s = Next s'"
  shows "\<exists>as'. jobs_inv s' as'"
proof -
  note C = carried_update [OF t]
  have moved: "jobs_inv s' as" if q: "queue_rep (job_queue (pool s')) (jobs s') as" "jobs s' = jobs s" "executed s' = executed s"
    "workers s' = (workers s)[t := workers s' ! t]" "carried (workers s' ! t) = []" "carried (workers s ! t) = []"
    using C [of "workers s' ! t"] q worker_step_frame(3) [OF st] by (intro jobs_inv_move [OF J]) auto
  have R: "queue_rep (job_queue (pool s)) (jobs s) as" using J unfolding jobs_inv_def by blast
  have quiet: "jobs_inv s' as" if q: "job_queue (pool s') = job_queue (pool s)" "jobs s' = jobs s" "executed s' = executed s"
    "workers s' = (workers s)[t := workers s' ! t]" "carried (workers s' ! t) = []" "carried (workers s ! t) = []"
    using R q moved by simp
  show ?thesis
  proof (cases "workers s ! t")
    case W_Pull
    show ?thesis
    proof (cases as)
      case Nil
      then have "JobQueuePull (job_queue (pool s), jobs s) = Some (Null, job_queue (pool s), jobs s)"
        using J by (intro pull_rep_empty) (simp add: jobs_inv_def)
      then show ?thesis using st W_Pull t quiet by (auto simp: worker_step_def step_Next split: if_splits)
    next
      case (Cons a as')
      obtain jq' where p: "JobQueuePull (job_queue (pool s), jobs s) = Some (Ref a, jq', jobs s)" "queue_rep jq' (jobs s) as'"
        using pull_rep [of "job_queue (pool s)" "jobs s" a as'] J Cons by (auto simp: jobs_inv_def)
      then have "s' = goto t (W_Run (Ref a)) (set_pool (\<lambda>p. p\<lparr>job_queue := jq'\<rparr>) s)"
        using st W_Pull by (auto simp: worker_step_def step_Next split: if_splits)
      then show ?thesis using p(2) C [of "W_Run (Ref a)"] W_Pull Cons
        by (intro exI [of _ as'] jobs_inv_move [OF J]) auto
    qed
  next
    case (W_Run p)
    show ?thesis
    proof (cases p)
      case Null
      then show ?thesis using st W_Run t quiet by (auto simp: worker_step_def step_Next split: if_splits)
    next
      case (Ref a)
      then obtain j where "jobs s a = Some j"
        "s' = goto t W_Dec (s\<lparr>jobs := (jobs s)(a := None), executed := executed s @ [(j_func j, j_arg j)]\<rparr>)"
        using st W_Run by (auto simp: worker_step_def step_Next split: if_splits)
      then show ?thesis using C [of W_Dec] W_Run Ref by (intro exI [of _ as] jobs_inv_run [OF J]) auto
    qed
  next
    case W_SemWait
    then obtain over bs where "BinarySemaphoreWait (q_has_job (job_queue (pool s))) = Next (over, bs)"
      "s' = goto t (if over then W_Check else W_SemSleep) (set_sem bs s)"
      using st by (auto simp: worker_step_def step_Next split: if_splits prod.splits)
    then have "jobs_inv s' as" using t W_SemWait queue_rep_sem [OF R, of bs] by (intro moved) (auto dest: sem_wait_Next)
    then show ?thesis by blast
  next
    case W_SemSleep
    then obtain bs where "BinarySemaphoreWake (q_has_job (job_queue (pool s))) = Next bs" "s' = goto t W_SemWait (set_sem bs s)"
      using st by (auto simp: worker_step_def step_Next split: if_splits)
    then have "jobs_inv s' as" using t W_SemSleep queue_rep_sem [OF R, of bs] by (intro moved) (auto dest: sem_wake_Next)
    then show ?thesis by blast
  qed (use st t quiet in \<open>auto simp: worker_step_def step_Next split: if_splits\<close>)
qed

section \<open>The client keeps the invariants\<close>

lemma task_at_next:
  assumes "map_option (set_job_next Null) (h' a) = map_option (set_job_next Null) (h a)"
  shows "task_at h' a = task_at h a"
proof -
  have "task_at m a = task_at (\<lambda>a. map_option (set_job_next Null) (m a)) a" for m
    by (cases "m a") (simp_all add: task_at_def)
  then show ?thesis using assms by (metis task_at_def)
qed

lemma post_all_Some: "BinarySemaphorePostAll bs = Some bs' \<longleftrightarrow> \<not> bs_mutex bs \<and> bs' = bs\<lparr>bs_mutex := False, bs_value := True, bs_cond := pthread_cond_broadcast (bs_cond bs)\<rparr>"
  by (auto simp: BinarySemaphorePostAll_def lock_sem_def unlock_sem_def)

lemma main_step_workers:
  assumes "main_step ch s = Next s'"
  shows "workers s' = workers s \<or>
    (\<exists>i. main_pc s = M_Create i \<and> main_pc s' = M_Create (Suc i) \<and> i < thread_num (pool s) \<and> pool s' = pool s \<and>
       workers s' = (workers s)[i := W_Start])"
  using assms
  by (auto simp: main_step.simps add_step_def step_Next ThreadCreate_def split: mpc.splits choice.splits if_splits prod.splits)

lemma main_step_count:
  assumes "workers_inv n s" and "phase_inv s" and "main_step ch s = Next s'"
  shows "workers_inv n s'"
  using assms
  by (auto simp: main_step.simps add_step_def step_Next ThreadCreate_def workers_inv_def int_num_update phase_inv_def
      split: mpc.splits choice.splits if_splits prod.splits)

lemma main_step_lock:
  assumes "lock_inv s" and "phase_inv s" and "main_step ch s = Next s'" and "thread_num (pool s) = length (workers s)"
  shows "lock_inv s'"
proof -
  have "pool_mutex (pool s) \<noteq> Some (Worker i)" if i: "main_pc s = M_Create i" "i < length (workers s)" for i
  proof -
    have "workers s ! i = W_None" using assms(2) i by (simp add: phase_inv_def)
    then show ?thesis using assms(1) i(2) by (force simp: lock_inv_def)
  qed
  then show ?thesis using assms
    by (auto simp: main_step.simps add_step_def step_Next ThreadCreate_def lock_inv_def nth_list_update
        split: mpc.splits choice.splits if_splits prod.splits)
qed

lemma main_step_phase:
  assumes "phase_inv s" and "workers_inv n s" and "main_step ch s = Next s'"
  shows "phase_inv s'"
proof -
  have none: "\<not> counted (workers s ! t)" if t: "\<not> 0 < alive_threads (pool s)" "t < length (workers s)" for t
    using assms(2) t by (auto simp: workers_inv_def num_zero)
  have all: "\<not> starting (workers s ! t)" if t: "alive_threads (pool s) = int (thread_num (pool s))" "t < length (workers s)" for t
  proof -
    have "num counted (workers s) = length (workers s)" using assms(2) t by (simp add: workers_inv_def)
    then have "counted (workers s ! t)" using t(2) by (simp add: num_all)
    then show ?thesis by (cases "workers s ! t") auto
  qed
  have "thread_num (pool s) = length (workers s)" using assms(2) by (simp add: workers_inv_def)
  then show ?thesis using none all assms(1,3)
    by (auto simp: main_step.simps add_step_def step_Next ThreadCreate_def phase_inv_def nth_list_update
        split: mpc.splits choice.splits if_splits prod.splits)
qed

lemma jobs_inv_add:
  assumes J: "jobs_inv s as" and st: "add_step mem f g s = Next s'"
  shows "\<exists>as'. jobs_inv s' as'"
proof (cases mem)
  case None
  then have "s' = set_pool (\<lambda>p. p\<lparr>job_queue := job_queue (pool s)\<rparr>) s"
    using st by (auto simp: add_step_def step_Next ThreadPoolAddTask_def split: if_splits)
  then have "jobs_inv s' as" using J by (intro jobs_inv_move [OF J]) (auto simp: jobs_inv_def)
  then show ?thesis by blast
next
  case (Some x)
  obtain a raw where x: "x = (a, raw)" by (cases x)
  have R: "queue_rep (job_queue (pool s)) (jobs s) as" using J unfolding jobs_inv_def by blast
  have a: "jobs s a = None" "addr_ok a" using st Some x by (auto simp: add_step_def malloc_ok_def split: if_splits)
  obtain jq' h' where add: "ThreadPoolAddTask (Some (a, raw)) f g (job_queue (pool s), jobs s) = Some (True, jq', h')"
    "queue_rep jq' h' (as @ [a])" "h' a = Some \<lparr>j_next = Null, j_func = f, j_arg = g\<rparr>"
    "\<And>b. b \<noteq> a \<Longrightarrow> map_option (set_job_next Null) (h' b) = map_option (set_job_next Null) (jobs s b)"
    using add_task_rep [OF R a, of raw f g] by blast
  have s': "workers s' = workers s" "job_queue (pool s') = jq'" "jobs s' = h'" "executed s' = executed s" "added s' = added s @ [(f, g)]"
    using st Some x add(1) by (auto simp: add_step_def step_Next split: if_splits)
  have fresh: "a \<notin> set (as @ carried_by s)" using jobs_inv_allocated [OF J] a(1) by blast
  have tasks: "task_at h' b = task_at (jobs s) b" if b: "b \<in> set (as @ carried_by s)" for b
    using b fresh add(4) [of b] by (intro task_at_next) auto
  have "jobs_inv s' (as @ [a])"
    unfolding jobs_inv_def s'
  proof (intro conjI ballI)
    show "queue_rep jq' h' (as @ [a])" by (fact add(2))
    show "distinct ((as @ [a]) @ carried_by s)" using J fresh by (auto simp: jobs_inv_def)
    show "h' b \<noteq> None" if b: "b \<in> set (carried_by s)" for b
      using jobs_inv_allocated [OF J, of b] add(4) [of b] b fresh by (cases "b = a") auto
    have view: "map (task_at h') ((as @ [a]) @ carried_by s) = map (task_at (jobs s)) as @ [(f, g)] @ map (task_at (jobs s)) (carried_by s)"
      using tasks add(3) by (simp add: task_at_def [of _ a])
    have "mset (added s) = mset (executed s) + mset (map (task_at (jobs s)) (as @ carried_by s))"
      using J unfolding jobs_inv_def by blast
    then show "mset (added s @ [(f, g)]) = mset (executed s) + mset (map (task_at h') ((as @ [a]) @ carried_by s))"
      unfolding view by simp
  qed
  then show ?thesis by blast
qed

lemma main_step_quiet:
  assumes "main_step ch s = Next s'" and "\<not> freed s'" and "\<nexists>mem f g. main_pc s = M_Idle \<and> ch = Add mem f g"
  shows "jobs s' = jobs s" "executed s' = executed s" "added s' = added s"
    "job_queue (pool s') = job_queue (pool s) \<or>
     (\<exists>bs. BinarySemaphorePostAll (q_has_job (job_queue (pool s))) = Some bs \<and>
        job_queue (pool s') = (job_queue (pool s))\<lparr>q_has_job := bs\<rparr>)"
  using assms
  by (auto simp: main_step.simps step_Next split: mpc.splits choice.splits if_splits prod.splits)

lemma main_step_jobs:
  assumes J: "jobs_inv s as" and st: "main_step ch s = Next s'" and ph: "phase_inv s" and n: "thread_num (pool s) = length (workers s)"
  shows "freed s' \<or> (\<exists>as'. jobs_inv s' as')"
proof -
  have R: "queue_rep (job_queue (pool s)) (jobs s) as" using J unfolding jobs_inv_def by blast
  have "map carried ((workers s)[i := W_Start]) = map carried (workers s)" if i: "main_pc s = M_Create i" "i < length (workers s)" for i
  proof -
    have "carried W_Start = carried (workers s ! i)" using ph i by (simp add: phase_inv_def)
    then show ?thesis by (metis list_update_id map_update)
  qed
  then have carried: "carried_by s' = carried_by s" using main_step_workers [OF st] n by auto
  have "jobs_inv s' as" if q: "\<not> freed s'" "\<nexists>mem f g. main_pc s = M_Idle \<and> ch = Add mem f g"
  proof (rule jobs_inv_move [OF J])
    show "queue_rep (job_queue (pool s')) (jobs s') as"
      using main_step_quiet(1,4) [OF st q] R by (auto simp: queue_rep_def post_all_Some)
  qed (use carried main_step_quiet(1-3) [OF st q] in simp_all)
  moreover have "\<exists>as'. jobs_inv s' as'" if "\<exists>mem f g. main_pc s = M_Idle \<and> ch = Add mem f g"
    using that jobs_inv_add [OF J] st by (auto simp: main_step.simps)
  ultimately show ?thesis by blast
qed

section \<open>The condition variables\<close>

lemma cond_signal_simps [simp]:
  "sleepers (pthread_cond_signal c) = sleepers c"
  "wakeups (pthread_cond_signal c) = (if wakeups c < sleepers c then wakeups c + 1 else wakeups c)"
  by (simp_all add: pthread_cond_signal_def)

lemma asleep_update: "t < length ws \<Longrightarrow>
    asleep (ws[t := pc]) + of_bool (ws ! t = W_SemSleep) = asleep ws + of_bool (pc = W_SemSleep)"
  unfolding asleep_def by (rule num_update)

lemma asleep_le: "asleep ws \<le> length ws"
  unfolding asleep_def by (rule num_le)

text \<open>The part of the invariant about the semaphore, for a semaphore and the workers.\<close>

definition sem_inv :: "BinarySemaphore \<Rightarrow> wpc list \<Rightarrow> bool" where
  "sem_inv bs ws \<longleftrightarrow>
     sleepers (bs_cond bs) = asleep ws \<and> wakeups (bs_cond bs) \<le> sleepers (bs_cond bs) \<and>
     (bs_value bs \<and> ws \<noteq> [] \<longrightarrow> 0 < wakeups (bs_cond bs) \<or> asleep ws < length ws) \<and>
     (\<forall>t < length ws. past_sem (ws ! t) \<longrightarrow> bs_value bs)"

lemma cond_inv_split: "cond_inv s \<longleftrightarrow> sem_inv (sem s) (workers s) \<and>
    sleepers (pool_cond (pool s)) = of_bool (main_pc s = M_WaitSleep) \<and> wakeups (pool_cond (pool s)) \<le> sleepers (pool_cond (pool s)) \<and>
    (main_pc s = M_WaitCond \<or> main_pc s = M_WaitSleep \<longrightarrow> bs_value (sem s))"
  unfolding cond_inv_def sem_inv_def by blast

lemma sem_inv_posted: "sem_inv bs ws \<Longrightarrow> sem_inv (posted bs) ws"
  using asleep_le [of ws] by (auto simp: sem_inv_def)

lemma sem_inv_signal: "sem_inv bs ws \<Longrightarrow> sem_inv (bs\<lparr>bs_cond := pthread_cond_signal (bs_cond bs)\<rparr>) ws"
  by (auto simp: sem_inv_def)

lemma sem_inv_move:
  assumes "sem_inv bs ws" and "t < length ws" and "ws ! t \<noteq> W_SemSleep" and "pc \<noteq> W_SemSleep"
    and "past_sem pc \<Longrightarrow> past_sem (ws ! t) \<or> bs_value bs"
  shows "sem_inv bs (ws[t := pc])"
  using assms asleep_update [OF assms(2), of pc] by (auto simp: sem_inv_def nth_list_update)

lemma sem_inv_fall_asleep:
  assumes "sem_inv bs ws" and "t < length ws" and "ws ! t = W_SemWait" and "\<not> bs_value bs"
  shows "sem_inv (bs\<lparr>bs_cond := cond_sleep (bs_cond bs)\<rparr>) (ws[t := W_SemSleep])"
  using assms asleep_update [OF assms(2), of W_SemSleep] by (auto simp: sem_inv_def cond_sleep_def nth_list_update)

lemma sem_inv_wake_up:
  assumes "sem_inv bs ws" and "t < length ws" and "ws ! t = W_SemSleep" and "BinarySemaphoreWake bs = Next bs'"
  shows "sem_inv bs' (ws[t := W_SemWait])"
  using assms asleep_update [OF assms(2), of W_SemWait] asleep_le [of ws]
  by (auto simp: sem_inv_def BinarySemaphoreWake_def cond_wake_def and_then_Next nth_list_update split: if_splits)

lemma worker_step_sem:
  assumes I: "sem_inv (sem s) (workers s)" and m: "\<not> bs_mutex (sem s)" and t: "t < length (workers s)" and st: "worker_step t s = Next s'"
  shows "sem_inv (sem s') (workers s')" and "bs_value (sem s) \<Longrightarrow> bs_value (sem s')"
proof -
  note mv = sem_inv_move [OF I t]
  consider "workers s ! t = W_SemWait" | "workers s ! t = W_SemSleep" | "workers s ! t = W_Pull"
    | "workers s ! t \<noteq> W_SemWait" "workers s ! t \<noteq> W_SemSleep" "workers s ! t \<noteq> W_Pull" by blast
  then have "sem_inv (sem s') (workers s') \<and> (bs_value (sem s) \<longrightarrow> bs_value (sem s'))"
  proof cases
    case 1
    then show ?thesis using st mv [of W_Check] sem_inv_fall_asleep [OF I t 1] m
      by (auto simp: worker_step_def step_Next wait_sem sem_def split: if_splits)
  next
    case 2
    then show ?thesis using st sem_inv_wake_up [OF I t 2]
      by (auto simp: worker_step_def step_Next sem_def dest: sem_wake_Next split: if_splits)
  next
    case 3
    then obtain p jq h where p: "JobQueuePull (job_queue (pool s), jobs s) = Some (p, jq, h)"
      "s' = goto t (W_Run p) (set_pool (\<lambda>p. p\<lparr>job_queue := jq\<rparr>) (s\<lparr>jobs := h\<rparr>))"
      using st by (auto simp: worker_step_def step_Next split: if_splits prod.splits)
    have "sem s' = sem s \<or> sem s' = posted (sem s)" using pull_sem [OF p(1)] m p(2) by (simp add: sem_def)
    moreover have "sem_inv (sem s) (workers s')" using mv [of "W_Run p"] 3 p(2) by simp
    ultimately show ?thesis using sem_inv_posted by auto
  next
    case 4
    then have "sem s' = sem s \<and> (\<exists>pc. workers s' = (workers s)[t := pc] \<and> pc \<noteq> W_SemSleep \<and> (past_sem pc \<longrightarrow> past_sem (workers s ! t)))"
      using st by (cases "workers s ! t") (auto simp: worker_step_def step_Next sem_def split: if_splits)
    then show ?thesis using mv 4(2) by metis
  qed
  then show "sem_inv (sem s') (workers s')" "bs_value (sem s) \<Longrightarrow> bs_value (sem s')" by blast+
qed

lemma worker_step_pool_cond:
  assumes "worker_step t s = Next s'"
  shows "pool_cond (pool s') = pool_cond (pool s) \<or> pool_cond (pool s') = pthread_cond_signal (pool_cond (pool s))"
  using assms by (cases "workers s ! t") (auto simp: worker_step_def step_Next signal_idle_def split: if_splits prod.splits)

lemma worker_step_cond:
  assumes "cond_inv s" and "jobs_inv s as" and "t < length (workers s)" and "worker_step t s = Next s'"
  shows "cond_inv s'"
proof -
  have "\<not> bs_mutex (sem s)" using assms(2) queue_repD(7) unfolding jobs_inv_def sem_def by blast
  then show ?thesis using assms(1,3,4) worker_step_sem [of s t s'] worker_step_frame(1) [OF assms(4)] worker_step_pool_cond [OF assms(4)]
    unfolding cond_inv_split by auto
qed

lemma main_step_sem:
  assumes J: "jobs_inv s as" and st: "main_step ch s = Next s'"
  shows "sem s' = sem s \<or> sem s' = posted (sem s) \<or>
    sem s' = (sem s)\<lparr>bs_value := True, bs_cond := pthread_cond_broadcast (bs_cond (sem s))\<rparr>"
proof -
  have m: "\<not> bs_mutex (sem s)" using J queue_repD(7) unfolding jobs_inv_def sem_def by blast
  have "sem s' = sem s \<or> sem s' = posted (sem s)" if "add_step mem f g s = Next s'" for mem f g
    using that m
    by (auto simp: add_step_def step_Next ThreadPoolAddTask_def bind_eq_Some_conv sem_def dest!: push_sem
        split: if_splits prod.splits option.splits)
  then show ?thesis using st m
    by (auto simp: main_step.simps step_Next sem_def post_all_Some split: mpc.splits choice.splits if_splits)
qed

lemma main_step_cond:
  assumes I: "cond_inv s" and J: "jobs_inv s as" and W: "workers_inv n s" and P: "phase_inv s" and st: "main_step ch s = Next s'"
  shows "cond_inv s'"
proof -
  let ?all = "(sem s)\<lparr>bs_value := True, bs_cond := pthread_cond_broadcast (bs_cond (sem s))\<rparr>"
  have S: "sem_inv (sem s) (workers s)" using I unfolding cond_inv_split by blast
  then have "sem_inv ?all (workers s)" using asleep_le [of "workers s"] by (auto simp: sem_inv_def pthread_cond_broadcast_def)
  then have S': "sem_inv (sem s') (workers s)" "bs_value (sem s) \<Longrightarrow> bs_value (sem s')"
    using main_step_sem [OF J st] S sem_inv_posted by auto
  have "sem_inv (sem s') (workers s')"
    using main_step_workers [OF st] S'(1) P W by (auto simp: phase_inv_def workers_inv_def intro!: sem_inv_move)
  moreover have "sleepers (pool_cond (pool s')) = of_bool (main_pc s' = M_WaitSleep) \<and> wakeups (pool_cond (pool s')) \<le> sleepers (pool_cond (pool s'))"
    using I st unfolding cond_inv_split
    by (auto simp: main_step.simps add_step_def step_Next cond_sleep_def cond_wake_def
        split: mpc.splits choice.splits if_splits prod.splits)
  moreover have "bs_value (sem s')" if w: "main_pc s' = M_WaitCond \<or> main_pc s' = M_WaitSleep"
  proof -
    have R: "queue_rep (job_queue (pool s)) (jobs s) as" using J unfolding jobs_inv_def by blast
    have "bs_value (sem s)" if "0 < q_length (job_queue (pool s))"
      using that queue_repD(8) [OF R] queue_length_zero [OF R] by (auto simp: sem_def)
    moreover have "bs_value (sem s)" if work: "0 < working_threads (pool s)"
    proof -
      obtain pc where "pc \<in> set (workers s)" "in_work pc" using work W num_zero [of in_work "workers s"] by (auto simp: workers_inv_def)
      then obtain t where "t < length (workers s)" "past_sem (workers s ! t)" by (auto simp: in_set_conv_nth elim!: in_work.elims)
      then show ?thesis using S by (simp add: sem_inv_def)
    qed
    moreover have "bs_value (sem s)" if "main_pc s = M_WaitCond \<or> main_pc s = M_WaitSleep"
      using I that unfolding cond_inv_split by blast
    ultimately have "bs_value (sem s)" using w st
      by (auto simp: main_step.simps add_step_def step_Next split: mpc.splits choice.splits if_splits prod.splits)
    then show ?thesis by (rule S'(2))
  qed
  ultimately show ?thesis unfolding cond_inv_split by blast
qed

lemma stray_wakeup_frame [simp]:
  "workers (stray_wakeup w s) = workers s" "main_pc (stray_wakeup w s) = main_pc s" "freed (stray_wakeup w s) = freed s"
  "jobs (stray_wakeup w s) = jobs s" "added (stray_wakeup w s) = added s" "executed (stray_wakeup w s) = executed s"
  "pool_mutex (pool (stray_wakeup w s)) = pool_mutex (pool s)" "alive (pool (stray_wakeup w s)) = alive (pool s)"
  "q_length (job_queue (pool (stray_wakeup w s))) = q_length (job_queue (pool s))"
  by (cases w; simp add: Let_def)+

lemma stray_wakeup_inv:
  assumes "pool_inv n s"
  shows "pool_inv n (stray_wakeup w s)"
proof -
  have "jobs_inv (stray_wakeup w s) as" if J: "jobs_inv s as" for as
  proof (rule jobs_inv_move [OF J])
    show "queue_rep (job_queue (pool (stray_wakeup w s))) (jobs (stray_wakeup w s)) as"
      using J queue_rep_sem [of "job_queue (pool s)" "jobs s" as] by (cases w) (simp_all add: jobs_inv_def Let_def)
  qed simp_all
  moreover have "workers_inv n (stray_wakeup w s)" "lock_inv (stray_wakeup w s)" "phase_inv (stray_wakeup w s)"
    using assms by (cases w; simp add: pool_inv_def workers_inv_def lock_inv_def phase_inv_def Let_def)+
  moreover have "cond_inv (stray_wakeup w s)"
    using assms sem_inv_signal unfolding pool_inv_def cond_inv_split by (cases w) (auto simp: sem_def Let_def)
  ultimately show ?thesis using assms unfolding pool_inv_def by auto
qed

section \<open>The invariant holds in every reachable state\<close>

lemma pool_inv_create:
  assumes "ThreadPoolCreate n raw raw_queue raw_sem True Map.empty = Some s"
  shows "pool_inv n s"
proof -
  obtain jq p where *: "JobQueueCreate raw_queue raw_sem = Some jq" "s = \<lparr>pool = p\<lparr>thread_num := n, alive := True, alive_threads := 0,
      working_threads := 0, job_queue := jq, pool_mutex := None, pool_cond := pthread_cond_init\<rparr>, jobs = Map.empty, workers = replicate n W_None,
      main_pc = M_Create 0, freed = False, added = [], executed = []\<rparr>"
    using assms by (auto simp: ThreadPoolCreate_def bind_eq_Some_conv)
  have "queue_rep jq Map.empty []"
    using *(1) by (auto simp: JobQueueCreate_def BinarySemaphoreCreate_def BinarySemaphoreInit_def queue_rep_def Let_def
        split: option.splits)
  then have "jobs_inv s []" using *(2) by (simp add: jobs_inv_def map_replicate_const)
  moreover have "bs_cond (q_has_job jq) = pthread_cond_init" "\<not> bs_value (q_has_job jq)"
    using *(1) by (auto simp: JobQueueCreate_def BinarySemaphoreCreate_def BinarySemaphoreInit_def Let_def split: option.splits)
  then have "cond_inv s" using *(2) by (simp add: cond_inv_def sem_def asleep_def pthread_cond_init_def)
  ultimately show ?thesis using *(2) by (auto simp: pool_inv_def workers_inv_def lock_inv_def phase_inv_def)
qed

lemma reachable_pool_inv: "reachable n s \<Longrightarrow> pool_inv n s"
proof (induction rule: reachable.induct)
  case (create raw raw_queue raw_sem s)
  then show ?case by (rule pool_inv_create)
next
  case (worker s t s')
  then have len: "length (workers s) = n" by (simp add: pool_inv_def workers_inv_def)
  then show ?case using worker worker_step_count worker_step_lock worker_step_phase worker_step_jobs worker_step_cond worker_step_frame(6)
    unfolding pool_inv_def by metis
next
  case (client s ch s')
  then have n: "thread_num (pool s) = length (workers s)" by (simp add: pool_inv_def workers_inv_def)
  have "\<not> freed s" using client by (auto simp: pool_inv_def phase_inv_def main_step.simps)
  then show ?case using client n main_step_count main_step_lock main_step_phase main_step_jobs main_step_cond
    unfolding pool_inv_def by metis
next
  case (stray s w)
  then show ?case using stray_wakeup_inv by blast
qed

text \<open>While the wait is between its two reads, the queue is empty: it was when its length was read, and
  only the client adds tasks.\<close>

lemma worker_keeps_empty:
  assumes "jobs_inv s as" and "q_length (job_queue (pool s)) = 0" and "worker_step t s = Next s'"
  shows "q_length (job_queue (pool s')) = 0"
proof -
  have R: "queue_rep (job_queue (pool s)) (jobs s) as" using assms(1) unfolding jobs_inv_def by blast
  then have "as = []" using assms(2) queue_length_zero [OF R] by simp
  then have "JobQueuePull (job_queue (pool s), jobs s) = Some (Null, job_queue (pool s), jobs s)" using R pull_rep_empty by simp
  then show ?thesis using assms(2,3)
    by (cases "workers s ! t") (auto simp: worker_step_def step_Next split: if_splits)
qed

lemma reachable_wait_empty: "reachable n s \<Longrightarrow> main_pc s = M_WaitWork \<Longrightarrow> q_length (job_queue (pool s)) = 0"
proof (induction rule: reachable.induct)
  case (create raw raw_queue raw_sem s)
  then show ?case by (auto simp: ThreadPoolCreate_def bind_eq_Some_conv)
next
  case (worker s t s')
  obtain as where "jobs_inv s as"
    using reachable_pool_inv [OF worker.hyps(1)] worker_step_frame(6) [OF worker.hyps(3)] by (auto simp: pool_inv_def)
  then show ?case using worker worker_keeps_empty worker_step_frame(1) by metis
next
  case (client s ch s')
  then show ?case
    by (auto simp: main_step.simps add_step_def step_Next word_gt_0 split: mpc.splits choice.splits if_splits prod.splits)
qed simp

lemma not_in_work_carried: "\<not> in_work pc \<Longrightarrow> carried pc = []"
  by (cases pc) auto

section \<open>No step is undefined before the pool is freed\<close>

lemma lock_pool_Fault: "lock_pool me s = Fault \<longleftrightarrow> pool_mutex (pool s) = Some me"
  by (auto simp: lock_pool_def split: option.splits if_splits)

lemma unlock_pool_Fault: "unlock_pool me s = Fault \<longleftrightarrow> pool_mutex (pool s) \<noteq> Some me"
  by (auto simp: unlock_pool_def)

lemma queue_wait_Fault: "queue_rep jq h as \<Longrightarrow> BinarySemaphoreWait (q_has_job jq) \<noteq> Fault"
  using queue_repD(7) by (auto simp: wait_sem)

lemma wake_Fault: "BinarySemaphoreWake bs \<noteq> Fault" "cond_wake c \<noteq> Fault"
  by (simp_all add: BinarySemaphoreWake_def cond_wake_def)

lemma pull_defined: "queue_rep jq h as \<Longrightarrow> JobQueuePull (jq, h) \<noteq> None"
  using pull_rep_empty pull_rep by (cases as) fastforce+

lemma run_task_Fault: "run_task t p s = Fault \<longleftrightarrow> (\<exists>a. p = Ref a \<and> jobs s a = None)"
  by (cases p) (auto simp: run_task_def get_job_def free_job_def split: bind_splits)

lemma worker_no_fault:
  assumes J: "jobs_inv s as" and lock: "holds (workers s ! t) \<longleftrightarrow> pool_mutex (pool s) = Some (Worker t)"
    and nf: "\<not> freed s" and t: "t < length (workers s)"
  shows "worker_step t s \<noteq> Fault"
proof -
  have R: "queue_rep (job_queue (pool s)) (jobs s) as" using J unfolding jobs_inv_def by blast
  have "jobs s a \<noteq> None" if a: "workers s ! t = W_Run (Ref a)" for a
  proof -
    have "a \<in> set (carried_by s)" using a t nth_mem [OF t] by (metis UN_I carried.simps(1) list.set_intros(1) set_concat set_map imageI)
    then show ?thesis using jobs_inv_allocated [OF J] by simp
  qed
  then show ?thesis using nf lock queue_wait_Fault [OF R] pull_defined [OF R]
    by (cases "workers s ! t") (auto simp: worker_step_def lock_pool_Fault unlock_pool_Fault run_task_Fault wake_Fault)
qed

lemma client_no_fault:
  assumes R: "queue_rep (job_queue (pool s)) (jobs s) as"
    and lock: "client_holds (main_pc s) \<longleftrightarrow> pool_mutex (pool s) = Some Client"
  shows "main_step ch s \<noteq> Fault"
proof -
  have "BinarySemaphorePostAll (q_has_job (job_queue (pool s))) \<noteq> None"
    using queue_repD(7) [OF R] by (simp add: BinarySemaphorePostAll_def lock_sem_def unlock_sem_def)
  moreover have "JobQueueDestory (job_queue (pool s), jobs s) \<noteq> None" using clear_rep [OF R] by (auto simp: JobQueueDestory_def)
  moreover have "add_step mem f g s \<noteq> Fault" for mem f g
  proof (cases mem)
    case (Some x)
    obtain a raw where x: "x = (a, raw)" by (cases x)
    have "ThreadPoolAddTask mem f g (job_queue (pool s), jobs s) \<noteq> None" if "jobs s a = None" "addr_ok a"
      using add_task_rep [OF R that, of raw f g] Some x by auto
    then show ?thesis using Some x by (auto simp: add_step_def malloc_ok_def)
  qed (simp add: add_step_def ThreadPoolAddTask_def malloc_ok_def)
  ultimately show ?thesis using lock
    by (cases "main_pc s"; cases ch) (auto simp: main_step.simps lock_pool_Fault unlock_pool_Fault wake_Fault)
qed

lemma pool_steps_defined:
  assumes "pool_inv n s" and "\<not> freed s"
  shows "t < n \<Longrightarrow> worker_step t s \<noteq> Fault" and "main_step ch s \<noteq> Fault"
proof -
  obtain as where J: "jobs_inv s as" using assms by (auto simp: pool_inv_def)
  then have R: "queue_rep (job_queue (pool s)) (jobs s) as" unfolding jobs_inv_def by blast
  have len: "length (workers s) = n" using assms(1) by (simp add: pool_inv_def workers_inv_def)
  have "client_holds (main_pc s) \<longleftrightarrow> pool_mutex (pool s) = Some Client" using assms(1) by (simp add: pool_inv_def lock_inv_def)
  then show "main_step ch s \<noteq> Fault" by (rule client_no_fault [OF R])
  assume t: "t < n"
  then have "holds (workers s ! t) \<longleftrightarrow> pool_mutex (pool s) = Some (Worker t)"
    using assms(1) len by (simp add: pool_inv_def lock_inv_def)
  then show "worker_step t s \<noteq> Fault" using t len assms(2) by (intro worker_no_fault [OF J]) simp_all
qed

section \<open>Schedules\<close>

datatype event = By_Worker nat | By_Client choice

fun event_step :: "event \<Rightarrow> pool_state \<Rightarrow> pool_state outcome" where
  "event_step (By_Worker t) s = worker_step t s"
| "event_step (By_Client ch) s = main_step ch s"

fun run_events :: "event list \<Rightarrow> pool_state \<Rightarrow> pool_state option" where
  "run_events [] s = Some s"
| "run_events (e # es) s = (case event_step e s of Next s' \<Rightarrow> run_events es s' | _ \<Rightarrow> None)"

fun event_ok :: "nat \<Rightarrow> event \<Rightarrow> bool" where
  "event_ok n (By_Worker t) \<longleftrightarrow> t < n"
| "event_ok n (By_Client ch) \<longleftrightarrow> True"

lemma reachable_run: "reachable n s \<Longrightarrow> list_all (event_ok n) es \<Longrightarrow> run_events es s = Some s' \<Longrightarrow> reachable n s'"
proof (induction es arbitrary: s)
  case (Cons e es)
  then obtain s1 where s1: "event_step e s = Next s1" "run_events es s1 = Some s'" by (auto split: outcome.splits)
  have "reachable n s1" using Cons.prems(1,2) s1(1) by (cases e) (auto intro: reachable.intros)
  then show ?case using Cons s1(2) by simp
qed simp

definition pool_zero :: ThreadPool where
  "pool_zero = \<lparr>thread_num = 0, alive_threads = 0, working_threads = 0, pool_mutex = None, pool_cond = pthread_cond_init,
    job_queue = queue_zero, alive = False\<rparr>"

definition pool_start :: "nat \<Rightarrow> pool_state" where
  "pool_start n = the (ThreadPoolCreate n (Some pool_zero) (Some queue_zero) (Some sem_zero) True Map.empty)"

lemma reachable_start: "reachable n (pool_start n)"
  by (rule reachable.create [of _ "Some pool_zero" "Some queue_zero" "Some sem_zero"])
     (simp add: pool_start_def ThreadPoolCreate_def JobQueueCreate_def BinarySemaphoreCreate_def)

lemma reachable_schedule:
  assumes "list_all (event_ok n) es" and "case run_events es (pool_start n) of None \<Rightarrow> False | Some s \<Rightarrow> P s"
  shows "\<exists>s. reachable n s \<and> P s"
  using assms reachable_run [OF reachable_start, of n es] by (auto split: option.splits)

text \<open>One worker: create the pool; add a task; the worker runs it; wait up to the last read.\<close>

definition up_events :: "event list" where
  "up_events = [By_Client (Thread_Memory True), By_Worker 0, By_Worker 0, By_Client Go, By_Client Go]"

definition task_events :: "event list" where
  "task_events = By_Client (Add (Some (7, \<lparr>j_next = Ref 3, j_func = 0, j_arg = 0\<rparr>)) 5 6) #
     [By_Worker 0, By_Worker 0, By_Worker 0, By_Worker 0, By_Worker 0, By_Worker 0, By_Worker 0, By_Worker 0, By_Worker 0]"

definition wait_events :: "event list" where
  "wait_events = [By_Client Wait_Call, By_Client Go, By_Client Go]"

text \<open>Destroying the pool while the worker is about to unlock the mutex for the last time.\<close>

definition destroy_events :: "event list" where
  "destroy_events = [By_Client Destroy_Call, By_Worker 0, By_Worker 0, By_Client Go, By_Client Go]"

lemma waiting_schedule:
  "case run_events (up_events @ task_events @ wait_events) (pool_start 1) of None \<Rightarrow> False
   | Some s \<Rightarrow> main_pc s = M_WaitWork \<and> added s = [(5, 6)] \<and> pool_mutex (pool s) = Some Client \<and> working_threads (pool s) = 0"
  by code_simp

lemma destroyed_schedule:
  "case run_events (up_events @ destroy_events) (pool_start 1) of None \<Rightarrow> False
   | Some s \<Rightarrow> freed s \<and> workers s = [W_ExitUnlock]"
  by code_simp

lemma queued_schedule:
  "case run_events (up_events @ [hd task_events]) (pool_start 1) of None \<Rightarrow> False
   | Some s \<Rightarrow> main_pc s = M_Idle \<and> alive (pool s) \<and> \<not> freed s \<and> added s = [(5, 6)] \<and> q_length (job_queue (pool s)) > 0"
  by code_simp

lemma spinning_schedule:
  "case run_events [By_Client (Thread_Memory False), By_Client Go] (pool_start 1) of None \<Rightarrow> False
   | Some s \<Rightarrow> main_pc s = M_Spin \<and> workers s ! 0 = W_None"
  by code_simp

section \<open>The end of a wait\<close>

lemma wait_done:
  assumes "reachable n s" and "main_pc s = M_WaitWork" and "main_step Go s = Next s'" and "main_pc s' = M_Idle"
  shows "mset (executed s') = mset (added s')"
proof -
  have inv: "pool_inv n s" using reachable_pool_inv [OF assms(1)] .
  then obtain as where J: "jobs_inv s as" using assms(2) by (auto simp: pool_inv_def phase_inv_def)
  have R: "queue_rep (job_queue (pool s)) (jobs s) as" using J unfolding jobs_inv_def by blast
  have "as = []" using reachable_wait_empty [OF assms(1,2)] queue_length_zero [OF R] by simp
  moreover have "num in_work (workers s) = 0"
    using inv assms(2-4) by (auto simp: main_step.simps pool_inv_def workers_inv_def split: if_splits)
  then have "carried_by s = []" using not_in_work_carried by (auto simp: num_zero)
  ultimately have "mset (executed s) = mset (added s)" using J unfolding jobs_inv_def by simp
  then show ?thesis using assms(2,3) by (auto simp: main_step.simps step_Next split: if_splits)
qed

section \<open>Properties of the pool\<close>

text \<open>C3. \<open>ThreadPoolWait\<close> waits for everything: whenever it returns, under any interleaving with the
  workers, every task that was added has been executed, and executed once.\<close>

theorem wait_returns_when_all_done:
  assumes "reachable n s" and "main_pc s = M_WaitWork" and "main_step Go s = Next s'" and "main_pc s' = M_Idle"
  shows "mset (executed s') = mset (added s')"
  using wait_done [OF assms] .

theorem wait_returns_when_all_done_witness:
  "\<exists>s s'. reachable 1 s \<and> main_step Go s = Next s' \<and> added s' = [(5, 6)] \<and> mset (executed s') = mset (added s')"
proof -
  obtain s where s: "reachable 1 s" "main_pc s = M_WaitWork" "added s = [(5, 6)]" "pool_mutex (pool s) = Some Client"
    "working_threads (pool s) = 0"
    using reachable_schedule [OF _ waiting_schedule] by (auto simp: up_events_def task_events_def wait_events_def)
  then obtain s' where s': "main_step Go s = Next s'" "main_pc s' = M_Idle" "added s' = added s"
    by (simp add: main_step.simps unlock_pool_def)
  then show ?thesis using wait_returns_when_all_done [OF s(1,2) s'(1,2)] s(1,3) by auto
qed

text \<open>C9. Until the pool is freed, no thread does anything undefined: every queue operation succeeds, no
  freed or null job is dereferenced, a mutex is only unlocked by the thread that holds it and never locked
  twice by one thread.\<close>

theorem pool_no_fault:
  assumes "reachable n s" and "\<not> freed s" and "t < n"
  shows "worker_step t s \<noteq> Fault \<and> main_step ch s \<noteq> Fault"
  using pool_steps_defined [OF reachable_pool_inv [OF assms(1)] assms(2)] assms(3) by blast

theorem pool_no_fault_witness:
  "\<exists>s. reachable 1 s \<and> main_pc s = M_WaitWork \<and> added s = [(5, 6)] \<and> worker_step 0 s \<noteq> Fault \<and> main_step Go s \<noteq> Fault"
proof -
  obtain s where s: "reachable 1 s" "main_pc s = M_WaitWork" "added s = [(5, 6)]"
    using reachable_schedule [OF _ waiting_schedule] by (auto simp: up_events_def task_events_def wait_events_def)
  have "\<not> freed s" using reachable_pool_inv [OF s(1)] s(2) by (simp add: pool_inv_def phase_inv_def)
  then show ?thesis using pool_no_fault [OF s(1), of 0 Go] s by auto
qed

text \<open>When the pool has been freed, every worker has left its loop and will not look at the queue or at
  \<open>alive\<close> again; but a worker may still be about to unlock the freed mutex, since it counts itself out
  before it unlocks: such a state is reachable with a single worker, and the unlock is undefined.\<close>

theorem destroy_frees_mutex_in_use:
  "(\<forall>n s t. reachable n s \<and> freed s \<and> t < n \<longrightarrow> workers s ! t = W_ExitUnlock \<or> workers s ! t = W_Done) \<and>
   (\<exists>s. reachable 1 s \<and> freed s \<and> worker_step 0 s = Fault)"
proof (intro conjI allI impI)
  fix n s t assume a: "reachable n s \<and> freed s \<and> t < n"
  then have "pool_inv n s" using reachable_pool_inv by blast
  then have "\<not> starting (workers s ! t)" "\<not> counted (workers s ! t)"
    using a by (auto simp: pool_inv_def phase_inv_def workers_inv_def)
  then show "workers s ! t = W_ExitUnlock \<or> workers s ! t = W_Done" by (cases "workers s ! t") auto
next
  obtain s where "reachable 1 s" "freed s" "workers s = [W_ExitUnlock]"
    using reachable_schedule [OF _ destroyed_schedule] by (auto simp: up_events_def destroy_events_def)
  then show "\<exists>s. reachable 1 s \<and> freed s \<and> worker_step 0 s = Fault" by (intro exI [of _ s]) (simp add: worker_step_def)
qed

theorem destroy_frees_mutex_in_use_witness:
  "\<exists>s. reachable 1 s \<and> freed s \<and> (workers s ! 0 = W_ExitUnlock \<or> workers s ! 0 = W_Done)"
  using destroy_frees_mutex_in_use by (metis less_one)

text \<open>C11. No task is invented and none runs twice: until the pool is freed, what has been executed is, with multiplicities, part of
  what was added; and the counters stay within \<open>0\<close> and the number of threads.\<close>

theorem executed_at_most_once:
  assumes "reachable n s" and "\<not> freed s"
  shows "mset (executed s) \<subseteq># mset (added s) \<and> 0 \<le> working_threads (pool s) \<and> working_threads (pool s) \<le> int n \<and>
    0 \<le> alive_threads (pool s) \<and> alive_threads (pool s) \<le> int n"
proof -
  have inv: "pool_inv n s" using reachable_pool_inv [OF assms(1)] .
  then obtain as where J: "jobs_inv s as" using assms(2) by (auto simp: pool_inv_def)
  then have "mset (executed s) \<subseteq># mset (added s)" unfolding jobs_inv_def by simp
  moreover have "length (workers s) = n" "working_threads (pool s) = int (num in_work (workers s))"
    "alive_threads (pool s) = int (num counted (workers s))" using inv by (auto simp: pool_inv_def workers_inv_def)
  ultimately show ?thesis using num_le [of in_work "workers s"] num_le [of counted "workers s"] by simp
qed

theorem executed_at_most_once_witness:
  "\<exists>s. reachable 1 s \<and> added s = [(5, 6)] \<and> mset (executed s) \<subseteq># mset (added s) \<and> alive_threads (pool s) \<le> 1"
proof -
  obtain s where s: "reachable 1 s" "\<not> freed s" "added s = [(5, 6)]"
    using reachable_schedule [OF _ queued_schedule] by (auto simp: up_events_def task_events_def)
  then show ?thesis using executed_at_most_once [OF s(1,2)] by auto
qed

text \<open>Where creation hangs: if the memory for one of the threads could not be allocated, \<open>ThreadCreate\<close>
  returns null, the result is not checked, and \<open>ThreadPoolCreate\<close> spins for ever: the client's step leaves
  the state unchanged, and no step of a worker changes the situation.\<close>

theorem create_spins_without_thread:
  assumes "reachable n s" and "main_pc s = M_Spin" and "t < n" and "workers s ! t = W_None"
  shows "main_step Go s = Next s \<and>
    (\<forall>u s'. worker_step u s = Next s' \<longrightarrow> main_pc s' = M_Spin \<and> workers s' ! t = W_None)"
proof -
  have inv: "workers_inv n s" using reachable_pool_inv [OF assms(1)] by (simp add: pool_inv_def)
  then have "num counted (workers s) \<noteq> length (workers s)"
    using assms(3,4) unfolding num_all workers_inv_def by (metis counted.simps(1) nth_mem)
  then have "main_step Go s = Next s" using inv assms(2) by (simp add: main_step.simps workers_inv_def)
  moreover have "main_pc s' = M_Spin \<and> workers s' ! t = W_None" if st: "worker_step u s = Next s'" for u s'
  proof -
    have "u \<noteq> t" using st assms(4) by (auto simp: worker_step_def)
    then have "workers s' ! t = workers s ! t" using st
      by (cases "workers s ! u") (auto simp: worker_step_def step_Next split: if_splits prod.splits)
    then show ?thesis using worker_step_frame(1) [OF st] assms(2,4) by simp
  qed
  ultimately show ?thesis by blast
qed

theorem create_spins_without_thread_witness:
  "\<exists>s. reachable 1 s \<and> main_pc s = M_Spin \<and> main_step Go s = Next s"
proof -
  obtain s where s: "reachable 1 s" "main_pc s = M_Spin" "workers s ! 0 = W_None"
    using reachable_schedule [OF _ spinning_schedule] by auto
  then show ?thesis using create_spins_without_thread [OF s(1,2), of 0] by auto
qed

end
