(* ===== verification/Pool_Progress.thy ===== *)
theory Pool_Progress
  imports Thread_Pool2
begin

text \<open>
  Progress of the thread pool of \<^verbatim>\<open>src/thread_pool02\<close>. Once its semaphore has been posted the workers of this pool never sleep again but
  go round their loop, so no schedule is ever without a step and a run need not end; what matters is that from no
  state the pool has lost the way to its goal. From every reachable state of a running pool a schedule is constructed that uses only the
  wake-ups that signals deliver and after which every added task has been executed and a \<open>ThreadPoolWait\<close> in progress has returned:
  the mutex is released; the workers come back to the head of their loops; one worker takes the queued tasks one after
  the other and signals the client; the client wakes up, tests its condition and returns.
\<close>

section \<open>Schedules of the workers and of a call in progress\<close>

fun own_step :: "nat \<Rightarrow> event \<Rightarrow> bool" where
  "own_step n (By_Worker t) \<longleftrightarrow> t < n"
| "own_step n (By_Client ch) \<longleftrightarrow> ch = Go"

definition leads :: "nat \<Rightarrow> pool_state \<Rightarrow> (pool_state \<Rightarrow> bool) \<Rightarrow> bool" where
  "leads n s P \<longleftrightarrow> (\<exists>es s'. list_all (own_step n) es \<and> run_events es s = Some s' \<and> P s')"

lemma run_events_append: "run_events (es @ es') s = Option.bind (run_events es s) (run_events es')"
  by (induction es s rule: run_events.induct) (auto split: outcome.splits)

lemma leads_refl: "P s \<Longrightarrow> leads n s P"
  unfolding leads_def by (intro exI [of _ "[]"]) simp

lemma leads_trans:
  assumes "leads n s P" and "\<And>s'. P s' \<Longrightarrow> leads n s' Q"
  shows "leads n s Q"
proof -
  obtain es s' where 1: "list_all (own_step n) es" "run_events es s = Some s'" "P s'" using assms(1) unfolding leads_def by blast
  obtain es' s'' where 2: "list_all (own_step n) es'" "run_events es' s' = Some s''" "Q s''"
    using assms(2) [OF 1(3)] unfolding leads_def by blast
  then show ?thesis using 1 unfolding leads_def by (intro exI [of _ "es @ es'"] exI [of _ s'']) (simp add: run_events_append)
qed

lemma leads_mono: "leads n s P \<Longrightarrow> (\<And>s'. P s' \<Longrightarrow> Q s') \<Longrightarrow> leads n s Q"
  using leads_trans leads_refl by blast

lemma leads_worker: "worker_step t s = Next s' \<Longrightarrow> t < n \<Longrightarrow> leads n s' P \<Longrightarrow> leads n s P"
  unfolding leads_def by (elim exE, rename_tac es s'', rule_tac x = "By_Worker t # es" in exI) auto

lemma leads_client: "main_step Go s = Next s' \<Longrightarrow> leads n s' P \<Longrightarrow> leads n s P"
  unfolding leads_def by (elim exE, rename_tac es s'', rule_tac x = "By_Client Go # es" in exI) auto

section \<open>Running pools\<close>

definition running :: "nat \<Rightarrow> pool_state \<Rightarrow> bool" where
  "running n s \<longleftrightarrow> reachable n s \<and> \<not> in_create (main_pc s) \<and> alive (pool s)"

text \<open>What the steps of a schedule leave alone.\<close>

abbreviation same :: "pool_state \<Rightarrow> pool_state \<Rightarrow> bool" where
  "same s s' \<equiv> added s' = added s \<and> main_pc s' = main_pc s"

lemma running_inv:
  assumes "running n s"
  shows "pool_inv n s" "\<not> freed s" "length (workers s) = n" "\<And>t. t < n \<Longrightarrow> \<not> starting (workers s ! t) \<and> \<not> leaving (workers s ! t)"
    "\<And>t. t < n \<Longrightarrow> holds (workers s ! t) \<longleftrightarrow> pool_mutex (pool s) = Some (Worker t)" "\<exists>as. jobs_inv s as" "cond_inv s"
proof -
  show I: "pool_inv n s" using assms reachable_pool_inv unfolding running_def by blast
  show nf: "\<not> freed s" using I assms by (auto simp: pool_inv_def phase_inv_def running_def)
  show len: "length (workers s) = n" using I by (simp add: pool_inv_def workers_inv_def)
  show "\<And>t. t < n \<Longrightarrow> \<not> starting (workers s ! t) \<and> \<not> leaving (workers s ! t)"
    using I len assms by (auto simp: pool_inv_def phase_inv_def running_def)
  show "\<And>t. t < n \<Longrightarrow> holds (workers s ! t) \<longleftrightarrow> pool_mutex (pool s) = Some (Worker t)"
    using I len by (simp add: pool_inv_def lock_inv_def)
  show "\<exists>as. jobs_inv s as" "cond_inv s" using I nf by (simp_all add: pool_inv_def)
qed

lemma running_worker:
  assumes "running n s" and "t < n" and "worker_step t s = Next s'"
  shows "running n s'" "same s s'"
  using assms reachable.worker worker_step_frame [OF assms(3)] unfolding running_def by auto

lemma running_no_mutex: "running n s \<Longrightarrow> \<not> bs_mutex (sem s)"
  using running_inv(6) queue_repD(7) unfolding jobs_inv_def sem_def by blast

section \<open>The mutex is released\<close>

abbreviation unlocked :: "nat \<Rightarrow> pool_state \<Rightarrow> pool_state \<Rightarrow> bool" where
  "unlocked n s s' \<equiv> running n s' \<and> added s' = added s \<and> pool_mutex (pool s') = None"

lemma client_running:
  assumes "running n s" and "main_step Go s = Next s'"
  shows "running n s' \<and> added s' = added s"
proof -
  have "\<not> in_destroy (main_pc s)" using running_inv(1) [OF assms(1)] assms(1) by (simp add: pool_inv_def phase_inv_def running_def)
  then show ?thesis using assms reachable.client [of n s Go s'] unfolding running_def
    by (auto simp: main_step.simps step_Next split: mpc.splits if_splits)
qed

lemma cond_unlocks:
  assumes "running n s" and "main_pc s = M_WaitCond" and "pool_mutex (pool s) = Some Client"
  shows "leads n s (unlocked n s)"
proof -
  obtain s' where s': "main_step Go s = Next s'" "pool_mutex (pool s') = None" using assms(2,3) by (auto simp: main_step.simps unlock_pool_def)
  then show ?thesis using client_running [OF assms(1) s'(1)] by (intro leads_client [OF s'(1)] leads_refl) simp
qed

lemma work_unlocks:
  assumes "running n s" and "main_pc s = M_WaitWork" and "pool_mutex (pool s) = Some Client"
  shows "leads n s (unlocked n s)"
proof -
  obtain s' where s': "main_step Go s = Next s'" "pool_mutex (pool s') = None \<or> main_pc s' = M_WaitCond \<and> pool_mutex (pool s') = Some Client"
    using assms(2,3) by (cases "0 < working_threads (pool s)") (auto simp: main_step.simps unlock_pool_def)
  then show ?thesis using client_running [OF assms(1) s'(1)] cond_unlocks [of n s']
    by (intro leads_client [OF s'(1)]) (auto intro: leads_refl)
qed

lemma client_unlocks:
  assumes "running n s" and "pool_mutex (pool s) = Some Client"
  shows "leads n s (unlocked n s)"
proof -
  have "client_holds (main_pc s)" using running_inv(1) [OF assms(1)] assms(2) by (simp add: pool_inv_def lock_inv_def)
  then show ?thesis
  proof (cases "main_pc s")
    case M_WaitLen
    then obtain s' where s': "main_step Go s = Next s'" "pool_mutex (pool s') = Some Client" "main_pc s' = M_WaitCond \<or> main_pc s' = M_WaitWork"
      by (simp add: main_step.simps assms(2))
    then show ?thesis using client_running [OF assms(1) s'(1)] cond_unlocks [of n s'] work_unlocks [of n s']
      by (intro leads_client [OF s'(1)]) auto
  qed (use assms cond_unlocks work_unlocks in auto)
qed

lemma leads_unlocked:
  assumes "running n s"
  shows "leads n s (unlocked n s)"
proof -
  consider "pool_mutex (pool s) = None" | t where "pool_mutex (pool s) = Some (Worker t)" | "pool_mutex (pool s) = Some Client"
    by (metis option.exhaust tid.exhaust)
  then show ?thesis
  proof cases
    case 1
    then show ?thesis using assms by (intro leads_refl) simp
  next
    case (2 t)
    then have t: "t < n" using running_inv(1) [OF assms] by (auto simp: pool_inv_def lock_inv_def workers_inv_def)
    then have "holds (workers s ! t)" using running_inv(5) [OF assms] 2 by simp
    then obtain s' where s': "worker_step t s = Next s'" "pool_mutex (pool s') = None"
      using 2 running_inv(2) [OF assms] by (cases "workers s ! t") (auto simp: worker_step_def unlock_pool_def)
    then show ?thesis using running_worker [OF assms t s'(1)] t by (intro leads_worker [OF s'(1)] leads_refl) simp_all
  next
    case 3
    then show ?thesis using client_unlocks assms by blast
  qed
qed

section \<open>The workers come back to the head of their loops\<close>

text \<open>How far a worker is from the head of its loop.\<close>

fun distance :: "wpc \<Rightarrow> nat" where
  "distance W_SemWait = 8"
| "distance W_Check = 7"
| "distance W_Inc = 6"
| "distance W_IncUnlock = 5"
| "distance W_Pull = 4"
| "distance (W_Run p) = 3"
| "distance W_Dec = 2"
| "distance W_DecUnlock = 1"
| "distance W_StartUnlock = 1"
| "distance _ = 0"

text \<open>The mutex is free or the worker's own, and the semaphore has been posted.\<close>

definition free_way :: "nat \<Rightarrow> pool_state \<Rightarrow> bool" where
  "free_way t s \<longleftrightarrow> (pool_mutex (pool s) = None \<or> pool_mutex (pool s) = Some (Worker t)) \<and> bs_value (sem s)"

lemma worker_advances:
  assumes R: "running n s" and t: "t < n" and F: "free_way t s" and pc: "workers s ! t \<noteq> W_SemSleep" "workers s ! t \<noteq> W_Loop"
  obtains s' pc' where "worker_step t s = Next s'" "workers s' = (workers s)[t := pc']" "distance pc' < distance (workers s ! t)"
    "pc' \<noteq> W_SemSleep" "free_way t s'"
proof -
  note I = running_inv [OF R]
  have "worker_step t s \<noteq> Fault" using pool_steps_defined(1) [OF I(1,2) t] .
  moreover have "worker_step t s \<noteq> Blocked" using pc F I(4) [OF t] running_no_mutex [OF R]
    by (cases "workers s ! t") (auto simp: worker_step_def lock_pool_def unlock_pool_def run_task_def free_way_def wait_sem sem_def split: option.splits)
  ultimately obtain s' where s': "worker_step t s = Next s'" by (cases "worker_step t s") auto
  have m: "\<not> bs_mutex (q_has_job (job_queue (pool s)))" using running_no_mutex [OF R] by (simp add: sem_def)
  have al: "alive (pool s)" using R by (simp add: running_def)
  have v: "bs_value (q_has_job (job_queue (pool s)))" using F by (simp add: free_way_def sem_def)
  have "bs_value (sem s')" using worker_step_sem(2) [OF _ _ _ s'] running_no_mutex [OF R] I(3,7) t F
    unfolding cond_inv_split free_way_def by blast
  moreover have "pool_mutex (pool s') = None \<or> pool_mutex (pool s') = Some (Worker t)"
    using s' F by (cases "workers s ! t") (auto simp: worker_step_def step_Next free_way_def split: if_splits prod.splits)
  moreover have "\<exists>pc'. workers s' = (workers s)[t := pc'] \<and> distance pc' < distance (workers s ! t) \<and> pc' \<noteq> W_SemSleep"
    using s' pc I(4) [OF t] al wait_sem [OF m] v
    by (cases "workers s ! t") (auto simp: worker_step_def step_Next split: if_splits prod.splits)
  ultimately show ?thesis using that s' unfolding free_way_def by blast
qed

lemma drive_worker:
  assumes "running n s" and "t < n" and "free_way t s" and "workers s ! t \<noteq> W_SemSleep"
  shows "leads n s (\<lambda>s'. running n s' \<and> same s s' \<and> workers s' = (workers s)[t := W_Loop] \<and> pool_mutex (pool s') = None \<and> bs_value (sem s'))"
  using assms
proof (induction "distance (workers s ! t)" arbitrary: s rule: less_induct)
  case less
  note I = running_inv [OF less.prems(1)]
  show ?case
  proof (cases "workers s ! t = W_Loop")
    case True
    then have "pool_mutex (pool s) = None" using I(5) [OF less.prems(2)] less.prems(3) by (auto simp: free_way_def)
    moreover have "(workers s)[t := W_Loop] = workers s" using True by (metis list_update_id)
    ultimately show ?thesis using less.prems(1,3) by (intro leads_refl) (simp add: free_way_def)
  next
    case False
    obtain s1 pc1 where s1: "worker_step t s = Next s1" "workers s1 = (workers s)[t := pc1]" "distance pc1 < distance (workers s ! t)"
      "pc1 \<noteq> W_SemSleep" "free_way t s1"
      using worker_advances [OF less.prems False] .
    note r1 = running_worker [OF less.prems(1,2) s1(1)]
    have "workers s1 ! t = pc1" using s1(2) I(3) less.prems(2) by simp
    then have "leads n s1 (\<lambda>s'. running n s' \<and> same s1 s' \<and> workers s' = (workers s1)[t := W_Loop] \<and> pool_mutex (pool s') = None \<and> bs_value (sem s'))"
      using less.hyps [of s1] r1(1) less.prems(2) s1(3-5) by simp
    then show ?thesis using r1(2) s1(2) less.prems(2) by (intro leads_worker [OF s1(1)]) simp_all
  qed
qed

definition resting :: "wpc \<Rightarrow> bool" where
  "resting pc \<longleftrightarrow> pc = W_Loop \<or> pc = W_SemSleep"

text \<open>All workers rest, and one of them is awake.\<close>

definition calm :: "nat \<Rightarrow> pool_state \<Rightarrow> bool" where
  "calm n s \<longleftrightarrow> running n s \<and> pool_mutex (pool s) = None \<and> bs_value (sem s) \<and> list_all resting (workers s)"

lemma drive_all:
  assumes "running n s" and "pool_mutex (pool s) = None" and "bs_value (sem s)"
  shows "leads n s (\<lambda>s'. calm n s' \<and> same s s')"
  using assms
proof (induction "num (\<lambda>pc. \<not> resting pc) (workers s)" arbitrary: s rule: less_induct)
  case less
  show ?case
  proof (cases "list_all resting (workers s)")
    case True
    then show ?thesis using less.prems by (intro leads_refl) (simp add: calm_def)
  next
    case False
    then obtain t where t: "t < n" "\<not> resting (workers s ! t)"
      using running_inv(3) [OF less.prems(1)] by (auto simp: list_all_length)
    have "free_way t s" "workers s ! t \<noteq> W_SemSleep" using less.prems(2,3) t(2) by (auto simp: free_way_def resting_def)
    from drive_worker [OF less.prems(1) t(1) this] show ?thesis
    proof (rule leads_trans)
      fix s' assume s': "running n s' \<and> same s s' \<and> workers s' = (workers s)[t := W_Loop] \<and> pool_mutex (pool s') = None \<and> bs_value (sem s')"
      then have "num (\<lambda>pc. \<not> resting pc) (workers s') < num (\<lambda>pc. \<not> resting pc) (workers s)"
        using num_update [of t "workers s" "\<lambda>pc. \<not> resting pc" W_Loop] t running_inv(3) [OF less.prems(1)] by (simp add: resting_def)
      then show "leads n s' (\<lambda>s'. calm n s' \<and> same s s')" using less.hyps [of s'] s' by simp
    qed
  qed
qed

text \<open>One of the workers can be awake: if all sleep, a wake-up has been delivered.\<close>

lemma leads_awake:
  assumes C: "calm n s" and "0 < n"
  shows "leads n s (\<lambda>s'. calm n s' \<and> same s s' \<and> (\<exists>t < n. workers s' ! t = W_Loop))"
proof (cases "\<exists>t < n. workers s ! t = W_Loop")
  case True
  then show ?thesis using C by (intro leads_refl) simp
next
  case False
  have R: "running n s" using C by (simp add: calm_def)
  note I = running_inv [OF R]
  have sleep: "\<forall>t < n. workers s ! t = W_SemSleep" using C False I(3) by (auto simp: calm_def list_all_length resting_def)
  then have "asleep (workers s) = length (workers s)" using I(3) unfolding asleep_def num_all by (auto simp: in_set_conv_nth)
  then have "0 < wakeups (bs_cond (sem s))" using I(3,7) C assms(2) by (auto simp: cond_inv_def calm_def)
  then obtain s' where s': "worker_step 0 s = Next s'" "workers s' = (workers s)[0 := W_SemWait]" "pool_mutex (pool s') = None" "bs_value (sem s')"
    using sleep I(2) assms(2) C
    by (auto simp: worker_step_def BinarySemaphoreWake_def cond_wake_def sem_def calm_def)
  note r = running_worker [OF R assms(2) s'(1)]
  have "free_way 0 s'" "workers s' ! 0 \<noteq> W_SemSleep" using s' I(3) assms(2) by (simp_all add: free_way_def)
  from drive_worker [OF r(1) assms(2) this] show ?thesis
  proof (intro leads_worker [OF s'(1) assms(2)], elim leads_trans, intro leads_refl)
    fix s'' assume s'': "running n s'' \<and> same s' s'' \<and> workers s'' = (workers s')[0 := W_Loop] \<and> pool_mutex (pool s'') = None \<and> bs_value (sem s'')"
    then have "list_all resting (workers s'')" "workers s'' ! 0 = W_Loop"
      using C s'(2) I(3) assms(2) by (auto simp: calm_def list_all_length nth_list_update resting_def)
    then show "calm n s'' \<and> same s s'' \<and> (\<exists>t < n. workers s'' ! t = W_Loop)" using s'' r(2) assms(2) by (auto simp: calm_def)
  qed
qed

section \<open>One worker takes the queued tasks\<close>

lemma calm_idle:
  assumes "calm n s"
  shows "working_threads (pool s) = 0" "carried_by s = []"
proof -
  have none: "\<not> in_work pc" if "pc \<in> set (workers s)" for pc
    using assms that by (auto simp: calm_def list_all_iff resting_def)
  then have "num in_work (workers s) = 0" by (simp add: num_zero)
  then show "working_threads (pool s) = 0"
    using running_inv(1) [of n s] assms by (simp add: calm_def pool_inv_def workers_inv_def)
  show "carried_by s = []" using none not_in_work_carried by auto
qed

lemma same_sem [simp]: "set_sem (q_has_job (job_queue (pool s))) s = s"
  by (simp add: set_sem_def set_pool_def)

text \<open>The round of a worker from the head of its loop, for what the queue hands out.\<close>

lemma round_runs:
  assumes C: "calm n s" and t: "t < n" "workers s ! t = W_Loop"
    and pull: "JobQueuePull (job_queue (pool s), jobs s) = Some (p, jq, jobs s)"
    and job: "p = Null \<and> h = jobs s \<and> x = [] \<or> (\<exists>a j. p = Ref a \<and> jobs s a = Some j \<and> h = (jobs s)(a := None) \<and> x = [(j_func j, j_arg j)])"
  obtains s' where "run_events (replicate 9 (By_Worker t)) s = Some s'" "workers s' = workers s" "job_queue (pool s') = jq" "jobs s' = h"
    "executed s' = executed s @ x" "pool_mutex (pool s') = None" "pool_cond (pool s') = pthread_cond_signal (pool_cond (pool s))"
    "alive (pool s')" "same s s'"
proof -
  have R: "running n s" using C by (simp add: calm_def)
  note I = running_inv [OF R]
  have f: "\<not> freed s" "alive (pool s)" "pool_mutex (pool s) = None" "working_threads (pool s) = 0" "t < length (workers s)"
    using I(2,3) R C calm_idle(1) [OF C] t(1) by (simp_all add: running_def calm_def)
  have w: "BinarySemaphoreWait (q_has_job (job_queue (pool s))) = Next (True, q_has_job (job_queue (pool s)))"
    using C running_no_mutex [OF R] by (simp add: wait_sem calm_def sem_def)
  have l: "(workers s)[t := W_Loop] = workers s" using t(2) by (metis list_update_id)
  have "\<exists>s'. run_events (replicate 9 (By_Worker t)) s = Some s' \<and> workers s' = workers s \<and> job_queue (pool s') = jq \<and> jobs s' = h \<and>
    executed s' = executed s @ x \<and> pool_mutex (pool s') = None \<and> pool_cond (pool s') = pthread_cond_signal (pool_cond (pool s)) \<and>
    alive (pool s') \<and> same s s'"
    using f t(2) w l pull job
    by (auto simp: numeral_eq_Suc worker_step_def lock_pool_def unlock_pool_def run_task_def get_job_def free_job_def signal_idle_def)
  then show ?thesis using that by blast
qed

lemma round_calm:
  assumes C: "calm n s" and t: "t < n" and run: "run_events (replicate 9 (By_Worker t)) s = Some s'"
    and s': "workers s' = workers s" "pool_mutex (pool s') = None" "alive (pool s')" "same s s'" "bs_value (sem s')"
  shows "calm n s'"
proof -
  have "reachable n s'" using C t run reachable_run [of n s "replicate 9 (By_Worker t)" s'] by (simp add: calm_def running_def list_all_iff)
  then show ?thesis using C s' by (simp add: calm_def running_def)
qed

definition drained :: "nat \<Rightarrow> pool_state \<Rightarrow> bool" where
  "drained n s \<longleftrightarrow> calm n s \<and> q_length (job_queue (pool s)) = 0 \<and> mset (executed s) = mset (added s) \<and>
     (main_pc s = M_WaitSleep \<longrightarrow> 0 < wakeups (pool_cond (pool s)))"

lemma one_round:
  assumes C: "calm n s" and t: "t < n" "workers s ! t = W_Loop"
  obtains s' where "run_events (replicate 9 (By_Worker t)) s = Some s'" "calm n s'" "workers s' = workers s" "same s s'"
    "drained n s' \<or> length (added s) - length (executed s') < length (added s) - length (executed s)"
proof -
  have R: "running n s" using C by (simp add: calm_def)
  obtain as where J: "jobs_inv s as" using running_inv(6) [OF R] by blast
  then have Q: "queue_rep (job_queue (pool s)) (jobs s) as" and E: "mset (added s) = mset (executed s) + mset (map (task_at (jobs s)) as)"
    using calm_idle(2) [OF C] unfolding jobs_inv_def by auto
  have S: "sleepers (pool_cond (pool s)) = of_bool (main_pc s = M_WaitSleep)" "wakeups (pool_cond (pool s)) \<le> sleepers (pool_cond (pool s))"
    using running_inv(7) [OF R] by (simp_all add: cond_inv_def)
  show ?thesis
  proof (cases as)
    case Nil
    then have p: "JobQueuePull (job_queue (pool s), jobs s) = Some (Null, job_queue (pool s), jobs s)" using pull_rep_empty Q by blast
    obtain s' where s': "run_events (replicate 9 (By_Worker t)) s = Some s'" "workers s' = workers s" "job_queue (pool s') = job_queue (pool s)"
      "jobs s' = jobs s" "executed s' = executed s @ []" "pool_mutex (pool s') = None"
      "pool_cond (pool s') = pthread_cond_signal (pool_cond (pool s))" "alive (pool s')" "same s s'"
      using round_runs [OF C t p] by blast
    have "calm n s'" using round_calm [OF C t(1) s'(1,2,6,8,9)] C s'(3) by (simp add: calm_def sem_def)
    moreover have "drained n s'" using calculation s' E Nil queue_length_zero [OF Q] S by (auto simp: drained_def)
    ultimately show ?thesis using that s' by blast
  next
    case (Cons a as')
    then obtain jq where p: "JobQueuePull (job_queue (pool s), jobs s) = Some (Ref a, jq, jobs s)" "bs_value (q_has_job jq)"
      using pull_rep Q by blast
    obtain j where j: "jobs s a = Some j" using queue_repD(1) [OF Q] Cons by auto
    obtain s' where s': "run_events (replicate 9 (By_Worker t)) s = Some s'" "workers s' = workers s" "job_queue (pool s') = jq"
      "executed s' = executed s @ [(j_func j, j_arg j)]" "pool_mutex (pool s') = None" "alive (pool s')" "same s s'"
      using round_runs [OF C t p(1)] j by blast
    have "calm n s'" using round_calm [OF C t(1) s'(1,2,5,6,7)] p(2) s'(3) by (simp add: sem_def)
    moreover have "length (executed s) < length (added s)" using arg_cong [OF E, of size] Cons by simp
    ultimately have "length (added s) - length (executed s') < length (added s) - length (executed s)" using s'(4) by simp
    then show ?thesis using that [OF s'(1) \<open>calm n s'\<close> s'(2,7)] by blast
  qed
qed

lemma leads_drained:
  assumes "calm n s" and "t < n" and "workers s ! t = W_Loop"
  shows "leads n s (\<lambda>s'. drained n s' \<and> same s s')"
  using assms
proof (induction "length (added s) - length (executed s)" arbitrary: s rule: less_induct)
  case less
  obtain s' where s': "run_events (replicate 9 (By_Worker t)) s = Some s'" "calm n s'" "workers s' = workers s" "same s s'"
    "drained n s' \<or> length (added s) - length (executed s') < length (added s) - length (executed s)"
    using one_round [OF less.prems] .
  have "leads n s (\<lambda>s2. s2 = s')" using s'(1) less.prems(2)
    unfolding leads_def by (intro exI [of _ "replicate 9 (By_Worker t)"] exI [of _ s']) (simp add: list_all_iff)
  then show ?case
  proof (rule leads_trans)
    fix s2 assume [simp]: "s2 = s'"
    show "leads n s2 (\<lambda>s3. drained n s3 \<and> same s s3)"
    proof (cases "drained n s'")
      case True
      then show ?thesis using s'(4) by (intro leads_refl) simp
    next
      case False
      then show ?thesis using less.hyps [of s'] s' less.prems(2,3) by simp
    qed
  qed
qed

section \<open>The client returns\<close>

text \<open>The end of a wait whose condition holds.\<close>

definition returned :: "pool_state \<Rightarrow> pool_state \<Rightarrow> bool" where
  "returned s s' \<longleftrightarrow> main_pc s' = M_Idle \<and> added s' = added s \<and> mset (executed s') = mset (added s)"

lemma returned_cong: "added s1 = added s \<Longrightarrow> returned s1 = returned s"
  by (simp add: returned_def fun_eq_iff)

lemma wait_returns:
  assumes "main_pc s = M_WaitLock" and "pool_mutex (pool s) = None" and "q_length (job_queue (pool s)) = 0"
    and "working_threads (pool s) = 0" and "mset (executed s) = mset (added s)"
  shows "leads n s (returned s)"
proof -
  have "case run_events [By_Client Go, By_Client Go, By_Client Go] s of None \<Rightarrow> False | Some s' \<Rightarrow> returned s s'"
    using assms by (simp add: main_step.simps lock_pool_def unlock_pool_def returned_def)
  then show ?thesis unfolding leads_def
    by (intro exI [of _ "[By_Client Go, By_Client Go, By_Client Go]"]) (auto split: option.splits)
qed

lemma client_returns:
  assumes R: "running n s" and "pool_mutex (pool s) = None" and "q_length (job_queue (pool s)) = 0" and "working_threads (pool s) = 0"
    and "mset (executed s) = mset (added s)" and wake: "main_pc s = M_WaitSleep \<Longrightarrow> 0 < wakeups (pool_cond (pool s))"
  shows "leads n s (returned s)"
proof -
  have "\<not> client_holds (main_pc s)" "\<not> in_destroy (main_pc s)" "\<not> in_create (main_pc s)"
    using running_inv(1) [OF R] R assms(2) by (simp_all add: pool_inv_def lock_inv_def phase_inv_def running_def)
  then consider "main_pc s = M_Idle" | "main_pc s = M_WaitLock" | "main_pc s = M_WaitSleep" by (cases "main_pc s") auto
  then show ?thesis
  proof cases
    case 1
    then show ?thesis using assms(5) by (intro leads_refl) (simp add: returned_def)
  next
    case 2
    then show ?thesis using wait_returns assms(2-5) by blast
  next
    case 3
    let ?c = "pool_cond (pool s)"
    let ?s = "set_pool (\<lambda>p. p\<lparr>pool_cond := ?c\<lparr>sleepers := sleepers ?c - 1, wakeups := wakeups ?c - 1\<rparr>\<rparr>) (s\<lparr>main_pc := M_WaitLock\<rparr>)"
    have "main_step Go s = Next ?s" using 3 wake by (simp add: main_step.simps cond_wake_def)
    moreover have "leads n ?s (returned ?s)" using assms(2-5) by (intro wait_returns) simp_all
    then have "leads n ?s (returned s)" using returned_cong [of ?s s] by simp
    ultimately show ?thesis by (rule leads_client)
  qed
qed

text \<open>While the semaphore has not been posted there is nothing to do.\<close>

lemma unposted_idle:
  assumes R: "running n s" and "\<not> bs_value (sem s)"
  shows "q_length (job_queue (pool s)) = 0" "working_threads (pool s) = 0" "mset (executed s) = mset (added s)" "main_pc s \<noteq> M_WaitSleep"
proof -
  note I = running_inv [OF R]
  obtain as where J: "jobs_inv s as" using I(6) by blast
  then have Q: "queue_rep (job_queue (pool s)) (jobs s) as" unfolding jobs_inv_def by blast
  have as: "as = []" using queue_repD(8) [OF Q] assms(2) by (auto simp: sem_def)
  then show "q_length (job_queue (pool s)) = 0" using queue_length_zero [OF Q] by simp
  have "\<not> past_sem (workers s ! t)" if "t < n" for t using I(3,7) assms(2) that by (auto simp: cond_inv_def)
  then have none: "\<not> in_work pc" if "pc \<in> set (workers s)" for pc
    using that I(3) by (fastforce simp: in_set_conv_nth elim!: in_work.elims)
  then have "num in_work (workers s) = 0" by (simp add: num_zero)
  then show "working_threads (pool s) = 0" using I(1) by (simp add: pool_inv_def workers_inv_def)
  have "carried_by s = []" using none not_in_work_carried by auto
  then show "mset (executed s) = mset (added s)" using J as unfolding jobs_inv_def by simp
  show "main_pc s \<noteq> M_WaitSleep" using I(7) assms(2) by (auto simp: cond_inv_def)
qed

lemma leads_returned:
  assumes "running n s" and "0 < n"
  shows "leads n s (returned s)"
proof (rule leads_trans [OF leads_unlocked [OF assms(1)]])
  fix s1 assume u: "unlocked n s s1"
  show "leads n s1 (returned s)"
  proof (cases "bs_value (sem s1)")
    case False
    have "leads n s1 (returned s1)" using unposted_idle [of n s1] u False by (intro client_returns) simp_all
    then show ?thesis using u returned_cong [of s1 s] by simp
  next
    case True
    have "leads n s1 (\<lambda>s2. calm n s2 \<and> same s1 s2)" using drive_all u True by blast
    then have "leads n s1 (\<lambda>s3. drained n s3 \<and> added s3 = added s)"
    proof (rule leads_trans)
      fix s2 assume "calm n s2 \<and> same s1 s2"
      then have "leads n s2 (\<lambda>s'. calm n s' \<and> same s2 s' \<and> (\<exists>t < n. workers s' ! t = W_Loop))" "added s2 = added s"
        using leads_awake [of n s2] assms(2) u by simp_all
      then show "leads n s2 (\<lambda>s3. drained n s3 \<and> added s3 = added s)"
        by (elim leads_trans) (auto intro: leads_mono [OF leads_drained])
    qed
    then show ?thesis
    proof (rule leads_trans)
      fix s3 assume d: "drained n s3 \<and> added s3 = added s"
      then have "leads n s3 (returned s3)"
        using calm_idle(1) [of n s3] by (intro client_returns) (auto simp: drained_def calm_def)
      then show "leads n s3 (returned s)" using d returned_cong [of s3 s] by simp
    qed
  qed
qed

section \<open>The pool never loses the way to its goal\<close>

text \<open>C10. Whatever the threads have done so far, a pool with at least one worker that has been created and is not being destroyed can
  always finish: there is a schedule of steps of the workers and of the client's call in progress, with no stray
  wake-up, after which every task that was added has been executed, once, and the client is not, or no longer, in
  \<open>ThreadPoolWait\<close>. Neither a worker that sleeps on the semaphore nor the client that sleeps in its wait is forgotten.\<close>

theorem pool_can_finish:
  assumes "reachable n s" and "0 < n" and "\<not> in_create (main_pc s)" and "alive (pool s)"
  shows "\<exists>es s'. list_all (own_step n) es \<and> run_events es s = Some s' \<and> main_pc s' = M_Idle \<and>
    added s' = added s \<and> mset (executed s') = mset (added s)"
  using leads_returned [of n s] assms unfolding running_def leads_def returned_def by blast

text \<open>A worker asleep on the semaphore, a queued task, and the client asleep in its wait.\<close>

definition sleeping_events :: "event list" where
  "sleeping_events = up_events @ [By_Worker 0, By_Worker 0, hd task_events] @ wait_events @ [By_Client Go]"

lemma sleeping_schedule:
  "case run_events sleeping_events (pool_start 1) of None \<Rightarrow> False
   | Some s \<Rightarrow> main_pc s = M_WaitSleep \<and> workers s = [W_SemSleep] \<and> alive (pool s) \<and> added s = [(5, 6)] \<and> executed s = []"
  by code_simp

theorem pool_can_finish_witness:
  "\<exists>s es s'. reachable 1 s \<and> main_pc s = M_WaitSleep \<and> workers s = [W_SemSleep] \<and> executed s = [] \<and>
    run_events es s = Some s' \<and> main_pc s' = M_Idle \<and> mset (executed s') = {#(5, 6)#}"
proof -
  obtain s where s: "reachable 1 s" "main_pc s = M_WaitSleep" "workers s = [W_SemSleep]" "alive (pool s)" "added s = [(5, 6)]" "executed s = []"
    using reachable_schedule [OF _ sleeping_schedule]
    by (auto simp: sleeping_events_def up_events_def task_events_def wait_events_def)
  then show ?thesis using pool_can_finish [OF s(1) _ _ s(4)] by auto
qed

end
