(* ===== verification/Thread_Pool1.thy ===== *)
theory Thread_Pool1
  imports Job_Queue
begin

text \<open>
  The thread pool of \<^verbatim>\<open>src/thread_pool01\<close> (\<^verbatim>\<open>thread_pool.c\<close>, \<^verbatim>\<open>thread_pool.h\<close>): one mutex, a task list
  that \<open>ThreadPoolAddTask\<close> appends to, workers that sleep on \<open>task_list_cond\<close>, and a client that sleeps on
  \<open>finish_cond\<close>. As in \<open>Thread_Pool2\<close>, threads are control points, a step is one unlocked access or
  one critical section, and what the language leaves undefined (unlocking a mutex another thread, or no
  thread, holds; any use of the freed pool) is a \<open>Fault\<close>.
  The suffix 1 keeps the names apart from those of the other pool, which has the same function names.
\<close>

section \<open>The task list\<close>

record WorkerTask =
  t_func :: nat
  t_arg :: nat
  t_next :: ptr

type_synonym task_mem = "WorkerTask store"

abbreviation set_task_next :: "ptr \<Rightarrow> WorkerTask \<Rightarrow> WorkerTask" where
  "set_task_next p t \<equiv> t\<lparr>t_next := p\<rparr>"

interpretation task_nodes: linked_nodes t_next set_task_next
  by unfold_locales simp

text \<open>\<open>GetWorkerTask\<close> on the list head and the store.\<close>

definition GetWorkerTask :: "ptr \<times> task_mem \<Rightarrow> (ptr \<times> ptr \<times> task_mem) option" where
  "GetWorkerTask = (\<lambda>(task_list, h).
     case task_list of Null \<Rightarrow> Some (Null, Null, h)
     | Ref a \<Rightarrow> do { t \<leftarrow> h a; Some (Ref a, t_next t, h) })"

text \<open>The search for the end of the list in \<open>ThreadPoolAddTask\<close>: \<open>while (p != NULL) { prev = p; p = p->next; }\<close>.\<close>

partial_function (option) list_end :: "task_mem \<Rightarrow> ptr \<Rightarrow> ptr \<Rightarrow> ptr option" where
  "list_end h prev p =
     (case p of Null \<Rightarrow> Some prev | Ref a \<Rightarrow> do { t \<leftarrow> h a; list_end h p (t_next t) })"

declare list_end.simps [code]

definition append_task :: "ptr \<Rightarrow> ptr \<times> task_mem \<Rightarrow> (ptr \<times> task_mem) option" where
  "append_task task = (\<lambda>(task_list, h).
     if task_list = Null then Some (task, h)
     else do {
       prev \<leftarrow> list_end h Null task_list;
       case prev of Null \<Rightarrow> None
       | Ref a \<Rightarrow> do { t \<leftarrow> h a; Some (task_list, h(a \<mapsto> t\<lparr>t_next := task\<rparr>)) }
     })"

text \<open>\<open>ThreadPoolAddTask\<close> on the list; the first argument is what \<open>malloc\<close> returned.\<close>

definition ThreadPoolAddTask1 ::
    "(addr \<times> WorkerTask) option \<Rightarrow> nat \<Rightarrow> nat \<Rightarrow> ptr \<times> task_mem \<Rightarrow> (bool \<times> ptr \<times> task_mem) option" where
  "ThreadPoolAddTask1 mem func arg = (\<lambda>(task_list, h).
     case mem of None \<Rightarrow> Some (False, task_list, h)
     | Some (a, raw) \<Rightarrow> do {
         (task_list, h) \<leftarrow>
           append_task (Ref a) (task_list, h(a \<mapsto> raw\<lparr>t_func := func, t_arg := arg, t_next := Null\<rparr>));
         Some (True, task_list, h)
       })"

text \<open>The loop of \<open>ThreadPoolDestory\<close> over the list. It leaves \<open>tp->task_list\<close> as it was.\<close>

partial_function (option) free_tasks :: "ptr \<Rightarrow> task_mem \<Rightarrow> task_mem option" where
  "free_tasks p h =
     (case p of Null \<Rightarrow> Some h | Ref a \<Rightarrow> do { t \<leftarrow> h a; free_tasks (t_next t) (h(a := None)) })"

declare free_tasks.simps [code]

section \<open>The list against a queue of tasks\<close>

type_synonym task_view = "addr \<times> nat \<times> nat"

definition tasks_rep :: "ptr \<times> task_mem \<Rightarrow> task_view list \<Rightarrow> bool" where
  "tasks_rep = (\<lambda>(p, h) xs. chain t_next h p (map fst xs) \<and> distinct (map fst xs) \<and>
     (\<forall>x \<in> set xs. \<exists>n. h (fst x) = Some \<lparr>t_func = fst (snd x), t_arg = snd (snd x), t_next = n\<rparr>))"

definition task_fresh :: "task_view \<Rightarrow> ptr \<times> task_mem \<Rightarrow> bool" where
  "task_fresh x s \<longleftrightarrow> snd s (fst x) = None"

definition add_task1 :: "WorkerTask \<Rightarrow> task_view \<Rightarrow> ptr \<times> task_mem \<Rightarrow> (ptr \<times> task_mem) option" where
  "add_task1 raw = (\<lambda>(a, f, g) s. map_option snd (ThreadPoolAddTask1 (Some (a, raw)) f g s))"

definition take_task1 :: "ptr \<times> task_mem \<Rightarrow> (task_view option \<times> ptr \<times> task_mem) option" where
  "take_task1 s = do {
     (p, l, h) \<leftarrow> GetWorkerTask s;
     case p of Null \<Rightarrow> Some (None, l, h)
     | Ref a \<Rightarrow> do { t \<leftarrow> h a; Some (Some (a, t_func t, t_arg t), l, h) }
   }"

lemma list_end_chain: "chain t_next h p as \<Longrightarrow> list_end h q p = Some (last_ptr q as)"
proof (induction as arbitrary: p q)
  case (Cons a as)
  then obtain t where "p = Ref a" "h a = Some t" "chain t_next h (t_next t) as" by auto
  then show ?case using Cons.IH by (subst list_end.simps) simp
qed (subst list_end.simps, simp)

lemma add_task_chain:
  assumes "chain t_next h p as" and "distinct as" and "h a = None"
  shows "\<exists>p' h'. ThreadPoolAddTask1 (Some (a, raw)) f g (p, h) = Some (True, p', h') \<and>
    chain t_next h' p' (as @ [a]) \<and> a \<notin> set as \<and> h' a = Some \<lparr>t_func = f, t_arg = g, t_next = Null\<rparr> \<and>
    (\<forall>b. b \<noteq> a \<longrightarrow> h' b = h b \<or> (\<exists>t n. b \<in> set as \<and> h b = Some t \<and> h' b = Some (t\<lparr>t_next := n\<rparr>)))"
proof -
  let ?t = "raw\<lparr>t_func := f, t_arg := g, t_next := Null\<rparr>"
  have t: "?t = \<lparr>t_func = f, t_arg = g, t_next = Null\<rparr>" by (cases raw) simp
  have new: "a \<notin> set as" using path_allocated [OF assms(1)] assms(3) by fastforce
  show ?thesis
  proof (cases as rule: rev_cases)
    case Nil
    then show ?thesis using assms(1) by (simp add: ThreadPoolAddTask1_def append_task_def t)
  next
    case (snoc bs b)
    obtain n where n: "h b = Some n" "b \<noteq> a" using assms(1) snoc new by auto
    have "list_end (h(a \<mapsto> ?t)) Null p = Some (Ref b)"
      using list_end_chain [of "h(a \<mapsto> ?t)" p as Null] assms(1) new snoc by simp
    moreover have "as \<noteq> []" using snoc by simp
    then have "p \<noteq> Null" using assms(1) by (metis chain_Null)
    moreover have "chain t_next (h(a \<mapsto> ?t, b \<mapsto> set_task_next (Ref a) n)) p (bs @ [b, a])"
      using assms(1,2) new n snoc by (intro task_nodes.chain_snoc) auto
    ultimately show ?thesis using n new snoc
      by (auto simp: ThreadPoolAddTask1_def append_task_def t)
  qed
qed

interpretation task_fifo: fifo_queue tasks_rep task_fresh "add_task1 raw" take_task1 for raw
proof
  fix s xs x
  assume R: "tasks_rep s xs" and F: "task_fresh x s"
  obtain p h a f g where [simp]: "s = (p, h)" "x = (a, f, g)" by (metis prod.exhaust)
  obtain p' h' where *: "ThreadPoolAddTask1 (Some (a, raw)) f g (p, h) = Some (True, p', h')"
    "chain t_next h' p' (map fst xs @ [a])" "a \<notin> fst ` set xs" "h' a = Some \<lparr>t_func = f, t_arg = g, t_next = Null\<rparr>"
    "\<And>b. b \<noteq> a \<Longrightarrow> h' b = h b \<or> (\<exists>t n. h b = Some t \<and> h' b = Some (t\<lparr>t_next := n\<rparr>))"
    using add_task_chain [of h p "map fst xs" a raw f g] R F by (fastforce simp: tasks_rep_def task_fresh_def)
  have "\<exists>n. h' (fst y) = Some \<lparr>t_func = fst (snd y), t_arg = snd (snd y), t_next = n\<rparr>" if y: "y \<in> set xs" for y
  proof -
    obtain n where "h (fst y) = Some \<lparr>t_func = fst (snd y), t_arg = snd (snd y), t_next = n\<rparr>"
      using R y by (force simp: tasks_rep_def)
    then show ?thesis using *(3) *(5) [of "fst y"] y by fastforce
  qed
  then show "\<exists>s'. add_task1 raw x s = Some s' \<and> tasks_rep s' (xs @ [x])"
    using *(1-4) R by (auto simp: add_task1_def tasks_rep_def)
next
  fix s xs and x :: task_view
  assume "tasks_rep s (x # xs)"
  then show "\<exists>s'. take_task1 s = Some (Some x, s') \<and> tasks_rep s' xs"
    by (cases s; cases x) (auto simp: take_task1_def GetWorkerTask_def tasks_rep_def)
next
  fix s
  assume "tasks_rep s []"
  then show "\<exists>s'. take_task1 s = Some (None, s') \<and> tasks_rep s' []"
    by (cases s) (auto simp: take_task1_def GetWorkerTask_def tasks_rep_def)
qed

lemma free_tasks_chain: "chain t_next h p as \<Longrightarrow> distinct as \<Longrightarrow> free_tasks p h = Some (h |` (- set as))"
proof (induction as arbitrary: h p)
  case (Cons a as)
  then obtain t where t: "p = Ref a" "h a = Some t" "chain t_next (h(a := None)) (t_next t) as" by auto
  have "h(a := None) |` (- set as) = h |` (- set (a # as))" by (auto simp: restrict_map_def fun_eq_iff)
  moreover have "free_tasks (t_next t) (h(a := None)) = Some (h(a := None) |` (- set as))"
    by (rule Cons.IH [OF t(3)]) (use Cons.prems(2) in simp)
  ultimately show ?case using t(1,2) by (subst free_tasks.simps) (simp only: ptr.case option.case Option.bind.simps)
qed (subst free_tasks.simps, simp add: restrict_map_def)

section \<open>State\<close>

datatype tid1 = Client1 | Worker1 nat

text \<open>Control points of a worker, with the line they stand for. \<open>V_Leave\<close> and what follows is reached with
  the mutex held, from the \<^verbatim>\<open>break\<close>, or without it, from the loop's own condition.\<close>

datatype vpc = V_Loop | V_Lock | V_Test | V_Sleep | V_Get | V_Run ptr | V_Lock2 | V_Dec
  | V_Leave | V_LeaveWrite u64 | V_LeaveUnlock | V_Done

datatype cpc = C_Idle | C_WaitLock bool | C_WaitTest bool | C_Free | C_Done

record ThreadPool1 =
  tp_task_list :: ptr
  tp_mutex :: "tid1 option"
  tp_working_count :: u64
  tp_thread_count :: u64
  tp_running :: bool

record pool1_state =
  tp :: ThreadPool1
  tasks :: task_mem
  threads :: "vpc list"
  client :: cpc
  released :: bool
  given :: "(nat \<times> nat) list"
  taken :: "(nat \<times> nat) list"
  finished :: "(nat \<times> nat) list"

text \<open>\<open>ThreadPoolCreate\<close>: \<open>None\<close> is \<open>EINVAL\<close> or an allocation failure. The workers are at their first
  statement; one that the system starts late is one that is scheduled late.\<close>

definition ThreadPoolCreate1 :: "u64 \<Rightarrow> ThreadPool1 option \<Rightarrow> pool1_state option" where
  "ThreadPoolCreate1 nthreads raw =
     (if nthreads = 0 then None
      else case raw of None \<Rightarrow> None
      | Some p \<Rightarrow>
          Some \<lparr>tp = p\<lparr>tp_task_list := Null, tp_mutex := None, tp_working_count := 0, tp_thread_count := nthreads, tp_running := True\<rparr>,
                tasks = Map.empty, threads = replicate (unat nthreads) V_Loop, client = C_Idle, released = False,
                given = [], taken = [], finished = []\<rparr>)"

section \<open>Steps\<close>

definition set_tp :: "(ThreadPool1 \<Rightarrow> ThreadPool1) \<Rightarrow> pool1_state \<Rightarrow> pool1_state" where
  "set_tp f s = s\<lparr>tp := f (tp s)\<rparr>"

definition jump :: "nat \<Rightarrow> vpc \<Rightarrow> pool1_state \<Rightarrow> pool1_state" where
  "jump t pc s = s\<lparr>threads := (threads s)[t := pc]\<rparr>"

definition lock_tp :: "tid1 \<Rightarrow> pool1_state \<Rightarrow> pool1_state outcome" where
  "lock_tp me s =
     (case tp_mutex (tp s) of
        None \<Rightarrow> Next (set_tp (\<lambda>p. p\<lparr>tp_mutex := Some me\<rparr>) s)
      | Some owner \<Rightarrow> if owner = me then Fault else Blocked)"

definition unlock_tp :: "tid1 \<Rightarrow> pool1_state \<Rightarrow> pool1_state outcome" where
  "unlock_tp me s =
     (if tp_mutex (tp s) = Some me then Next (set_tp (\<lambda>p. p\<lparr>tp_mutex := None\<rparr>) s) else Fault)"

text \<open>\<open>GetWorkerTask\<close>, \<open>++working_count\<close> and the unlock.\<close>

definition take_step :: "nat \<Rightarrow> pool1_state \<Rightarrow> pool1_state outcome" where
  "take_step t s =
     (case take_task1 (tp_task_list (tp s), tasks s) of
        None \<Rightarrow> Fault
      | Some (task, l, h) \<Rightarrow>
          let s = set_tp (\<lambda>p. p\<lparr>tp_task_list := l, tp_working_count := tp_working_count p + 1\<rparr>)
                (s\<lparr>tasks := h, taken := taken s @ (case task of None \<Rightarrow> [] | Some (a, fg) \<Rightarrow> [fg])\<rparr>)
          in and_then (unlock_tp (Worker1 t) s) (jump t (V_Run (case task of None \<Rightarrow> Null | Some (a, fg) \<Rightarrow> Ref a))))"

definition run_step :: "nat \<Rightarrow> ptr \<Rightarrow> pool1_state \<Rightarrow> pool1_state outcome" where
  "run_step t task s =
     (case task of Null \<Rightarrow> Next (jump t V_Lock2 s)
      | Ref a \<Rightarrow> (case tasks s a of None \<Rightarrow> Fault
          | Some w \<Rightarrow> Next (jump t V_Lock2 (s\<lparr>tasks := (tasks s)(a := None), finished := finished s @ [(t_func w, t_arg w)]\<rparr>))))"

definition worker1_step :: "nat \<Rightarrow> pool1_state \<Rightarrow> pool1_state outcome" where
  "worker1_step t s =
     (case threads s ! t of
        V_Done \<Rightarrow> Blocked
      | V_Run task \<Rightarrow> run_step t task s
      | pc \<Rightarrow>
        if released s then Fault
        else case pc of
          V_Loop \<Rightarrow> Next (jump t (if tp_running (tp s) then V_Lock else V_Leave) s)
        | V_Lock \<Rightarrow> and_then (lock_tp (Worker1 t) s) (jump t V_Test)
        | V_Test \<Rightarrow>
            if tp_running (tp s) \<and> tp_task_list (tp s) = Null
            then and_then (unlock_tp (Worker1 t) s) (jump t V_Sleep)
            else if \<not> tp_running (tp s) then Next (jump t V_Leave s)
            else Next (jump t V_Get s)
        | V_Sleep \<Rightarrow> and_then (lock_tp (Worker1 t) s) (jump t V_Test)
        | V_Get \<Rightarrow> take_step t s
        | V_Lock2 \<Rightarrow> and_then (lock_tp (Worker1 t) s) (jump t V_Dec)
        | V_Dec \<Rightarrow>
            and_then (unlock_tp (Worker1 t) (set_tp (\<lambda>p. p\<lparr>tp_working_count := tp_working_count p - 1\<rparr>) s))
              (jump t V_Loop)
        | V_Leave \<Rightarrow> Next (jump t (V_LeaveWrite (tp_thread_count (tp s))) s)
        | V_LeaveWrite v \<Rightarrow> Next (jump t V_LeaveUnlock (set_tp (\<lambda>p. p\<lparr>tp_thread_count := v - 1\<rparr>) s))
        | _ \<Rightarrow> and_then (unlock_tp (Worker1 t) s) (jump t V_Done))"

datatype choice1 = Go1 | Add1 "(addr \<times> WorkerTask) option" nat nat | Wait1 | Destroy1

definition malloc1_ok :: "(addr \<times> WorkerTask) option \<Rightarrow> task_mem \<Rightarrow> bool" where
  "malloc1_ok mem h = (case mem of None \<Rightarrow> True | Some (a, raw) \<Rightarrow> h a = None)"

text \<open>A whole critical section of the client is one step; it is not possible while another thread holds the
  mutex. The destroying client does not come back to \<open>C_Idle\<close>.\<close>

definition add1_step :: "(addr \<times> WorkerTask) option \<Rightarrow> nat \<Rightarrow> nat \<Rightarrow> pool1_state \<Rightarrow> pool1_state outcome" where
  "add1_step mem func arg s =
     (if \<not> malloc1_ok mem (tasks s) then Blocked
      else if mem = None then Next s
      else if tp_mutex (tp s) \<noteq> None then Blocked
      else and_then (checked (ThreadPoolAddTask1 mem func arg (tp_task_list (tp s), tasks s)))
        (\<lambda>(ok, l, h). set_tp (\<lambda>p. p\<lparr>tp_task_list := l\<rparr>) (s\<lparr>tasks := h, given := given s @ [(func, arg)]\<rparr>)))"

definition wait_holds :: "ThreadPool1 \<Rightarrow> bool" where
  "wait_holds p \<longleftrightarrow> (tp_running p \<and> tp_working_count p > 0) \<or> (\<not> tp_running p \<and> tp_thread_count p > 0)"

definition client1_step :: "choice1 \<Rightarrow> pool1_state \<Rightarrow> pool1_state outcome" where
  "client1_step ch s =
     (case (client s, ch) of
        (C_Idle, Add1 mem func arg) \<Rightarrow> add1_step mem func arg s
      | (C_Idle, Wait1) \<Rightarrow> Next (s\<lparr>client := C_WaitLock False\<rparr>)
      | (C_WaitLock d, Go1) \<Rightarrow> and_then (lock_tp Client1 s) (\<lambda>s. s\<lparr>client := C_WaitTest d\<rparr>)
      | (C_WaitTest d, Go1) \<Rightarrow>
          and_then (unlock_tp Client1 s)
            (\<lambda>s. s\<lparr>client := (if wait_holds (tp s) then C_WaitLock d else if d then C_Free else C_Idle)\<rparr>)
      | (C_Idle, Destroy1) \<Rightarrow>
          if tp_mutex (tp s) \<noteq> None then Blocked
          else and_then (checked (free_tasks (tp_task_list (tp s)) (tasks s)))
            (\<lambda>h. set_tp (\<lambda>p. p\<lparr>tp_running := False\<rparr>) (s\<lparr>tasks := h, client := C_WaitLock True\<rparr>))
      | (C_Free, Go1) \<Rightarrow> Next (s\<lparr>released := True, client := C_Done\<rparr>)
      | _ \<Rightarrow> Blocked)"

inductive reachable1 :: "u64 \<Rightarrow> pool1_state \<Rightarrow> bool" for nthreads where
  create1: "ThreadPoolCreate1 nthreads raw = Some s \<Longrightarrow> reachable1 nthreads s"
| worker1: "reachable1 nthreads s \<Longrightarrow> t < unat nthreads \<Longrightarrow> worker1_step t s = Next s' \<Longrightarrow> reachable1 nthreads s'"
| client1: "reachable1 nthreads s \<Longrightarrow> client1_step ch s = Next s' \<Longrightarrow> reachable1 nthreads s'"

section \<open>Invariants\<close>

fun in_work1 :: "vpc \<Rightarrow> bool" where
  "in_work1 (V_Run p) = True"
| "in_work1 V_Lock2 = True"
| "in_work1 V_Dec = True"
| "in_work1 _ = False"

fun holds1 :: "vpc \<Rightarrow> bool" where
  "holds1 V_Test = True"
| "holds1 V_Get = True"
| "holds1 V_Dec = True"
| "holds1 _ = False"

fun leaving1 :: "vpc \<Rightarrow> bool" where
  "leaving1 V_Leave = True"
| "leaving1 (V_LeaveWrite v) = True"
| "leaving1 V_LeaveUnlock = True"
| "leaving1 _ = False"

fun carried1 :: "vpc \<Rightarrow> addr list" where
  "carried1 (V_Run (Ref a)) = [a]"
| "carried1 _ = []"

fun testing1 :: "cpc \<Rightarrow> bool" where
  "testing1 (C_WaitTest d) = True"
| "testing1 _ = False"

fun running1 :: "cpc \<Rightarrow> bool" where
  "running1 C_Idle = True"
| "running1 (C_WaitLock d) = (\<not> d)"
| "running1 (C_WaitTest d) = (\<not> d)"
| "running1 _ = False"

definition count1_inv :: "u64 \<Rightarrow> pool1_state \<Rightarrow> bool" where
  "count1_inv n s \<longleftrightarrow> length (threads s) = unat n \<and>
     tp_working_count (tp s) = of_nat (num in_work1 (threads s))"

definition lock1_inv :: "pool1_state \<Rightarrow> bool" where
  "lock1_inv s \<longleftrightarrow>
     (\<forall>t < length (threads s). holds1 (threads s ! t) \<longrightarrow> tp_mutex (tp s) = Some (Worker1 t)) \<and>
     (\<forall>t. tp_mutex (tp s) = Some (Worker1 t) \<longrightarrow>
        t < length (threads s) \<and> (holds1 (threads s ! t) \<or> leaving1 (threads s ! t))) \<and>
     (testing1 (client s) \<longleftrightarrow> tp_mutex (tp s) = Some Client1)"

definition phase1_inv :: "pool1_state \<Rightarrow> bool" where
  "phase1_inv s \<longleftrightarrow>
     (released s \<longleftrightarrow> client s = C_Done) \<and> (tp_running (tp s) \<longleftrightarrow> running1 (client s)) \<and>
     (\<forall>t < length (threads s).
        (tp_running (tp s) \<longrightarrow> \<not> leaving1 (threads s ! t) \<and> threads s ! t \<noteq> V_Done) \<and>
        (\<not> tp_running (tp s) \<longrightarrow> threads s ! t \<noteq> V_Get) \<and>
        (threads s ! t = V_Get \<longrightarrow> tp_task_list (tp s) \<noteq> Null))"

definition task_at1 :: "task_mem \<Rightarrow> addr \<Rightarrow> nat \<times> nat" where
  "task_at1 h a = (case h a of None \<Rightarrow> (0, 0) | Some w \<Rightarrow> (t_func w, t_arg w))"

abbreviation carried1_by :: "pool1_state \<Rightarrow> addr list" where
  "carried1_by s \<equiv> concat (map carried1 (threads s))"

definition tasks1_inv :: "pool1_state \<Rightarrow> task_view list \<Rightarrow> bool" where
  "tasks1_inv s xs \<longleftrightarrow>
     (tp_running (tp s) \<longrightarrow> tasks_rep (tp_task_list (tp s), tasks s) xs \<and> given s = taken s @ map snd xs) \<and>
     (\<not> tp_running (tp s) \<longrightarrow> xs = []) \<and>
     distinct (map fst xs @ carried1_by s) \<and> (\<forall>a \<in> set (carried1_by s). tasks s a \<noteq> None) \<and>
     mset (taken s) = mset (finished s) + mset (map (task_at1 (tasks s)) (carried1_by s))"

definition pool1_inv :: "u64 \<Rightarrow> pool1_state \<Rightarrow> bool" where
  "pool1_inv n s \<longleftrightarrow> count1_inv n s \<and> lock1_inv s \<and> phase1_inv s \<and> (\<exists>xs. tasks1_inv s xs)"

section \<open>Steps keep the invariants\<close>

lemma set_tp_simps [simp]:
  "tp (set_tp f s) = f (tp s)" "tasks (set_tp f s) = tasks s" "threads (set_tp f s) = threads s"
  "client (set_tp f s) = client s" "released (set_tp f s) = released s" "given (set_tp f s) = given s"
  "taken (set_tp f s) = taken s" "finished (set_tp f s) = finished s"
  by (simp_all add: set_tp_def)

lemma jump_simps [simp]:
  "tp (jump t pc s) = tp s" "tasks (jump t pc s) = tasks s" "threads (jump t pc s) = (threads s)[t := pc]"
  "client (jump t pc s) = client s" "released (jump t pc s) = released s" "given (jump t pc s) = given s"
  "taken (jump t pc s) = taken s" "finished (jump t pc s) = finished s"
  by (simp_all add: jump_def)

lemma lock_tp_Next: "lock_tp me s = Next s' \<longleftrightarrow> tp_mutex (tp s) = None \<and> s' = set_tp (\<lambda>p. p\<lparr>tp_mutex := Some me\<rparr>) s"
  by (auto simp: lock_tp_def split: option.splits if_splits)

lemma unlock_tp_Next: "unlock_tp me s = Next s' \<longleftrightarrow> tp_mutex (tp s) = Some me \<and> s' = set_tp (\<lambda>p. p\<lparr>tp_mutex := None\<rparr>) s"
  by (auto simp: unlock_tp_def)

lemmas step1_Next = and_then_Next lock_tp_Next unlock_tp_Next run_step_def

lemma of_nat_num_update:
  "i < length xs \<Longrightarrow> (of_nat (num P (xs[i := x])) :: u64) = of_nat (num P xs) - of_bool (P (xs ! i)) + of_bool (P x)"
  using arg_cong [OF num_update [of i xs P x], of "of_nat :: nat \<Rightarrow> u64"] by (simp add: algebra_simps)

lemma take_step_Next:
  assumes "take_step t s = Next s'"
  obtains task l h where "take_task1 (tp_task_list (tp s), tasks s) = Some (task, l, h)" "tp_mutex (tp s) = Some (Worker1 t)"
    "threads s' = (threads s)[t := V_Run (case task of None \<Rightarrow> Null | Some (a, fg) \<Rightarrow> Ref a)]"
    "tp s' = (tp s)\<lparr>tp_task_list := l, tp_working_count := tp_working_count (tp s) + 1, tp_mutex := None\<rparr>"
    "tasks s' = h" "taken s' = taken s @ (case task of None \<Rightarrow> [] | Some (a, fg) \<Rightarrow> [fg])"
    "given s' = given s" "finished s' = finished s" "client s' = client s" "released s' = released s"
  using assms by (auto simp: take_step_def Let_def step1_Next split: option.splits)

lemma worker1_step_count:
  assumes "count1_inv n s" and "t < length (threads s)" and "worker1_step t s = Next s'"
  shows "count1_inv n s'"
  using assms
  by (cases "threads s ! t")
     (auto simp: worker1_step_def step1_Next count1_inv_def of_nat_num_update elim!: take_step_Next
       split: if_splits ptr.splits option.splits)

lemma lock1_invD:
  assumes "lock1_inv s"
  shows "t < length (threads s) \<Longrightarrow> holds1 (threads s ! t) \<Longrightarrow> tp_mutex (tp s) = Some (Worker1 t)"
    and "tp_mutex (tp s) = Some (Worker1 t) \<Longrightarrow> t < length (threads s) \<and> (holds1 (threads s ! t) \<or> leaving1 (threads s ! t))"
    and "testing1 (client s) \<longleftrightarrow> tp_mutex (tp s) = Some Client1"
  using assms unfolding lock1_inv_def by blast+

lemma lock1_inv_release:
  assumes L: "lock1_inv s" and "tp_mutex (tp s) = Some (Worker1 t)" and "tp_mutex (tp s') = None"
    and "threads s' = (threads s)[t := pc]" and "\<not> holds1 pc" and "client s' = client s"
  shows "lock1_inv s'"
proof -
  have "\<not> holds1 (threads s' ! u)" if u: "u < length (threads s')" for u
  proof (cases "u = t")
    case False
    then have "threads s' ! u = threads s ! u" "u < length (threads s)" using assms(4) u by simp_all
    then show ?thesis using lock1_invD(1) [OF L] assms(2) False by fastforce
  qed (use assms(4,5) u in simp)
  then show ?thesis using lock1_invD(3) [OF L] assms(2,3,6) by (simp add: lock1_inv_def)
qed

lemma lock1_inv_acquire:
  assumes L: "lock1_inv s" and "tp_mutex (tp s) = None" and "tp_mutex (tp s') = Some (Worker1 t)"
    and "threads s' = (threads s)[t := pc]" and "holds1 pc" and "client s' = client s" and "t < length (threads s)"
  shows "lock1_inv s'"
proof -
  have "u = t" if u: "u < length (threads s')" "holds1 (threads s' ! u)" for u
    using lock1_invD(1) [OF L, of u] assms(2,4) u by (cases "u = t") simp_all
  moreover have "holds1 (threads s' ! t)" "t < length (threads s')" using assms(4,5,7) by simp_all
  moreover have "\<not> testing1 (client s')" using lock1_invD(3) [OF L] assms(2,6) by simp
  ultimately show ?thesis unfolding lock1_inv_def assms(3) by blast
qed

lemma lock1_inv_keep:
  assumes L: "lock1_inv s" and "tp_mutex (tp s') = tp_mutex (tp s)" and "threads s' = (threads s)[t := pc]"
    and "holds1 pc \<longrightarrow> holds1 (threads s ! t)" "holds1 (threads s ! t) \<or> leaving1 (threads s ! t) \<longrightarrow> holds1 pc \<or> leaving1 pc"
    and "client s' = client s" and "t < length (threads s)"
  shows "lock1_inv s'"
proof -
  have "tp_mutex (tp s') = Some (Worker1 u)" if u: "u < length (threads s')" "holds1 (threads s' ! u)" for u
    using lock1_invD(1) [OF L, of u] assms(2-4) u by (cases "u = t") simp_all
  moreover have "u < length (threads s') \<and> (holds1 (threads s' ! u) \<or> leaving1 (threads s' ! u))"
    if u: "tp_mutex (tp s') = Some (Worker1 u)" for u
    using lock1_invD(2) [OF L, of u] assms(2,3,5,7) u by (cases "u = t") auto
  moreover have "testing1 (client s') \<longleftrightarrow> tp_mutex (tp s') = Some Client1" using lock1_invD(3) [OF L] assms(2,6) by simp
  ultimately show ?thesis unfolding lock1_inv_def by blast
qed

lemma worker1_step_lock:
  assumes L: "lock1_inv s" and t: "t < length (threads s)" and st: "worker1_step t s = Next s'"
  shows "lock1_inv s'"
proof -
  note keep = lock1_inv_keep [OF L _ _ _ _ _ t] and acquire = lock1_inv_acquire [OF L _ _ _ _ _ t]
    and release = lock1_inv_release [OF L]
  show ?thesis
  proof (cases "threads s ! t")
    case V_Get
    then have "take_step t s = Next s'" using st by (simp add: worker1_step_def split: if_splits)
    then show ?thesis by (rule take_step_Next) (rule release, auto)
  next
    case V_Loop
    then show ?thesis using st keep [of s' "threads s' ! t"] t by (auto simp: worker1_step_def split: if_splits)
  next
    case V_Lock
    then show ?thesis using st acquire [of s' V_Test] by (auto simp: worker1_step_def step1_Next split: if_splits)
  next
    case V_Test
    then show ?thesis using st keep [of s' "threads s' ! t"] release [of t s' V_Sleep] t
      by (auto simp: worker1_step_def step1_Next split: if_splits)
  next
    case V_Sleep
    then show ?thesis using st acquire [of s' V_Test] by (auto simp: worker1_step_def step1_Next split: if_splits)
  next
    case (V_Run p)
    then show ?thesis using st keep [of s' V_Lock2] by (auto simp: worker1_step_def step1_Next split: ptr.splits option.splits)
  next
    case V_Lock2
    then show ?thesis using st acquire [of s' V_Dec] by (auto simp: worker1_step_def step1_Next split: if_splits)
  next
    case V_Dec
    then show ?thesis using st release [of t s' V_Loop] by (auto simp: worker1_step_def step1_Next split: if_splits)
  next
    case V_Leave
    then show ?thesis using st keep [of s' "threads s' ! t"] t by (auto simp: worker1_step_def split: if_splits)
  next
    case (V_LeaveWrite v)
    then show ?thesis using st keep [of s' V_LeaveUnlock] by (auto simp: worker1_step_def split: if_splits)
  next
    case V_LeaveUnlock
    then show ?thesis using st release [of t s' V_Done] by (auto simp: worker1_step_def step1_Next split: if_splits)
  qed (use st in \<open>simp add: worker1_step_def\<close>)
qed

lemma worker1_step_phase:
  assumes "phase1_inv s" and "lock1_inv s" and "t < length (threads s)" and "worker1_step t s = Next s'"
  shows "phase1_inv s'"
proof -
  have only: "threads s ! u \<noteq> V_Get" if u: "threads s ! t = V_Get" "u \<noteq> t" "u < length (threads s)" for u
    using lock1_invD(1) [OF assms(2,3)] lock1_invD(1) [OF assms(2) u(3)] u(1,2) by auto
  show ?thesis
  proof (cases "threads s ! t = V_Get")
    case True
    then have "take_step t s = Next s'" using assms(4) by (simp add: worker1_step_def split: if_splits)
    then show ?thesis
      by (rule take_step_Next) (use assms(1,3) only True in \<open>auto simp: phase1_inv_def nth_list_update\<close>)
  next
    case False
    then show ?thesis using assms(1,3,4)
      by (cases "threads s ! t")
         (auto simp: worker1_step_def step1_Next phase1_inv_def nth_list_update split: if_splits ptr.splits option.splits)
  qed
qed

lemma carried1_update:
  "t < length ws \<Longrightarrow> mset (concat (map carried1 (ws[t := pc]))) + mset (carried1 (ws ! t)) =
    mset (concat (map carried1 ws)) + mset (carried1 pc)"
  using mset_concat_update [of t "map carried1 ws" "carried1 pc"] by (simp add: map_update)

lemma tasks1_invD:
  assumes "tasks1_inv s xs"
  shows "tp_running (tp s) \<Longrightarrow> tasks_rep (tp_task_list (tp s), tasks s) xs"
    and "tp_running (tp s) \<Longrightarrow> given s = taken s @ map snd xs"
    and "\<not> tp_running (tp s) \<Longrightarrow> xs = []"
    and "distinct (map fst xs @ carried1_by s)" and "a \<in> set (carried1_by s) \<Longrightarrow> tasks s a \<noteq> None"
    and "mset (taken s) = mset (finished s) + mset (map (task_at1 (tasks s)) (carried1_by s))"
  using assms unfolding tasks1_inv_def by blast+

text \<open>A step that touches neither the tasks nor the list.\<close>

lemma tasks1_inv_quiet:
  assumes T: "tasks1_inv s xs" and t: "t < length (threads s)" and "threads s' = (threads s)[t := pc]"
    and "carried1 pc = []" and "carried1 (threads s ! t) = []"
    and "tp_running (tp s') = tp_running (tp s)" "tp_task_list (tp s') = tp_task_list (tp s)" "tasks s' = tasks s"
    and "given s' = given s" "taken s' = taken s" "finished s' = finished s"
  shows "tasks1_inv s' xs"
proof -
  have "mset (carried1_by s') = mset (carried1_by s)" using carried1_update [OF t, of pc] assms(3-5) by simp
  moreover have "carried1_by s' = carried1_by s"
    using assms(3-5) t by (metis list_update_id map_update)
  ultimately show ?thesis using T assms(6-11) unfolding tasks1_inv_def by simp
qed

lemma task_rep_view:
  "tasks_rep (p, h) xs \<Longrightarrow> x \<in> set xs \<Longrightarrow> h (fst x) \<noteq> None \<and> task_at1 h (fst x) = snd x"
  by (auto simp: tasks_rep_def task_at1_def)

lemma tasks1_inv_take:
  assumes T: "tasks1_inv s xs" and t: "t < length (threads s)" and "carried1 (threads s ! t) = []"
    and run: "tp_running (tp s)" and st: "take_step t s = Next s'"
  shows "\<exists>ys. tasks1_inv s' ys"
proof -
  note D = tasks1_invD [OF T]
  obtain task l h where N: "take_task1 (tp_task_list (tp s), tasks s) = Some (task, l, h)"
    "threads s' = (threads s)[t := V_Run (case task of None \<Rightarrow> Null | Some (a, fg) \<Rightarrow> Ref a)]"
    "tp_running (tp s')" "tp_task_list (tp s') = l" "tasks s' = h"
    "taken s' = taken s @ (case task of None \<Rightarrow> [] | Some (a, fg) \<Rightarrow> [fg])" "given s' = given s" "finished s' = finished s"
    using st run by (elim take_step_Next) auto
  show ?thesis
  proof (cases xs)
    case Nil
    then have p: "take_task1 (tp_task_list (tp s), tasks s) = Some (None, Null, tasks s)" "tp_task_list (tp s) = Null"
      using D(1) [OF run] by (auto simp: tasks_rep_def take_task1_def GetWorkerTask_def)
    have "tasks1_inv s' xs" by (rule tasks1_inv_quiet [OF T t N(2)]) (use N p run assms(3) in auto)
    then show ?thesis by blast
  next
    case (Cons x ys)
    obtain a fg where x: "x = (a, fg)" by (cases x)
    obtain s1 where "take_task1 (tp_task_list (tp s), tasks s) = Some (Some x, s1)" "tasks_rep s1 ys"
      using task_fifo.pull_law D(1) [OF run] Cons by blast
    moreover have "h = tasks s" using N(1) by (auto simp: take_task1_def GetWorkerTask_def split: ptr.splits bind_splits)
    ultimately have p: "task = Some x" "tasks_rep (l, tasks s) ys" "h = tasks s" using N(1) by auto
    have C: "mset (carried1_by s') = add_mset a (mset (carried1_by s))"
      using carried1_update [OF t, of "V_Run (Ref a)"] N(2) p(1) x assms(3) by simp
    have ta: "tasks s a \<noteq> None" "task_at1 (tasks s) a = fg" using task_rep_view [OF D(1) [OF run], of x] Cons x by auto
    have "mset (map fst ys @ carried1_by s') = mset (map fst xs @ carried1_by s)" using C Cons x by simp
    then have "distinct (map fst ys @ carried1_by s')" using D(4) by (metis mset_eq_imp_distinct_iff)
    moreover have "b = a \<or> b \<in> set (carried1_by s)" if "b \<in> set (carried1_by s')" for b
      using that arg_cong [OF C, of set_mset] by auto
    then have "\<forall>b \<in> set (carried1_by s'). tasks s b \<noteq> None" using ta(1) D(5) by blast
    then have "\<forall>b \<in> set (carried1_by s'). tasks s' b \<noteq> None" unfolding N(5) p(3) .
    moreover have "tasks_rep (tp_task_list (tp s'), tasks s') ys" using N(4,5) p(2,3) by simp
    moreover have "mset (map (task_at1 (tasks s)) (carried1_by s')) = add_mset fg (mset (map (task_at1 (tasks s)) (carried1_by s)))"
      using arg_cong [OF C, of "image_mset (task_at1 (tasks s))"] ta(2) by simp
    then have "mset (taken s') = mset (finished s') + mset (map (task_at1 (tasks s')) (carried1_by s'))"
      using D(6) N(5,6,8) p(1,3) x by simp
    moreover have "given s' = taken s' @ map snd ys" using D(2) [OF run] N(6,7) p(1) x Cons by simp
    ultimately have "tasks1_inv s' ys" using N(3) unfolding tasks1_inv_def by blast
    then show ?thesis by blast
  qed
qed

lemma tasks1_inv_run:
  assumes T: "tasks1_inv s xs" and t: "t < length (threads s)" and a: "threads s ! t = V_Run (Ref a)" "tasks s a = Some w"
    and s': "s' = jump t V_Lock2 (s\<lparr>tasks := (tasks s)(a := None), finished := finished s @ [(t_func w, t_arg w)]\<rparr>)"
  shows "tasks1_inv s' xs"
proof -
  note D = tasks1_invD [OF T]
  have C: "add_mset a (mset (carried1_by s')) = mset (carried1_by s)"
    using carried1_update [OF t, of V_Lock2] a(1) s' by simp
  then have "mset (map fst xs @ carried1_by s) = mset (a # map fst xs @ carried1_by s')" by simp
  then have "distinct (a # map fst xs @ carried1_by s')" using D(4) mset_eq_imp_distinct_iff by blast
  then have new: "a \<notin> set (map fst xs @ carried1_by s')" "distinct (map fst xs @ carried1_by s')" by auto
  have "b \<in> set (carried1_by s)" if "b \<in> set (carried1_by s')" for b
    using that arg_cong [OF C, of set_mset] by auto
  then have "\<forall>b \<in> set (carried1_by s'). tasks s' b \<noteq> None" using D(5) new(1) s' by auto
  moreover have view: "map (task_at1 (tasks s')) (carried1_by s') = map (task_at1 (tasks s)) (carried1_by s')"
    using new(1) s' by (intro map_cong) (auto simp: task_at1_def)
  have "mset (map (task_at1 (tasks s)) (carried1_by s)) = add_mset (t_func w, t_arg w) (mset (map (task_at1 (tasks s)) (carried1_by s')))"
    using arg_cong [OF C, of "image_mset (task_at1 (tasks s))"] a(2) by (simp add: task_at1_def [of _ a])
  then have "mset (taken s') = mset (finished s') + mset (map (task_at1 (tasks s')) (carried1_by s'))"
    using D(6) unfolding view by (simp add: s' del: mset_map)
  moreover have "tasks_rep (tp_task_list (tp s'), tasks s') xs" if "tp_running (tp s')"
    using D(1) that new(1) s' by (auto simp: tasks_rep_def image_iff)
  moreover have "tp s' = tp s" "given s' = given s" "taken s' = taken s" using s' by simp_all
  ultimately show ?thesis using D(2,3) new(2) unfolding tasks1_inv_def by metis
qed

lemma worker1_step_tasks:
  assumes T: "tasks1_inv s xs" and P: "phase1_inv s" and t: "t < length (threads s)" and st: "worker1_step t s = Next s'"
  shows "\<exists>ys. tasks1_inv s' ys"
proof -
  have quiet: "\<exists>ys. tasks1_inv s' ys"
    if q: "threads s' = (threads s)[t := threads s' ! t]" "carried1 (threads s' ! t) = []" "carried1 (threads s ! t) = []"
      "tp_running (tp s') = tp_running (tp s)" "tp_task_list (tp s') = tp_task_list (tp s)" "tasks s' = tasks s"
      "given s' = given s" "taken s' = taken s" "finished s' = finished s"
    using tasks1_inv_quiet [OF T t q] by blast
  show ?thesis
  proof (cases "threads s ! t")
    case V_Get
    then have "tp_running (tp s)" "take_step t s = Next s'" using P t st by (auto simp: phase1_inv_def worker1_step_def split: if_splits)
    then show ?thesis using tasks1_inv_take [OF T t] V_Get by simp
  next
    case (V_Run p)
    then show ?thesis
    proof (cases p)
      case Null
      then show ?thesis using V_Run st quiet t by (auto simp: worker1_step_def run_step_def)
    next
      case (Ref a)
      then obtain w where "tasks s a = Some w"
        "s' = jump t V_Lock2 (s\<lparr>tasks := (tasks s)(a := None), finished := finished s @ [(t_func w, t_arg w)]\<rparr>)"
        using V_Run st by (auto simp: worker1_step_def run_step_def split: option.splits)
      then show ?thesis using tasks1_inv_run [OF T t] V_Run Ref by blast
    qed
  qed (use st quiet t in \<open>auto simp: worker1_step_def step1_Next split: if_splits\<close>)
qed

section \<open>The client\<close>

lemma tasks1_inv_add:
  assumes T: "tasks1_inv s xs" and run: "tp_running (tp s)" and st: "add1_step mem f g s = Next s'"
  shows "\<exists>ys. tasks1_inv s' ys"
proof (cases mem)
  case None
  then show ?thesis using T st by (auto simp: add1_step_def split: if_splits)
next
  case (Some m)
  obtain a raw where m: "m = (a, raw)" by (cases m)
  note D = tasks1_invD [OF T]
  have free: "tasks s a = None" using st Some m by (auto simp: add1_step_def malloc1_ok_def split: if_splits)
  have R: "chain t_next (tasks s) (tp_task_list (tp s)) (map fst xs)" "distinct (map fst xs)"
    using D(1) [OF run] by (auto simp: tasks_rep_def)
  obtain l h where add: "ThreadPoolAddTask1 (Some (a, raw)) f g (tp_task_list (tp s), tasks s) = Some (True, l, h)"
    "\<And>b. b \<noteq> a \<Longrightarrow> h b = tasks s b \<or> (\<exists>t n. b \<in> fst ` set xs \<and> tasks s b = Some t \<and> h b = Some (t\<lparr>t_next := n\<rparr>))"
    using add_task_chain [OF R free, of raw f g] by fastforce
  obtain q where "add_task1 raw (a, f, g) (tp_task_list (tp s), tasks s) = Some q" "tasks_rep q (xs @ [(a, f, g)])"
    using task_fifo.push_law [OF D(1) [OF run], of "(a, f, g)" raw] free unfolding task_fresh_def by auto
  then have rep: "tasks_rep (l, h) (xs @ [(a, f, g)])" using add(1) by (simp add: add_task1_def)
  have s': "tp_task_list (tp s') = l" "tp_running (tp s')" "tasks s' = h" "threads s' = threads s" "given s' = given s @ [(f, g)]"
    "taken s' = taken s" "finished s' = finished s"
    using st Some m add(1) run by (auto simp: add1_step_def step1_Next split: if_splits)
  have fresh: "a \<notin> set (carried1_by s)" using D(5) free by blast
  have same: "h b = tasks s b" if b: "b \<in> set (carried1_by s)" for b
    using add(2) [of b] D(4) fresh b by (metis disjoint_iff distinct_append image_set)
  then have view: "map (task_at1 h) (carried1_by s) = map (task_at1 (tasks s)) (carried1_by s)" by (intro map_cong) (auto simp: task_at1_def)
  have "distinct (map fst (xs @ [(a, f, g)]) @ carried1_by s)"
    using D(4) fresh rep by (auto simp: tasks_rep_def)
  moreover have "\<forall>b \<in> set (carried1_by s). h b \<noteq> None" using same D(5) by metis
  moreover have "given s @ [(f, g)] = taken s @ map snd (xs @ [(a, f, g)])" using D(2) [OF run] by simp
  ultimately have "tasks1_inv s' (xs @ [(a, f, g)])"
    using D(6) rep s'(2) unfolding tasks1_inv_def s'(1,3-7) view by blast
  then show ?thesis by blast
qed

lemma tasks1_inv_destroy:
  assumes T: "tasks1_inv s xs" and run: "tp_running (tp s)" and h: "free_tasks (tp_task_list (tp s)) (tasks s) = Some h"
    and s': "threads s' = threads s" "tasks s' = h" "\<not> tp_running (tp s')" "taken s' = taken s" "finished s' = finished s"
  shows "tasks1_inv s' []"
proof -
  note D = tasks1_invD [OF T]
  have "h = tasks s |` (- set (map fst xs))"
    using free_tasks_chain [of "tasks s" "tp_task_list (tp s)" "map fst xs"] D(1) [OF run] h by (simp add: tasks_rep_def)
  then have same: "h b = tasks s b" if b: "b \<in> set (carried1_by s)" for b
    using D(4) b unfolding distinct_append by (auto simp: restrict_map_def)
  then have view: "map (task_at1 h) (carried1_by s) = map (task_at1 (tasks s)) (carried1_by s)" by (intro map_cong) (auto simp: task_at1_def)
  have "\<forall>b \<in> set (carried1_by s). h b \<noteq> None" using same D(5) by metis
  moreover have "distinct (map fst [] @ carried1_by s)" using D(4) by simp
  ultimately show ?thesis using D(6) s'(3) unfolding tasks1_inv_def s'(1,2,4,5) view by blast
qed

lemma client1_step_frame:
  assumes "client1_step ch s = Next s'"
  shows "threads s' = threads s" "tp_working_count (tp s') = tp_working_count (tp s)" "released s' \<longleftrightarrow> released s \<or> client s = C_Free"
  using assms
  by (auto simp: client1_step_def add1_step_def step1_Next split: cpc.splits choice1.splits if_splits prod.splits)

text \<open>The lock and the phase under a client step: locking and unlocking only concern the client.\<close>

lemma client1_step_lock:
  assumes L: "lock1_inv s" and st: "client1_step ch s = Next s'"
  shows "lock1_inv s'"
proof -
  have mutex: "tp_mutex (tp s') = tp_mutex (tp s) \<and> (testing1 (client s') \<longleftrightarrow> testing1 (client s)) \<or>
      tp_mutex (tp s) = None \<and> tp_mutex (tp s') = Some Client1 \<and> testing1 (client s') \<or>
      tp_mutex (tp s) = Some Client1 \<and> tp_mutex (tp s') = None \<and> \<not> testing1 (client s')"
    using st by (auto simp: client1_step_def add1_step_def step1_Next split: cpc.splits choice1.splits if_splits prod.splits)
  then consider "tp_mutex (tp s') = tp_mutex (tp s)" "testing1 (client s') \<longleftrightarrow> testing1 (client s)"
    | "\<And>t. tp_mutex (tp s) \<noteq> Some (Worker1 t)" "\<And>t. tp_mutex (tp s') \<noteq> Some (Worker1 t)"
      "testing1 (client s') \<longleftrightarrow> tp_mutex (tp s') = Some Client1" by auto
  then show ?thesis
  proof cases
    case 1
    show ?thesis using L unfolding lock1_inv_def client1_step_frame(1) [OF st] 1 .
  next
    case 2
    have "\<not> holds1 (threads s ! t)" if "t < length (threads s)" for t using lock1_invD(1) [OF L that] 2(1) by blast
    then show ?thesis using 2 unfolding lock1_inv_def client1_step_frame(1) [OF st] by blast
  qed
qed

lemma client1_step_phase:
  assumes P: "phase1_inv s" and L: "lock1_inv s" and T: "tasks1_inv s xs" and st: "client1_step ch s = Next s'"
  shows "phase1_inv s'"
proof -
  have get: "threads s ! t \<noteq> V_Get" if "tp_mutex (tp s) = None" "t < length (threads s)" for t
    using lock1_invD(1) [OF L that(2)] that(1) by auto
  show ?thesis using P st get
    by (auto simp: client1_step_def add1_step_def step1_Next phase1_inv_def split: cpc.splits choice1.splits if_splits prod.splits)
qed

lemma client1_step_tasks:
  assumes T: "tasks1_inv s xs" and P: "phase1_inv s" and st: "client1_step ch s = Next s'"
  shows "\<exists>ys. tasks1_inv s' ys"
proof -
  have run: "tp_running (tp s)" if "client s = C_Idle" using P that by (simp add: phase1_inv_def)
  consider mem f g where "client s = C_Idle" "ch = Add1 mem f g" | "client s = C_Idle" "ch = Destroy1"
    | "tasks s' = tasks s" "tp_running (tp s') = tp_running (tp s)" "tp_task_list (tp s') = tp_task_list (tp s)"
      "given s' = given s" "taken s' = taken s" "finished s' = finished s"
    using st by (cases "client s"; cases ch) (auto simp: client1_step_def step1_Next)
  then show ?thesis
  proof cases
    case (1 mem f g)
    then show ?thesis using tasks1_inv_add [OF T run] st by (simp add: client1_step_def)
  next
    case 2
    then obtain h where "free_tasks (tp_task_list (tp s)) (tasks s) = Some h"
      "s' = set_tp (\<lambda>p. p\<lparr>tp_running := False\<rparr>) (s\<lparr>tasks := h, client := C_WaitLock True\<rparr>)"
      using st by (auto simp: client1_step_def step1_Next split: if_splits)
    then show ?thesis by (intro exI [of _ "[]"] tasks1_inv_destroy [OF T run [OF 2(1)]]) auto
  next
    case 3
    then have "tasks1_inv s' xs" using T client1_step_frame(1) [OF st] unfolding tasks1_inv_def by simp
    then show ?thesis by blast
  qed
qed

lemma reachable1_inv: "reachable1 n s \<Longrightarrow> pool1_inv n s"
proof (induction rule: reachable1.induct)
  case (create1 raw s)
  then have s: "threads s = replicate (unat n) V_Loop" "tp_mutex (tp s) = None" "tp_task_list (tp s) = Null" "tp_running (tp s)"
    "tp_working_count (tp s) = 0" "client s = C_Idle" "\<not> released s" "given s = []" "taken s = []" "finished s = []"
    by (auto simp: ThreadPoolCreate1_def split: if_splits option.splits)
  have "carried1_by s = []" using s(1) by simp
  then have "tasks1_inv s []" using s by (simp add: tasks1_inv_def tasks_rep_def)
  then show ?case using s by (auto simp: pool1_inv_def count1_inv_def lock1_inv_def phase1_inv_def)
next
  case (worker1 s t s')
  then have "t < length (threads s)" by (simp add: pool1_inv_def count1_inv_def)
  then show ?case using worker1 worker1_step_count worker1_step_lock worker1_step_phase worker1_step_tasks
    unfolding pool1_inv_def by metis
next
  case (client1 s ch s')
  then have "count1_inv n s'" using client1_step_frame by (simp add: pool1_inv_def count1_inv_def)
  then show ?case using client1 client1_step_lock client1_step_phase client1_step_tasks unfolding pool1_inv_def by metis
qed

section \<open>Which steps are undefined\<close>

lemma lock_tp_Fault: "lock_tp me s = Fault \<longleftrightarrow> tp_mutex (tp s) = Some me"
  by (auto simp: lock_tp_def split: option.splits if_splits)

lemma unlock_tp_Fault: "unlock_tp me s = Fault \<longleftrightarrow> tp_mutex (tp s) \<noteq> Some me"
  by (auto simp: unlock_tp_def)

lemma take_defined: "tasks_rep s xs \<Longrightarrow> take_task1 s \<noteq> None"
  using task_fifo.pull_law [of s] task_fifo.empty_law [of s] by (cases xs) fastforce+

text \<open>Before the pool is freed, the only undefined step of a worker is the unlock with which it ends.\<close>

lemma worker1_fault:
  assumes inv: "pool1_inv n s" and t: "t < length (threads s)" and nr: "\<not> released s" and f: "worker1_step t s = Fault"
  shows "threads s ! t = V_LeaveUnlock \<and> tp_mutex (tp s) \<noteq> Some (Worker1 t)"
proof -
  have L: "lock1_inv s" and P: "phase1_inv s" using inv by (auto simp: pool1_inv_def)
  obtain xs where T: "tasks1_inv s xs" using inv by (auto simp: pool1_inv_def)
  have own: "holds1 (threads s ! t) \<Longrightarrow> tp_mutex (tp s) = Some (Worker1 t)" using lock1_invD(1) [OF L t] .
  have free: "tp_mutex (tp s) \<noteq> Some (Worker1 t)" if "\<not> holds1 (threads s ! t)" "\<not> leaving1 (threads s ! t)"
    using lock1_invD(2) [OF L, of t] that by blast
  have get: "take_task1 (tp_task_list (tp s), tasks s) \<noteq> None" if "threads s ! t = V_Get"
  proof -
    have "tp_running (tp s)" using P t that by (auto simp: phase1_inv_def)
    then show ?thesis using take_defined tasks1_invD(1) [OF T] by blast
  qed
  have run: "tasks s a \<noteq> None" if "threads s ! t = V_Run (Ref a)" for a
  proof -
    have "a \<in> set (carried1_by s)" using that nth_mem [OF t] by (metis UN_I carried1.simps(1) list.set_intros(1) set_concat set_map imageI)
    then show ?thesis using tasks1_invD(5) [OF T] by blast
  qed
  show ?thesis using f nr own free get run
    by (cases "threads s ! t")
       (auto simp: worker1_step_def take_step_def run_step_def Let_def lock_tp_Fault unlock_tp_Fault split: if_splits ptr.splits option.splits)
qed

lemma client1_defined:
  assumes inv: "pool1_inv n s"
  shows "client1_step ch s \<noteq> Fault"
proof -
  have L: "lock1_inv s" and P: "phase1_inv s" using inv by (auto simp: pool1_inv_def)
  obtain xs where T: "tasks1_inv s xs" using inv by (auto simp: pool1_inv_def)
  have run: "tasks_rep (tp_task_list (tp s), tasks s) xs" if "client s = C_Idle"
    using tasks1_invD(1) [OF T] P that by (simp add: phase1_inv_def)
  have "add1_step mem f g s \<noteq> Fault" if c: "client s = C_Idle" for mem f g
  proof (cases mem)
    case (Some m)
    obtain a raw where m: "m = (a, raw)" by (cases m)
    have "ThreadPoolAddTask1 mem f g (tp_task_list (tp s), tasks s) \<noteq> None" if "tasks s a = None"
      using add_task_chain [of "tasks s" "tp_task_list (tp s)" "map fst xs" a raw f g] run [OF c] that Some m
      by (auto simp: tasks_rep_def)
    then show ?thesis using Some m by (auto simp: add1_step_def malloc1_ok_def)
  qed (simp add: add1_step_def malloc1_ok_def)
  moreover have "free_tasks (tp_task_list (tp s)) (tasks s) \<noteq> None" if "client s = C_Idle"
    using free_tasks_chain [of "tasks s" "tp_task_list (tp s)" "map fst xs"] run [OF that] by (auto simp: tasks_rep_def)
  ultimately show ?thesis using lock1_invD(3) [OF L]
    by (cases "client s"; cases ch) (auto simp: client1_step_def lock_tp_Fault unlock_tp_Fault)
qed

section \<open>Schedules\<close>

datatype event1 = Worker_Event nat | Client_Event choice1

fun run_events1 :: "event1 list \<Rightarrow> pool1_state \<Rightarrow> pool1_state option" where
  "run_events1 [] s = Some s"
| "run_events1 (Worker_Event t # es) s = (case worker1_step t s of Next s' \<Rightarrow> run_events1 es s' | _ \<Rightarrow> None)"
| "run_events1 (Client_Event ch # es) s = (case client1_step ch s of Next s' \<Rightarrow> run_events1 es s' | _ \<Rightarrow> None)"

fun event1_ok :: "u64 \<Rightarrow> event1 \<Rightarrow> bool" where
  "event1_ok n (Worker_Event t) \<longleftrightarrow> t < unat n"
| "event1_ok n (Client_Event ch) \<longleftrightarrow> True"

lemma reachable1_run: "reachable1 n s \<Longrightarrow> list_all (event1_ok n) es \<Longrightarrow> run_events1 es s = Some s' \<Longrightarrow> reachable1 n s'"
  by (induction es s rule: run_events1.induct) (auto intro: reachable1.intros split: outcome.splits)

definition raw_pool1 :: ThreadPool1 where
  "raw_pool1 = \<lparr>tp_task_list = Ref 5, tp_mutex = None, tp_working_count = 9, tp_thread_count = 9, tp_running = False\<rparr>"

definition pool1_start :: "u64 \<Rightarrow> pool1_state" where
  "pool1_start n = the (ThreadPoolCreate1 n (Some raw_pool1))"

lemma reachable1_start: "n \<noteq> 0 \<Longrightarrow> reachable1 n (pool1_start n)"
  by (rule reachable1.create1 [of _ "Some raw_pool1"]) (auto simp: pool1_start_def ThreadPoolCreate1_def)

lemma reachable1_schedule:
  assumes "n \<noteq> 0" and "list_all (event1_ok n) es" and "case run_events1 es (pool1_start n) of None \<Rightarrow> False | Some s \<Rightarrow> P s"
  shows "\<exists>s. reachable1 n s \<and> P s"
  using assms(2,3) reachable1_run [OF reachable1_start [OF assms(1)], of es] by (auto split: option.splits)

definition queue_event :: event1 where
  "queue_event = Client_Event (Add1 (Some (3, \<lparr>t_func = 0, t_arg = 0, t_next = Ref 3\<rparr>)) 5 6)"

text \<open>The client adds a task and waits, before the worker has looked at the list.\<close>

lemma early_wait_schedule:
  "case run_events1 [queue_event, Client_Event Wait1, Client_Event Go1] (pool1_start 1) of None \<Rightarrow> False
   | Some s \<Rightarrow> client s = C_WaitTest False \<and> given s = [(5, 6)] \<and> finished s = [] \<and>
       tp_mutex (tp s) = Some Client1 \<and> \<not> wait_holds (tp s)"
  by code_simp

text \<open>The worker takes the task; the pool is destroyed while it runs; the worker finishes and leaves.\<close>

lemma stray_unlock_schedule:
  "case run_events1 ([queue_event] @ map Worker_Event [0, 0, 0, 0] @ [Client_Event Destroy1] @ map Worker_Event [0, 0, 0, 0, 0, 0])
      (pool1_start 1) of None \<Rightarrow> False
   | Some s \<Rightarrow> threads s = [V_LeaveUnlock] \<and> tp_mutex (tp s) = None \<and> \<not> released s \<and> finished s = [(5, 6)] \<and> given s = [(5, 6)]"
  by code_simp

lemma taken_schedule:
  "case run_events1 ([queue_event] @ map Worker_Event [0, 0, 0, 0]) (pool1_start 1) of None \<Rightarrow> False
   | Some s \<Rightarrow> tp_running (tp s) \<and> \<not> released s \<and> taken s = [(5, 6)] \<and> finished s = []"
  by code_simp

lemma waited_schedule:
  "case run_events1 ([queue_event] @ map Worker_Event [0, 0, 0, 0, 0, 0, 0] @ [Client_Event Wait1, Client_Event Go1]) (pool1_start 1)
   of None \<Rightarrow> False
   | Some s \<Rightarrow> client s = C_WaitTest False \<and> taken s = [(5, 6)] \<and> tp_mutex (tp s) = Some Client1 \<and> \<not> wait_holds (tp s)"
  by code_simp

lemma not_in_work1_carried: "\<not> in_work1 pc \<Longrightarrow> carried1 pc = []"
  by (cases pc) auto

section \<open>Properties of the pool\<close>

text \<open>The task list is first-in first-out: after \<open>ThreadPoolAddTask\<close>, taking tasks returns those that were
  in the list in their order, then the new one, then null.\<close>

theorem task_list_fifo:
  assumes "tasks_rep (l, h) xs" and "h a = None"
  shows "\<exists>l' h' s. ThreadPoolAddTask1 (Some (a, raw)) f g (l, h) = Some (True, l', h') \<and>
    pull_n take_task1 (length xs + 2) (l', h') = Some (map Some (xs @ [(a, f, g)]) @ [None], s)"
proof -
  have F: "task_fresh (a, f, g) (l, h)" using assms(2) by (simp add: task_fresh_def)
  obtain s' where s': "add_task1 raw (a, f, g) (l, h) = Some s'" "tasks_rep s' (xs @ [(a, f, g)])"
    using task_fifo.push_law [OF assms(1) F] by blast
  obtain l' h' where a: "ThreadPoolAddTask1 (Some (a, raw)) f g (l, h) = Some (True, l', h')"
    using add_task_chain [of h l "map fst xs" a raw f g] assms by (auto simp: tasks_rep_def)
  then have "s' = (l', h')" using s'(1) by (simp add: add_task1_def)
  then show ?thesis using a task_fifo.pull_n_order [OF s'(2), of "length xs + 2"] by auto
qed

theorem task_list_fifo_witness:
  "\<exists>l' h' s. ThreadPoolAddTask1 (Some (7, \<lparr>t_func = 0, t_arg = 0, t_next = Ref 3\<rparr>)) 1 2 (Null, Map.empty) = Some (True, l', h') \<and>
    pull_n take_task1 2 (l', h') = Some ([Some (7, 1, 2), None], s)"
proof -
  have "tasks_rep (Null, Map.empty) []" by (simp add: tasks_rep_def)
  then show ?thesis using task_list_fifo [of Null Map.empty "[]" 7 _ 1 2] by (simp only: append_Nil list.map append_Cons list.size add_0)
qed

text \<open>C15. Until the pool is destroyed, the workers take the tasks in the order in which they were added, every
  taken task has been executed once or is being executed, and no added task is lost: those not taken are in
  the list, in order.\<close>

theorem pool1_takes_in_order:
  assumes "reachable1 n s" and "tp_running (tp s)"
  shows "\<exists>xs. tasks_rep (tp_task_list (tp s), tasks s) xs \<and> given s = taken s @ map snd xs \<and>
    mset (finished s) \<subseteq># mset (taken s)"
proof -
  obtain xs where T: "tasks1_inv s xs" using reachable1_inv [OF assms(1)] by (auto simp: pool1_inv_def)
  have "mset (finished s) \<subseteq># mset (taken s)" unfolding tasks1_invD(6) [OF T] by simp
  then show ?thesis using tasks1_invD(1,2) [OF T assms(2)] by blast
qed

theorem pool1_takes_in_order_witness:
  "\<exists>s xs. reachable1 1 s \<and> taken s = [(5, 6)] \<and> tasks_rep (tp_task_list (tp s), tasks s) xs \<and> given s = taken s @ map snd xs"
proof -
  obtain s where s: "reachable1 1 s" "tp_running (tp s)" "taken s = [(5, 6)]"
    using reachable1_schedule [OF _ _ taken_schedule] by (auto simp: queue_event_def)
  then show ?thesis using pool1_takes_in_order [OF s(1,2)] by metis
qed

text \<open>C16. As long as the pool is not freed, no step of the client is undefined, and the only undefined step
  of a worker is its last one: unlocking a mutex it does not hold, after it left its loop because the
  unlocked test of \<open>running\<close> failed. In particular nothing is undefined before the pool is destroyed, and
  the task list that \<open>ThreadPoolDestory\<close> leaves dangling is not dereferenced.\<close>

theorem pool1_faults_only_at_exit:
  assumes "reachable1 n s" and "\<not> released s" and "t < unat n"
  shows "client1_step ch s \<noteq> Fault \<and>
    (worker1_step t s = Fault \<longrightarrow>
       threads s ! t = V_LeaveUnlock \<and> tp_mutex (tp s) \<noteq> Some (Worker1 t) \<and> \<not> tp_running (tp s))"
proof -
  have inv: "pool1_inv n s" using reachable1_inv [OF assms(1)] .
  have t: "t < length (threads s)" using inv assms(3) by (simp add: pool1_inv_def count1_inv_def)
  have P: "phase1_inv s" using inv by (simp add: pool1_inv_def)
  have "threads s ! t = V_LeaveUnlock \<Longrightarrow> \<not> tp_running (tp s)" using P t by (auto simp: phase1_inv_def)
  then show ?thesis using client1_defined [OF inv] worker1_fault [OF inv t assms(2)] by blast
qed

theorem pool1_faults_only_at_exit_witness:
  "\<exists>s. reachable1 1 s \<and> tp_running (tp s) \<and> worker1_step 0 s \<noteq> Fault"
proof -
  obtain s where s: "reachable1 1 s" "\<not> released s" "tp_running (tp s)"
    using reachable1_schedule [OF _ _ taken_schedule] by (auto simp: queue_event_def)
  then show ?thesis using pool1_faults_only_at_exit [OF s(1,2), of 0] by auto
qed

text \<open>And that undefined step happens: destroying the pool while a worker runs a task leads to a state in
  which the worker unlocks the mutex without holding it.\<close>

theorem pool1_stray_unlock:
  "\<exists>s. reachable1 1 s \<and> \<not> released s \<and> finished s = given s \<and> worker1_step 0 s = Fault"
proof -
  obtain s where s: "reachable1 1 s" "threads s = [V_LeaveUnlock]" "tp_mutex (tp s) = None" "\<not> released s"
    "finished s = [(5, 6)]" "given s = [(5, 6)]"
    using reachable1_schedule [OF _ _ stray_unlock_schedule] by (auto simp: queue_event_def)
  then have "worker1_step 0 s = Fault" by (simp add: worker1_step_def unlock_tp_def)
  then show ?thesis using s by auto
qed

text \<open>\<open>ThreadPoolWait\<close> waits for the tasks that have been taken: when it returns from a running pool, every
  taken task has been executed.\<close>

theorem pool1_wait_finishes_taken:
  assumes "reachable1 n s" and "client s = C_WaitTest False" and "client1_step Go1 s = Next s'" and "client s' = C_Idle"
  shows "mset (finished s') = mset (taken s')"
proof -
  have inv: "pool1_inv n s" using reachable1_inv [OF assms(1)] .
  obtain xs where T: "tasks1_inv s xs" using inv by (auto simp: pool1_inv_def)
  have run: "tp_running (tp s)" using inv assms(2) by (auto simp: pool1_inv_def phase1_inv_def)
  have c: "count1_inv n s" using inv by (simp add: pool1_inv_def)
  have "tp_working_count (tp s) = 0"
    using assms(2-4) run by (auto simp: client1_step_def step1_Next wait_holds_def word_gt_0 split: if_splits)
  then have "(of_nat (num in_work1 (threads s)) :: u64) = of_nat 0" using c by (simp add: count1_inv_def)
  moreover have "unat n < 2 ^ LENGTH(64)" by (rule unsigned_less)
  then have "num in_work1 (threads s) < 2 ^ 64" using num_le [of in_work1 "threads s"] c by (simp add: count1_inv_def)
  ultimately have "num in_work1 (threads s) = 0" using u64_of_nat_eq by (metis zero_less_power zero_less_numeral)
  then have "carried1_by s = []" using not_in_work1_carried by (auto simp: num_zero)
  then have "mset (finished s) = mset (taken s)" using tasks1_invD(6) [OF T] by simp
  moreover have "finished s' = finished s" "taken s' = taken s" using assms(2,3) by (auto simp: client1_step_def step1_Next)
  ultimately show ?thesis by simp
qed

theorem pool1_wait_finishes_taken_witness:
  "\<exists>s s'. reachable1 1 s \<and> client1_step Go1 s = Next s' \<and> taken s' = [(5, 6)] \<and> mset (finished s') = mset (taken s')"
proof -
  obtain s where s: "reachable1 1 s" "client s = C_WaitTest False" "taken s = [(5, 6)]" "tp_mutex (tp s) = Some Client1" "\<not> wait_holds (tp s)"
    using reachable1_schedule [OF _ _ waited_schedule] by (auto simp: queue_event_def)
  then obtain s' where s': "client1_step Go1 s = Next s'" "client s' = C_Idle" "taken s' = taken s"
    by (simp add: client1_step_def unlock_tp_def wait_holds_def)
  then show ?thesis using pool1_wait_finishes_taken [OF s(1,2) s'(1,2)] s(1,3) by metis
qed

text \<open>But it does not wait for the tasks that are still in the list: it can return with a task added and
  none executed, since its condition does not look at \<open>task_list\<close>.\<close>

theorem pool1_wait_returns_early:
  "\<exists>s s'. reachable1 1 s \<and> client s = C_WaitTest False \<and> client1_step Go1 s = Next s' \<and> client s' = C_Idle \<and>
    given s' = [(5, 6)] \<and> finished s' = []"
proof -
  obtain s where "reachable1 1 s" "client s = C_WaitTest False" "given s = [(5, 6)]" "finished s = []"
    "tp_mutex (tp s) = Some Client1" "\<not> wait_holds (tp s)"
    using reachable1_schedule [OF _ _ early_wait_schedule] by (auto simp: queue_event_def)
  moreover from this obtain s' where "client1_step Go1 s = Next s'" "client s' = C_Idle" "given s' = given s" "finished s' = finished s"
    by (simp add: client1_step_def unlock_tp_def wait_holds_def)
  ultimately show ?thesis by metis
qed

end
