(* ===== verification/Pool_Clients.thy ===== *)
theory Pool_Clients
  imports Thread_Pool1 Thread_Pool2
begin

text \<open>
  The programs that use the thread pools: \<^verbatim>\<open>src/thread_pool02/example.c\<close> and \<^verbatim>\<open>src/thread_pool01/pool_test.c\<close>. Each is a client program whose
  calls are the client steps of its pool, interleaved with the workers. The number of threads and of n_tasks are arguments (8 and 80
  in \<^verbatim>\<open>example.c\<close>, from the command line in \<^verbatim>\<open>pool_test.c\<close>).
\<close>

section \<open>thread\_pool02/example.c\<close>

datatype ex_pc = E_Add nat | E_Wait | E_Destroy | E_Finish

text \<open>The function \<open>Task\<close> is number 0; its argument is \<open>i\<close>. A call in progress goes on; behind it the program makes the next one.\<close>

definition example_step :: "nat \<Rightarrow> choice \<Rightarrow> ex_pc \<times> pool_state \<Rightarrow> (ex_pc \<times> pool_state) outcome" where
  "example_step n_tasks ch = (\<lambda>(pc, s).
     if main_pc s \<noteq> M_Idle \<and> main_pc s \<noteq> M_Done then and_then (main_step ch s) (Pair pc)
     else case pc of
       E_Add i \<Rightarrow>
         if i < n_tasks
         then (case ch of
                 Add mem func arg \<Rightarrow>
                   if func = 0 \<and> arg = i then and_then (main_step ch s) (Pair (E_Add (i + 1))) else Blocked
               | _ \<Rightarrow> Blocked)
         else and_then (main_step Wait_Call s) (Pair E_Wait)
     | E_Wait \<Rightarrow> and_then (main_step Destroy_Call s) (Pair E_Destroy)
     | E_Destroy \<Rightarrow> Next (E_Finish, s)
     | E_Finish \<Rightarrow> Blocked)"

inductive example_reach :: "bool \<Rightarrow> nat \<Rightarrow> nat \<Rightarrow> ex_pc \<Rightarrow> pool_state \<Rightarrow> bool" for memory threads_n n_tasks where
  ex_create: "ThreadPoolCreate threads_n raw raw_queue raw_sem True Map.empty = Some s \<Longrightarrow> example_reach memory threads_n n_tasks (E_Add 0) s"
| ex_worker: "example_reach memory threads_n n_tasks pc s \<Longrightarrow> t < threads_n \<Longrightarrow> worker_step t s = Next s' \<Longrightarrow>
    example_reach memory threads_n n_tasks pc s'"
| ex_client: "example_reach memory threads_n n_tasks pc s \<Longrightarrow> \<forall>f a. memory \<longrightarrow> ch \<noteq> Add None f a \<Longrightarrow>
    example_step n_tasks ch (pc, s) = Next (pc', s') \<Longrightarrow> example_reach memory threads_n n_tasks pc' s'"
| ex_stray: "example_reach memory threads_n n_tasks pc s \<Longrightarrow> example_reach memory threads_n n_tasks pc (stray_wakeup w s)"

section \<open>thread\_pool01/pool\_test.c\<close>

datatype pt_pc = T_Add nat | T_Wait | T_Destroy | T_Finish

text \<open>\<open>main\<close> up to the loop; the argument is the value of \<^verbatim>\<open>atoi\<close>, if there is one. \<open>Next None\<close> is an early return. A negative number of
  threads becomes a huge \<^verbatim>\<open>size_t\<close>; the number of tasks must fit an \<^verbatim>\<open>int\<close>.\<close>

definition pool_test_main :: "int option \<Rightarrow> ThreadPool1 option \<Rightarrow> (pt_pc \<times> pool1_state) option outcome" where
  "pool_test_main arg raw =
     (case arg of
        None \<Rightarrow> Next None
      | Some n \<Rightarrow>
        (case ThreadPoolCreate1 (of_int n) raw of
           None \<Rightarrow> Next None
         | Some s \<Rightarrow> if - (2 ^ 31) \<le> n * 10000 \<and> n * 10000 < 2 ^ 31 then Next (Some (T_Add 0, s)) else Fault))"

definition pool_test_tasks :: "int \<Rightarrow> nat" where
  "pool_test_tasks n = nat (n * 10000)"

definition pool_test_step :: "nat \<Rightarrow> choice1 \<Rightarrow> pt_pc \<times> pool1_state \<Rightarrow> (pt_pc \<times> pool1_state) outcome" where
  "pool_test_step tasks_n ch = (\<lambda>(pc, s).
     if client s \<noteq> C_Idle \<and> client s \<noteq> C_Done then and_then (client1_step ch s) (Pair pc)
     else case pc of
       T_Add i \<Rightarrow>
         if i < tasks_n
         then (case ch of
                 Add1 mem func arg \<Rightarrow>
                   if func = 0 \<and> arg = 0 then and_then (client1_step ch s) (Pair (T_Add (i + 1))) else Blocked
               | _ \<Rightarrow> Blocked)
         else and_then (client1_step Wait1 s) (Pair T_Wait)
     | T_Wait \<Rightarrow> and_then (client1_step Destroy1 s) (Pair T_Destroy)
     | T_Destroy \<Rightarrow> Next (T_Finish, s)
     | T_Finish \<Rightarrow> Blocked)"

inductive pool_test_reach :: "int \<Rightarrow> pt_pc \<Rightarrow> pool1_state \<Rightarrow> bool" for n where
  pt_start: "pool_test_main (Some n) raw = Next (Some (pc, s)) \<Longrightarrow> pool_test_reach n pc s"
| pt_worker: "pool_test_reach n pc s \<Longrightarrow> t < unat (of_int n :: u64) \<Longrightarrow> worker1_step t s = Next s' \<Longrightarrow> pool_test_reach n pc s'"
| pt_client: "pool_test_reach n pc s \<Longrightarrow> pool_test_step (pool_test_tasks n) ch (pc, s) = Next (pc', s') \<Longrightarrow> pool_test_reach n pc' s'"

text \<open>The counter that the tasks increment under their own mutex.\<close>

definition pt_count :: "pool1_state \<Rightarrow> nat" where
  "pt_count s = length (finished s)"

section \<open>example.c runs every task once\<close>

definition all_tasks :: "nat \<Rightarrow> (nat \<times> nat) list" where
  "all_tasks k = map (Pair 0) [0..<k]"

text \<open>The program's progress: how far it has added, and that everything is executed once the wait is over.\<close>

fun ex_inv :: "nat \<Rightarrow> ex_pc \<Rightarrow> pool_state \<Rightarrow> bool" where
  "ex_inv n_tasks (E_Add i) s \<longleftrightarrow> i \<le> n_tasks \<and> (in_create (main_pc s) \<or> main_pc s = M_Idle) \<and> added s = all_tasks i"
| "ex_inv n_tasks E_Wait s \<longleftrightarrow> \<not> in_create (main_pc s) \<and> \<not> in_destroy (main_pc s) \<and> added s = all_tasks n_tasks \<and>
     (main_pc s = M_Idle \<longrightarrow> mset (executed s) = mset (added s))"
| "ex_inv n_tasks _ s \<longleftrightarrow> in_destroy (main_pc s) \<and> added s = all_tasks n_tasks \<and> mset (executed s) = mset (added s)"

lemma worker_executes:
  assumes "worker_step t s = Next s'"
  shows "executed s' = executed s \<or> (\<exists>x. executed s' = executed s @ [x])"
  using assms by (cases "workers s ! t") (auto simp: worker_step_def step_Next split: if_splits prod.splits)

lemma worker_keeps_all_done:
  assumes "reachable n s" and "t < n" and "worker_step t s = Next s'" and "mset (executed s) = mset (added s)"
  shows "mset (executed s') = mset (added s')"
proof -
  note f = worker_step_frame [OF assms(3)]
  have "pool_inv n s'" using reachable_pool_inv [OF reachable.worker [OF assms(1-3)]] .
  then obtain as where "jobs_inv s' as" using f(2,6) unfolding pool_inv_def by blast
  then have "mset (executed s') \<subseteq># mset (added s)" using f(3) unfolding jobs_inv_def by simp
  then have "length (executed s') \<le> length (executed s)" using assms(4) size_mset_mono size_mset by metis
  then show ?thesis using worker_executes [OF assms(3)] assms(4) f(3) by auto
qed

lemma main_step_executed:
  assumes "main_step ch s = Next s'"
  shows "executed s' = executed s" and "\<forall>mem f a. ch \<noteq> Add mem f a \<Longrightarrow> added s' = added s"
  using assms
  by (auto simp: main_step.simps add_step_def step_Next split: mpc.splits choice.splits if_splits prod.splits)

lemma add_step_added:
  assumes "main_step (Add (Some x) f a) s = Next s'" and "main_pc s = M_Idle"
  shows "main_pc s' = M_Idle" and "added s' = added s @ [(f, a)]"
  using assms
  by (auto simp: main_step.simps add_step_def step_Next ThreadPoolAddTask_def bind_eq_Some_conv
      split: if_splits prod.splits option.splits)

text \<open>A step inside a library call: the program's position does not move, and the call's own position moves within it.\<close>

lemma call_step_pc:
  assumes "main_step ch s = Next s'" and "main_pc s \<noteq> M_Idle" and "main_pc s \<noteq> M_Done"
  shows "in_create (main_pc s) \<Longrightarrow> in_create (main_pc s') \<or> main_pc s' = M_Idle"
    and "in_destroy (main_pc s) \<Longrightarrow> in_destroy (main_pc s')"
    and "\<not> in_create (main_pc s) \<Longrightarrow> \<not> in_destroy (main_pc s) \<Longrightarrow> \<not> in_create (main_pc s') \<and> \<not> in_destroy (main_pc s') \<and>
      (main_pc s' = M_Idle \<longrightarrow> main_pc s = M_WaitWork \<and> ch = Go)"
    and "executed s' = executed s" and "added s' = added s"
proof -
  show "in_create (main_pc s) \<Longrightarrow> in_create (main_pc s') \<or> main_pc s' = M_Idle"
    "in_destroy (main_pc s) \<Longrightarrow> in_destroy (main_pc s')"
    "\<not> in_create (main_pc s) \<Longrightarrow> \<not> in_destroy (main_pc s) \<Longrightarrow> \<not> in_create (main_pc s') \<and> \<not> in_destroy (main_pc s') \<and>
      (main_pc s' = M_Idle \<longrightarrow> main_pc s = M_WaitWork \<and> ch = Go)"
    using assms by (auto simp: main_step.simps step_Next split: mpc.splits choice.splits if_splits)
  have "\<forall>mem f a. ch \<noteq> Add mem f a" using assms by (auto simp: main_step.simps split: mpc.splits)
  then show "executed s' = executed s" "added s' = added s" using main_step_executed [OF assms(1)] by auto
qed

lemma example_call_inv:
  assumes "reachable n s" and "ex_inv k pc s" and "main_step ch s = Next s'" and "main_pc s \<noteq> M_Idle" and "main_pc s \<noteq> M_Done"
  shows "ex_inv k pc s'"
proof (cases pc)
  case E_Wait
  then show ?thesis using assms(2,3) call_step_pc(3-5) [OF assms(3-5)] wait_done [OF assms(1), of s'] by auto
qed (use assms(2,4,5) call_step_pc [OF assms(3-5)] in auto)

text \<open>The steps between the calls: the next task of the loop, and the call that follows the loop.\<close>

lemma example_add_inv:
  assumes "reachable n s" and "ex_inv k (E_Add i) s" and "\<forall>f a. ch \<noteq> Add None f a"
    and "example_step k ch (E_Add i, s) = Next (pc', s')" and "main_pc s = M_Idle"
  shows "reachable n s' \<and> ex_inv k pc' s'"
proof (cases "i < k")
  case True
  then obtain mem where c: "ch = Add mem 0 i" "main_step ch s = Next s'" "pc' = E_Add (i + 1)"
    using assms(4,5) by (auto simp: example_step_def and_then_Next split: choice.splits if_splits)
  then obtain x where "mem = Some x" using assms(3) by (cases mem) auto
  then have "main_pc s' = M_Idle" "added s' = added s @ [(0, i)]" using add_step_added [of x 0 i s s'] c assms(5) by auto
  then show ?thesis using assms(2) True c reachable.client [OF assms(1) c(2)] by (simp add: all_tasks_def)
next
  case False
  then have c: "main_step Wait_Call s = Next s'" "pc' = E_Wait"
    using assms(4,5) by (auto simp: example_step_def and_then_Next)
  then have "main_pc s' = M_WaitLock" "added s' = added s" using assms(5) by (auto simp: main_step.simps)
  then show ?thesis using assms(2) False c reachable.client [OF assms(1) c(1)] by (simp add: le_antisym)
qed

lemma example_client_inv:
  assumes "reachable n s" and "ex_inv k pc s" and "\<forall>f a. ch \<noteq> Add None f a" and "example_step k ch (pc, s) = Next (pc', s')"
  shows "reachable n s' \<and> ex_inv k pc' s'"
proof (cases "main_pc s \<noteq> M_Idle \<and> main_pc s \<noteq> M_Done")
  case True
  then have m: "main_step ch s = Next s'" "pc' = pc" using assms(4) by (auto simp: example_step_def and_then_Next)
  then show ?thesis using reachable.client [OF assms(1) m(1)] example_call_inv [OF assms(1,2) m(1)] True by simp
next
  case False
  show ?thesis
  proof (cases pc)
    case (E_Add i)
    then have "main_pc s = M_Idle" using False assms(2) by (auto elim: in_create.elims)
    then show ?thesis using example_add_inv [OF assms(1) _ assms(3)] assms(2,4) E_Add by blast
  next
    case E_Wait
    then have idle: "main_pc s = M_Idle" using False assms(2) by auto
    then have c: "main_step Destroy_Call s = Next s'" "pc' = E_Destroy" using assms(4) E_Wait by (auto simp: example_step_def and_then_Next)
    then have "main_pc s' = M_DestroyLoop" "added s' = added s" "executed s' = executed s" using idle by (auto simp: main_step.simps)
    then show ?thesis using assms(2) E_Wait c idle reachable.client [OF assms(1) c(1)] by simp
  next
    case E_Destroy
    then have "pc' = E_Finish" "s' = s" using assms(4) False by (auto simp: example_step_def)
    then show ?thesis using assms(1,2) E_Destroy by simp
  next
    case E_Finish
    then show ?thesis using assms(4) False by (auto simp: example_step_def)
  qed
qed

lemma example_worker_inv:
  assumes "reachable n s" and "ex_inv k pc s" and "t < n" and "worker_step t s = Next s'"
  shows "ex_inv k pc s'"
  using assms(2) worker_step_frame [OF assms(4)] worker_keeps_all_done [OF assms(1,3,4)] by (cases pc) auto

lemma example_reach_inv: "example_reach True n k pc s \<Longrightarrow> reachable n s \<and> ex_inv k pc s"
proof (induction rule: example_reach.induct)
  case (ex_create raw raw_queue raw_sem s)
  then show ?case using reachable.create [of n raw raw_queue raw_sem s]
    by (auto simp: ThreadPoolCreate_def all_tasks_def bind_eq_Some_conv split: if_splits)
next
  case (ex_worker pc s t s')
  then show ?case using reachable.worker example_worker_inv by blast
next
  case (ex_client pc s ch pc' s')
  then show ?case using example_client_inv by blast
next
  case (ex_stray pc s w)
  then show ?case using reachable.stray [of n s w] by (cases pc) auto
qed

text \<open>C21. The example program of the second pool: whatever the number of threads and of tasks (8 and 80 in the program) and however the workers and
  the client interleave, if no allocation fails, then when the program prints its last line every task has been
  executed, and executed exactly once.\<close>

theorem example_executes_all:
  assumes "example_reach True n k E_Finish s"
  shows "mset (executed s) = mset (map (Pair 0) [0..<k])"
  using example_reach_inv [OF assms] by (simp add: all_tasks_def)

fun run_example :: "nat \<Rightarrow> event list \<Rightarrow> ex_pc \<times> pool_state \<Rightarrow> (ex_pc \<times> pool_state) option" where
  "run_example k [] st = Some st"
| "run_example k (By_Worker t # es) (pc, s) = (case worker_step t s of Next s' \<Rightarrow> run_example k es (pc, s') | _ \<Rightarrow> None)"
| "run_example k (By_Client ch # es) st = (case example_step k ch st of Next st' \<Rightarrow> run_example k es st' | _ \<Rightarrow> None)"

lemma example_run:
  "example_reach True n k (fst st) (snd st) \<Longrightarrow> list_all (event_ok n) es \<Longrightarrow> \<forall>f a. By_Client (Add None f a) \<notin> set es \<Longrightarrow>
   run_example k es st = Some st' \<Longrightarrow> example_reach True n k (fst st') (snd st')"
proof (induction k es st rule: run_example.induct)
  case (2 k t es pc s)
  then show ?case by (auto intro: example_reach.intros split: outcome.splits)
next
  case (3 k ch es st)
  then obtain st1 where st1: "example_step k ch st = Next st1" "run_example k es st1 = Some st'" by (auto split: outcome.splits)
  have "\<forall>f a. True \<longrightarrow> ch \<noteq> Add None f a" using 3 by auto
  then have "example_reach True n k (fst st1) (snd st1)"
    using ex_client [OF "3.prems"(1), of ch "fst st1" "snd st1"] st1(1) by simp
  then show ?case using 3 st1 by auto
qed simp

definition example_events :: "event list" where
  "example_events = up_events @ By_Client (Add (Some (7, \<lparr>j_next = Ref 3, j_func = 9, j_arg = 9\<rparr>)) 0 0) # replicate 9 (By_Worker 0) @
     replicate 5 (By_Client Go) @ [By_Worker 0, By_Worker 0] @ replicate 3 (By_Client Go)"

lemma example_schedule:
  "case run_example 1 example_events (E_Add 0, pool_start 1) of None \<Rightarrow> False | Some (pc, s) \<Rightarrow> pc = E_Finish"
  by code_simp

theorem example_executes_all_witness: "\<exists>s. example_reach True 1 1 E_Finish s \<and> executed s = [(0, 0)]"
proof -
  have "example_reach True 1 1 (E_Add 0) (pool_start 1)"
    by (rule ex_create [of _ "Some pool_zero" "Some queue_zero" "Some sem_zero"])
       (simp add: pool_start_def ThreadPoolCreate_def JobQueueCreate_def BinarySemaphoreCreate_def)
  moreover obtain s where "run_example 1 example_events (E_Add 0, pool_start 1) = Some (E_Finish, s)"
    using example_schedule by (auto split: option.splits prod.splits)
  moreover have "list_all (event_ok 1) example_events" "\<forall>f a. By_Client (Add None f a) \<notin> set example_events"
    by (auto simp: example_events_def up_events_def list_all_iff)
  ultimately have "example_reach True 1 1 E_Finish s" using example_run [of 1 1 "(E_Add 0, pool_start 1)" example_events] by auto
  then show ?thesis using example_executes_all [of 1 1 s] by auto
qed

section \<open>pool\_test.c can count nothing\<close>

text \<open>The client adds tasks while the worker has entered its loop but not yet taken the mutex.\<close>

definition adding :: "nat \<Rightarrow> addr list \<Rightarrow> pool1_state \<Rightarrow> bool" where
  "adding i as s \<longleftrightarrow>
     threads s = [V_Lock] \<and> client s = C_Idle \<and> \<not> released s \<and> finished s = [] \<and> length (given s) = i \<and>
     tp_mutex (tp s) = None \<and> tp_working_count (tp s) = 0 \<and> tp_thread_count (tp s) = 1 \<and> tp_running (tp s) \<and>
     chain t_next (tasks s) (tp_task_list (tp s)) as \<and> distinct as \<and> (\<forall>a \<ge> i. tasks s a = None)"

lemma adding_one:
  assumes "adding i as s" and "i < k"
  shows "\<exists>ch s'. pool_test_step k ch (T_Add i, s) = Next (T_Add (i + 1), s') \<and> adding (i + 1) (as @ [i]) s'"
proof -
  let ?raw = "\<lparr>t_func = 0, t_arg = 0, t_next = Null\<rparr>"
  obtain p h where a: "ThreadPoolAddTask1 (Some (i, ?raw)) 0 0 (tp_task_list (tp s), tasks s) = Some (True, p, h)"
    "chain t_next h p (as @ [i])" "i \<notin> set as" "\<forall>b. b \<noteq> i \<longrightarrow> h b = tasks s b \<or> (\<exists>t n. b \<in> set as \<and> tasks s b = Some t \<and> h b = Some (t\<lparr>t_next := n\<rparr>))"
    using add_task_chain [of "tasks s" "tp_task_list (tp s)" as i ?raw 0 0] assms(1) by (auto simp: adding_def)
  let ?s = "set_tp (\<lambda>p'. p'\<lparr>tp_task_list := p\<rparr>) (s\<lparr>tasks := h, given := given s @ [(0, 0)]\<rparr>)"
  have "pool_test_step k (Add1 (Some (i, ?raw)) 0 0) (T_Add i, s) = Next (T_Add (i + 1), ?s)"
    using assms a(1) by (simp add: adding_def pool_test_step_def client1_step_def add1_step_def malloc1_ok_def)
  moreover have "h b = None" if b: "b \<ge> i + 1" for b
  proof -
    have "tasks s b = None" "b \<noteq> i" using b assms(1) by (simp_all add: adding_def)
    then show ?thesis using a(4) by auto
  qed
  then have "adding (i + 1) (as @ [i]) ?s" using assms(1) a(2,3) by (simp add: adding_def)
  ultimately show ?thesis by blast
qed

lemma adding_all: "i \<le> pool_test_tasks 1 \<Longrightarrow> \<exists>as s. pool_test_reach 1 (T_Add i) s \<and> adding i as s"
proof (induction i)
  case 0
  let ?s = "pool1_start 1"
  have "pool_test_main (Some 1) (Some raw_pool1) = Next (Some (T_Add 0, ?s))"
    by (simp add: pool_test_main_def pool1_start_def ThreadPoolCreate1_def)
  then have "pool_test_reach 1 (T_Add 0) ?s" by (rule pt_start)
  moreover have s: "threads ?s = [V_Loop]" "client ?s = C_Idle" "\<not> released ?s" "finished ?s = []" "given ?s = []" "tasks ?s = Map.empty"
    "tp ?s = raw_pool1\<lparr>tp_task_list := Null, tp_mutex := None, tp_working_count := 0, tp_thread_count := 1, tp_running := True\<rparr>"
    by (simp_all add: pool1_start_def ThreadPoolCreate1_def)
  moreover have "worker1_step 0 ?s = Next (jump 0 V_Lock ?s)" using s by (simp add: worker1_step_def)
  ultimately have "pool_test_reach 1 (T_Add 0) (jump 0 V_Lock ?s)" using pt_worker [of 1 "T_Add 0" ?s 0] by simp
  moreover have "adding 0 [] (jump 0 V_Lock ?s)" using s by (simp add: adding_def)
  ultimately show ?case by blast
next
  case (Suc i)
  then obtain as s where s: "pool_test_reach 1 (T_Add i) s" "adding i as s" by auto
  obtain ch s' where "pool_test_step (pool_test_tasks 1) ch (T_Add i, s) = Next (T_Add (i + 1), s')" "adding (i + 1) (as @ [i]) s'"
    using adding_one [OF s(2), of "pool_test_tasks 1"] Suc.prems by auto
  then show ?case using pt_client [OF s(1)] by (metis Suc_eq_plus1)
qed

text \<open>From there to the end: the wait returns at once, the list is freed, and only then the worker goes on, finds the pool no longer running and leaves.\<close>

fun run_pool_test :: "nat \<Rightarrow> event1 list \<Rightarrow> pt_pc \<times> pool1_state \<Rightarrow> (pt_pc \<times> pool1_state) option" where
  "run_pool_test k [] st = Some st"
| "run_pool_test k (Worker_Event t # es) (pc, s) = (case worker1_step t s of Next s' \<Rightarrow> run_pool_test k es (pc, s') | _ \<Rightarrow> None)"
| "run_pool_test k (Client_Event ch # es) st = (case pool_test_step k ch st of Next st' \<Rightarrow> run_pool_test k es st' | _ \<Rightarrow> None)"

lemma pool_test_run:
  "pool_test_reach n (fst st) (snd st) \<Longrightarrow> list_all (event1_ok (of_int n)) es \<Longrightarrow> run_pool_test (pool_test_tasks n) es st = Some st' \<Longrightarrow>
   pool_test_reach n (fst st') (snd st')"
proof (induction "pool_test_tasks n" es st rule: run_pool_test.induct)
  case (2 t es pc s)
  then show ?case by (auto intro: pool_test_reach.intros split: outcome.splits)
next
  case (3 ch es st)
  then obtain st1 where st1: "pool_test_step (pool_test_tasks n) ch st = Next st1" "run_pool_test (pool_test_tasks n) es st1 = Some st'"
    by (auto split: outcome.splits)
  have "pool_test_reach n (fst st1) (snd st1)" using pt_client [OF "3.prems"(1), of ch "fst st1" "snd st1"] st1(1) by simp
  then show ?case using 3 st1 by auto
qed simp

definition leave_events :: "event1 list" where
  "leave_events = replicate 4 (Client_Event Go1) @ replicate 5 (Worker_Event 0) @ replicate 4 (Client_Event Go1)"

lemma leave_run:
  assumes "adding k as s"
  shows "\<exists>s'. run_pool_test k leave_events (T_Add k, s) = Some (T_Finish, s') \<and> finished s' = [] \<and> length (given s') = k"
proof -
  have "free_tasks (tp_task_list (tp s)) (tasks s) = Some (tasks s |` (- set as))"
    using free_tasks_chain assms by (auto simp: adding_def)
  then show ?thesis using assms
    by (simp add: adding_def leave_events_def pool_test_step_def client1_step_def worker1_step_def lock_tp_def unlock_tp_def
        wait_holds_def numeral_eq_Suc)
qed

text \<open>C36. The test program of the first pool can report that nothing was done: with one thread there is a run in which all its
  10000 tasks are added, none is executed, and it ends by printing a count of 0. The wait returns at once because no
  worker has taken a task yet, and the destruction frees the list.\<close>

theorem pool_test_can_count_zero:
  "\<exists>s. pool_test_reach 1 T_Finish s \<and> length (given s) = 10000 \<and> pt_count s = 0"
proof -
  obtain as s where s: "pool_test_reach 1 (T_Add (pool_test_tasks 1)) s" "adding (pool_test_tasks 1) as s" using adding_all by blast
  obtain s' where s': "run_pool_test (pool_test_tasks 1) leave_events (T_Add (pool_test_tasks 1), s) = Some (T_Finish, s')"
    "finished s' = []" "length (given s') = pool_test_tasks 1" using leave_run [OF s(2)] by blast
  have "list_all (event1_ok (of_int 1)) leave_events" by (simp add: leave_events_def list_all_iff)
  then have "pool_test_reach 1 T_Finish s'"
    using pool_test_run [of 1 "(T_Add (pool_test_tasks 1), s)" leave_events "(T_Finish, s')"] s(1) s'(1) by simp
  then show ?thesis using s'(2,3) by (auto simp: pt_count_def pool_test_tasks_def)
qed

end
