(* ===== verification/Cat_Wc.thy ===== *)
theory Cat_Wc
  imports Posix_Io
begin

text \<open>
  The \<^verbatim>\<open>cat\<close> and \<^verbatim>\<open>wc\<close> programs of \<^verbatim>\<open>src/futuu_no_linux_programming/section05\<close> and
  \<^verbatim>\<open>section06\<close>: \<^verbatim>\<open>cat.c\<close> and \<^verbatim>\<open>wc.c\<close> on file descriptors, \<^verbatim>\<open>cat2.c\<close>, \<^verbatim>\<open>cat3.c\<close>,
  \<^verbatim>\<open>cat4.c\<close> and \<^verbatim>\<open>wc2.c\<close> on \<^verbatim>\<open>stdio\<close>. The functions named \<^verbatim>\<open>do_cat\<close> and \<^verbatim>\<open>main\<close> in
  several files carry the program's name.
\<close>

section \<open>cat.c\<close>

text \<open>The output and the number of \<^verbatim>\<open>write\<close> calls made. The k-th call's answer is \<open>W k\<close>: \<open>None\<close> is -1,
  \<open>Some m\<close> that at most \<open>m\<close> bytes were accepted.\<close>

record cat_io =
  written :: "byte list"
  calls :: nat

type_synonym write_answers = "nat \<Rightarrow> nat option"

fun do_cat :: "write_answers \<Rightarrow> rd list \<Rightarrow> cat_io \<Rightarrow> cat_io run" where
  "do_cat W [] s = Hang s"
| "do_cat W (Err intr # rs) s = (if intr then do_cat W rs s else Exit 1 s)"
| "do_cat W (Eof # rs) s = Continue s"
| "do_cat W (Got buf # rs) s =
     (case W (calls s) of
        None \<Rightarrow> Exit 1 (s\<lparr>calls := calls s + 1\<rparr>)
      | Some m \<Rightarrow> do_cat W rs (s\<lparr>written := written s @ take m buf, calls := calls s + 1\<rparr>))"

definition cat_file :: "write_answers \<Rightarrow> (file_name \<Rightarrow> rd list option) \<Rightarrow> (file_name \<Rightarrow> bool) \<Rightarrow> file_name \<Rightarrow> cat_io \<Rightarrow> cat_io run" where
  "cat_file W opens closes name s =
     (case opens name of None \<Rightarrow> Exit 1 s
      | Some rs \<Rightarrow> and_run (do_cat W rs s) (\<lambda>s. if closes name then Continue s else Exit 1 s))"

definition cat_main ::
    "write_answers \<Rightarrow> (file_name \<Rightarrow> rd list option) \<Rightarrow> (file_name \<Rightarrow> bool) \<Rightarrow> rd list \<Rightarrow> file_name list \<Rightarrow> cat_io run" where
  "cat_main W opens closes stdin args =
     (let s = \<lparr>written = [], calls = 0\<rparr> in
      and_run
        (if args = [] then do_cat W stdin s else each_file (cat_file W opens closes) args s)
        return_0)"

section \<open>wc.c\<close>

fun count_newlines :: "byte list \<Rightarrow> u64 \<Rightarrow> u64" where
  "count_newlines [] lines = lines"
| "count_newlines (b # bs) lines = count_newlines bs (if b = newline then lines + 1 else lines)"

fun do_wc :: "rd list \<Rightarrow> u64 \<Rightarrow> u64 run" where
  "do_wc [] lines = Hang lines"
| "do_wc (Err intr # rs) lines = do_wc rs lines"
| "do_wc (Eof # rs) lines = Continue lines"
| "do_wc (Got buffer # rs) lines = do_wc rs (count_newlines buffer lines)"

record wc_io =
  printed :: "byte list"
  total :: u64

definition wc_file :: "(file_name \<Rightarrow> rd list option) \<Rightarrow> file_name \<Rightarrow> wc_io \<Rightarrow> wc_io run" where
  "wc_file opens name s =
     (case opens name of None \<Rightarrow> Exit 1 s
      | Some rs \<Rightarrow> run_bind (do_wc rs 0)
          (\<lambda>lines. Continue (s\<lparr>printed := printed s @ padded 5 (unat lines) @ [32] @ name @ [newline], total := total s + lines\<rparr>))
          (\<lambda>_. s))"

definition wc_main :: "(file_name \<Rightarrow> rd list option) \<Rightarrow> rd list \<Rightarrow> file_name list \<Rightarrow> wc_io run" where
  "wc_main opens stdin args =
     (let s = \<lparr>printed = [], total = 0\<rparr> in
      if args = []
      then run_bind (do_wc stdin 0) (\<lambda>lines. return_0 (s\<lparr>printed := decimal (unat lines) @ [newline]\<rparr>)) (\<lambda>_. s)
      else and_run (each_file (wc_file opens) args s)
        (\<lambda>s. return_0 (s\<lparr>printed := printed s @ padded 5 (unat (total s)) @ bytes '' total'' @ [newline]\<rparr>)))"

section \<open>cat2.c and cat3.c\<close>

text \<open>The \<^verbatim>\<open>fgetc\<close> loops: \<open>EOF\<close> is the end of the data, with or without an error.\<close>

fun do_cat2 :: "byte list \<Rightarrow> byte list \<Rightarrow> byte list" where
  "do_cat2 [] out = out"
| "do_cat2 (c # cs) out = do_cat2 cs (out @ [c])"

fun do_cat3 :: "byte list \<Rightarrow> byte list \<Rightarrow> byte list" where
  "do_cat3 [] out = out"
| "do_cat3 (c # cs) out =
     do_cat3 cs (if c = 9 then out @ [92] @ [116]
                 else if c = newline then out @ [36] @ [newline]
                 else out @ [c])"

definition stdio_file :: "file_system \<Rightarrow> (byte list \<Rightarrow> byte list \<Rightarrow> byte list) \<Rightarrow> file_name \<Rightarrow> byte list \<Rightarrow> byte list run" where
  "stdio_file fs do_file name out =
     (case fs name of None \<Rightarrow> Exit 1 out | Some fp \<Rightarrow> Continue (do_file (f_data fp) out))"

definition cat2_main :: "file_system \<Rightarrow> FILE \<Rightarrow> file_name list \<Rightarrow> byte list run" where
  "cat2_main fs stdin args =
     and_run (if args = [] then Continue (do_cat2 (f_data stdin) []) else each_file (stdio_file fs do_cat2) args []) return_0"

definition cat3_main :: "file_system \<Rightarrow> FILE \<Rightarrow> file_name list \<Rightarrow> byte list run" where
  "cat3_main fs stdin args =
     and_run (if args = [] then Continue (do_cat3 (f_data stdin) []) else each_file (stdio_file fs do_cat3) args []) return_0"

section \<open>cat4.c\<close>

text \<open>The \<^verbatim>\<open>fread\<close> loop. A full block does not set the end-of-file flag; a shorter one does, or the error
  flag. \<^verbatim>\<open>fwrite\<close> returns the number of bytes it was given.\<close>

function do_cat4 :: "byte list \<Rightarrow> bool \<Rightarrow> byte list \<Rightarrow> byte list run" where
  "do_cat4 rest err out =
     (let n = min 1024 (length rest) in
      if n < 1024 \<and> err then Exit 1 out
      else if n = 0 then Exit 1 out
      else if n < 1024 then Continue (out @ take n rest)
      else do_cat4 (drop 1024 rest) err (out @ take n rest))"
  by pat_completeness auto
termination
  by (relation "measure (\<lambda>(rest, err, out). length rest)") auto

declare do_cat4.simps [simp del]

definition cat4_file :: "file_system \<Rightarrow> file_name \<Rightarrow> byte list \<Rightarrow> byte list run" where
  "cat4_file fs name out =
     (case fs name of None \<Rightarrow> Exit 1 out | Some fp \<Rightarrow> do_cat4 (f_data fp) (f_error fp) out)"

definition cat4_main :: "file_system \<Rightarrow> file_name list \<Rightarrow> byte list run" where
  "cat4_main fs args = and_run (each_file (cat4_file fs) args []) return_0"

section \<open>wc2.c\<close>

text \<open>\<open>lines\<close> is an \<^verbatim>\<open>int\<close>: counting past \<^verbatim>\<open>INT_MAX\<close> is undefined.\<close>

fun wc2_count :: "byte list \<Rightarrow> int \<Rightarrow> int option" where
  "wc2_count [] lines = Some lines"
| "wc2_count (c # cs) lines =
     (if c = newline then (if lines < 0x7fffffff then wc2_count cs (lines + 1) else None) else wc2_count cs lines)"

definition wc2_file :: "file_system \<Rightarrow> file_name \<Rightarrow> byte list \<Rightarrow> byte list run" where
  "wc2_file fs name out =
     (case fs name of None \<Rightarrow> Exit 1 out
      | Some fp \<Rightarrow> (case wc2_count (f_data fp) 0 of None \<Rightarrow> Crash
          | Some lines \<Rightarrow> Continue (out @ padded 5 (nat lines) @ [32] @ name @ [newline])))"

definition wc2_main :: "file_system \<Rightarrow> file_name list \<Rightarrow> byte list run" where
  "wc2_main fs args = (if args = [] then Exit 1 [] else and_run (each_file (wc2_file fs) args []) return_0)"

section \<open>The loops\<close>

fun readable :: "rd list \<Rightarrow> bool" where
  "readable [] = False"
| "readable (Got bs # rs) = readable rs"
| "readable (Eof # rs) = True"
| "readable (Err intr # rs) = (intr \<and> readable rs)"

fun chunks :: "rd list \<Rightarrow> byte list list" where
  "chunks [] = []"
| "chunks (Got bs # rs) = bs # chunks rs"
| "chunks (Eof # rs) = []"
| "chunks (Err intr # rs) = chunks rs"

lemma concat_chunks [simp]: "concat (chunks rs) = data_of rs"
  by (induction rs rule: chunks.induct) auto

text \<open>What the \<^verbatim>\<open>write\<close> calls from the \<open>k\<close>-th on let through of the blocks, and whether they are all accepted.\<close>

fun let_through :: "write_answers \<Rightarrow> nat \<Rightarrow> byte list list \<Rightarrow> byte list" where
  "let_through W k [] = []"
| "let_through W k (c # cs) = take (the (W k)) c @ let_through W (Suc k) cs"

fun accepted :: "write_answers \<Rightarrow> nat \<Rightarrow> byte list list \<Rightarrow> bool" where
  "accepted W k [] = True"
| "accepted W k (c # cs) = (W k \<noteq> None \<and> accepted W (Suc k) cs)"

lemma let_through_append: "let_through W k (cs @ ds) = let_through W k cs @ let_through W (k + length cs) ds"
  by (induction cs arbitrary: k) simp_all

lemma accepted_append: "accepted W k (cs @ ds) \<longleftrightarrow> accepted W k cs \<and> accepted W (k + length cs) ds"
  by (induction cs arbitrary: k) simp_all

lemma accepted_iff: "accepted W k cs \<longleftrightarrow> (\<forall>j < length cs. W (k + j) \<noteq> None)"
  by (induction cs arbitrary: k) (simp_all add: All_less_Suc2 del: not_None_eq)

lemma let_through_all: "\<forall>j < length cs. length (cs ! j) \<le> the (W (k + j)) \<Longrightarrow> let_through W k cs = concat cs"
  by (induction cs arbitrary: k) (simp_all add: All_less_Suc2)

lemma do_cat_status: "do_cat W rs s \<noteq> Exit 0 s'"
  by (induction W rs s rule: do_cat.induct) (auto split: option.splits)

lemma do_cat_Continue:
  "do_cat W rs s = Continue s' \<longleftrightarrow> readable rs \<and> accepted W (calls s) (chunks rs) \<and>
    s' = \<lparr>written = written s @ let_through W (calls s) (chunks rs), calls = calls s + length (chunks rs)\<rparr>"
  by (induction W rs s rule: do_cat.induct) (auto split: option.splits)

lemma count_newlines_eq: "count_newlines bs lines = lines + of_nat (count_list bs newline)"
  by (induction bs arbitrary: lines) auto

lemma do_wc_eq:
  "do_wc rs lines = (if Eof \<in> set rs then Continue else Hang) (lines + of_nat (count_list (data_of rs) newline))"
  by (induction rs arbitrary: lines rule: data_of.induct) (auto simp: count_newlines_eq)

lemma do_cat2_eq [simp]: "do_cat2 cs out = out @ cs"
  by (induction cs arbitrary: out) auto

definition visible :: "byte \<Rightarrow> byte list" where
  "visible c = (if c = 9 then [92, 116] else if c = newline then [36, newline] else [c])"

lemma do_cat3_eq [simp]: "do_cat3 cs out = out @ concat (map visible cs)"
  by (induction cs arbitrary: out) (auto simp: visible_def)

lemma do_cat4_eq:
  "do_cat4 rest err out =
    (if err \<or> length rest mod 1024 = 0 then Exit 1 (out @ take (length rest - length rest mod 1024) rest) else Continue (out @ rest))"
proof (induction rest err out rule: do_cat4.induct)
  case (1 rest err out)
  show ?case
  proof (cases "length rest < 1024")
    case True
    then show ?thesis by (subst do_cat4.simps) (auto simp: Let_def)
  next
    case False
    have len: "length (drop 1024 rest) mod 1024 = length rest mod 1024" using False by (simp add: le_mod_geq)
    have "take (length rest - length rest mod 1024) rest =
        take 1024 rest @ take (length (drop 1024 rest) - length rest mod 1024) (drop 1024 rest)"
    proof -
      have "1024 + (length rest - 1024 - length rest mod 1024) = length rest - length rest mod 1024"
        using False mod_less_eq_dividend [of "length rest - 1024" 1024] len by simp
      then show ?thesis by (metis length_drop take_add)
    qed
    then show ?thesis using 1 [of "min 1024 (length rest)"] False len
      by (subst do_cat4.simps) (simp add: Let_def)
  qed
qed

lemma wc2_count_eq:
  "0 \<le> lines \<Longrightarrow> lines \<le> 0x7fffffff \<Longrightarrow> wc2_count cs lines =
    (if lines + int (count_list cs newline) \<le> 0x7fffffff then Some (lines + int (count_list cs newline)) else None)"
  by (induction cs arbitrary: lines) auto

section \<open>The programs as file filters\<close>

interpretation cat2: file_filter "stdio_file fs do_cat2" "\<lambda>x. fs x \<noteq> None" "\<lambda>x. f_data (the (fs x))" for fs
  by unfold_locales (auto simp: stdio_file_def)

interpretation cat3: file_filter "stdio_file fs do_cat3" "\<lambda>x. fs x \<noteq> None" "\<lambda>x. concat (map visible (f_data (the (fs x))))" for fs
  by unfold_locales (auto simp: stdio_file_def)

definition cat4_good :: "file_system \<Rightarrow> file_name \<Rightarrow> bool" where
  "cat4_good fs x = (case fs x of None \<Rightarrow> False | Some fp \<Rightarrow> \<not> f_error fp \<and> length (f_data fp) mod 1024 \<noteq> 0)"

interpretation cat4: file_filter "cat4_file fs" "cat4_good fs" "\<lambda>x. f_data (the (fs x))" for fs
  by unfold_locales (auto simp: cat4_file_def cat4_good_def do_cat4_eq split: option.splits if_splits)

definition wc2_good :: "file_system \<Rightarrow> file_name \<Rightarrow> bool" where
  "wc2_good fs x = (case fs x of None \<Rightarrow> False | Some fp \<Rightarrow> count_list (f_data fp) newline \<le> 0x7fffffff)"

definition count_line :: "byte list \<Rightarrow> file_name \<Rightarrow> byte list" where
  "count_line bs name = padded 5 (count_list bs newline) @ [32] @ name @ [newline]"

interpretation wc2: file_filter "wc2_file fs" "wc2_good fs" "\<lambda>x. count_line (f_data (the (fs x))) x" for fs
  by unfold_locales (auto simp: wc2_file_def wc2_good_def wc2_count_eq count_line_def split: option.splits if_splits)

section \<open>Properties\<close>

text \<open>The files of the command line, one after the other.\<close>

abbreviation blocks :: "(file_name \<Rightarrow> rd list option) \<Rightarrow> file_name list \<Rightarrow> byte list list" where
  "blocks opens args \<equiv> concat (map (\<lambda>x. chunks (the (opens x))) args)"

lemma and_run_iff: "and_run r f = Continue s' \<longleftrightarrow> (\<exists>s. r = Continue s \<and> f s = Continue s')"
  by (cases r) auto

lemma cat_file_Continue:
  "cat_file W opens closes x s = Continue s' \<longleftrightarrow> (\<exists>rs. opens x = Some rs \<and> readable rs) \<and> closes x \<and> accepted W (calls s) (chunks (the (opens x))) \<and>
    s' = \<lparr>written = written s @ let_through W (calls s) (chunks (the (opens x))), calls = calls s + length (chunks (the (opens x)))\<rparr>"
  by (auto simp: cat_file_def and_run_iff do_cat_Continue split: option.splits if_splits)

lemma cat_files_Continue:
  "each_file (cat_file W opens closes) args s = Continue s' \<longleftrightarrow>
    (\<forall>x \<in> set args. (\<exists>rs. opens x = Some rs \<and> readable rs) \<and> closes x) \<and> accepted W (calls s) (blocks opens args) \<and>
    s' = \<lparr>written = written s @ let_through W (calls s) (blocks opens args), calls = calls s + length (blocks opens args)\<rparr>"
  by (induction args arbitrary: s) (auto simp: and_run_iff cat_file_Continue let_through_append accepted_append add.assoc)

lemma cat_files_status: "each_file (cat_file W opens closes) args s \<noteq> Exit 0 s'"
proof (induction args arbitrary: s)
  case (Cons x args)
  have "cat_file W opens closes x s \<noteq> Exit 0 s'"
    using do_cat_status [of W] by (cases "opens x"; cases "do_cat W (the (opens x)) s") (auto simp: cat_file_def)
  then show ?case using Cons by (cases "cat_file W opens closes x s") auto
qed simp

text \<open>The blocks that are read, and their contents.\<close>

definition cat_blocks :: "(file_name \<Rightarrow> rd list option) \<Rightarrow> rd list \<Rightarrow> file_name list \<Rightarrow> byte list list" where
  "cat_blocks opens stdin args = (if args = [] then chunks stdin else blocks opens args)"

definition cat_data :: "(file_name \<Rightarrow> rd list option) \<Rightarrow> rd list \<Rightarrow> file_name list \<Rightarrow> byte list" where
  "cat_data opens stdin args = (if args = [] then data_of stdin else concat (map (\<lambda>x. data_of (the (opens x))) args))"

lemma concat_cat_blocks: "concat (cat_blocks opens stdin args) = cat_data opens stdin args"
proof -
  have "concat (blocks opens args) = concat (map (\<lambda>x. data_of (the (opens x))) args)" by (induction args) simp_all
  then show ?thesis by (simp add: cat_blocks_def cat_data_def)
qed

lemma cat_main_success:
  "cat_main W opens closes stdin args = Exit 0 s \<longleftrightarrow>
    (if args = [] then readable stdin else \<forall>x \<in> set args. (\<exists>rs. opens x = Some rs \<and> readable rs) \<and> closes x) \<and>
    accepted W 0 (cat_blocks opens stdin args) \<and>
    s = \<lparr>written = let_through W 0 (cat_blocks opens stdin args), calls = length (cat_blocks opens stdin args)\<rparr>"
proof -
  let ?s = "\<lparr>written = [], calls = 0\<rparr>"
  have "cat_main W opens closes stdin args =
      and_run (if args = [] then do_cat W stdin ?s else each_file (cat_file W opens closes) args ?s) return_0"
    by (simp add: cat_main_def Let_def)
  moreover have "and_run r return_0 = Exit 0 s \<longleftrightarrow> r = Continue s" if "r \<noteq> Exit 0 s" for r :: "cat_io run"
    using that by (cases r) (auto simp: return_0_def)
  ultimately show ?thesis using do_cat_status cat_files_status by (simp add: do_cat_Continue cat_files_Continue cat_blocks_def)
qed

text \<open>C31. When \<^verbatim>\<open>cat\<close> succeeds and what it prints, for any answers of the system. It exits with 0 exactly if the standard input, without
  arguments, is read to its end without an error other than \<open>EINTR\<close>, or every file of the command line opens, is so read and closes, and no
  \<^verbatim>\<open>write\<close> fails; it has then made one \<^verbatim>\<open>write\<close> for each block read, and its output is what they let through, in the order of the files.
  So if every \<^verbatim>\<open>write\<close> accepts its whole block the output is the contents of the input, however the reads were split; a
  shorter \<^verbatim>\<open>write\<close> loses the rest of its block, and the program still exits with 0.\<close>

theorem cat_main_output:
  "(cat_main W opens closes stdin args = Exit 0 s \<longleftrightarrow>
     (if args = [] then readable stdin else \<forall>x \<in> set args. (\<exists>rs. opens x = Some rs \<and> readable rs) \<and> closes x) \<and>
     (\<forall>k < length (cat_blocks opens stdin args). W k \<noteq> None) \<and>
     s = \<lparr>written = let_through W 0 (cat_blocks opens stdin args), calls = length (cat_blocks opens stdin args)\<rparr>) \<and>
   ((\<forall>k < length (cat_blocks opens stdin args). length (cat_blocks opens stdin args ! k) \<le> the (W k)) \<longrightarrow>
     let_through W 0 (cat_blocks opens stdin args) = cat_data opens stdin args)"
  using cat_main_success [of W opens closes stdin args s] accepted_iff [of W 0 "cat_blocks opens stdin args"]
    let_through_all [of "cat_blocks opens stdin args" W 0] concat_cat_blocks [of opens stdin args] by simp

theorem cat_main_output_witness:
  "cat_main (\<lambda>_. Some 4096) (\<lambda>_. Some [Got [1, 2], Err True, Got [3], Eof]) (\<lambda>_. True) [] [[97], [98]] =
    Exit 0 \<lparr>written = [1, 2, 3, 1, 2, 3], calls = 4\<rparr> \<and>
   let_through (\<lambda>_. Some 4096) 0 [[1, 2], [3], [1, 2], [3]] = [1, 2, 3, 1, 2, 3]"
  using cat_main_output [of "\<lambda>_. Some 4096" "\<lambda>_. Some [Got [1, 2], Err True, Got [3], Eof]" "\<lambda>_. True" "[]" "[[97], [98]]"
      "\<lparr>written = [1, 2, 3, 1, 2, 3], calls = 4\<rparr>"] by (simp add: cat_blocks_def cat_data_def)

text \<open>\<^verbatim>\<open>wc\<close> counts newlines independently of how the input was split into reads and of the errors in
  between; it ends exactly if some read reports end of file, since it retries after every error, and an error
  that persists keeps it in its loop.\<close>

theorem wc_counts_newlines:
  "do_wc rs 0 = (if Eof \<in> set rs then Continue (of_nat (count_list (data_of rs) newline))
                 else Hang (of_nat (count_list (data_of rs) newline)))"
  by (simp add: do_wc_eq)

text \<open>C32. The two \<^verbatim>\<open>wc\<close> programs agree: on files that both can open and read to their end, with fewer than
  \<open>2 ^ 31\<close> newlines each, \<^verbatim>\<open>wc\<close> prints what \<^verbatim>\<open>wc2\<close> prints, and then the total.\<close>

theorem wc_agrees_with_wc2:
  assumes "args \<noteq> []"
    and "\<forall>x \<in> set args. \<exists>rs fp. opens x = Some rs \<and> fs x = Some fp \<and> Eof \<in> set rs \<and> data_of rs = f_data fp \<and>
      count_list (f_data fp) newline \<le> 0x7fffffff"
  shows "\<exists>out s. wc2_main fs args = Exit 0 out \<and> wc_main opens stdin args = Exit 0 s \<and>
    printed s = out @ padded 5 (unat (total s)) @ bytes '' total'' @ [newline] \<and>
    total s = (\<Sum>x \<leftarrow> args. of_nat (count_list (data_of (the (opens x))) newline))"
proof -
  let ?out = "concat (map (\<lambda>x. count_line (f_data (the (fs x))) x) args)"
  have "list_all (wc2_good fs) args" using assms(2) by (fastforce simp: list_all_iff wc2_good_def)
  then have wc2: "wc2_main fs args = Exit 0 ?out" using wc2.all_good [of fs args "[]"] assms(1) by (simp add: wc2_main_def return_0_def)
  have "each_file (wc_file opens) args s = Continue (s\<lparr>printed := printed s @ ?out,
      total := total s + (\<Sum>x \<leftarrow> args. of_nat (count_list (data_of (the (opens x))) newline))\<rparr>)" for s
    using assms(2)
  proof (induction args arbitrary: s)
    case (Cons x xs)
    then obtain rs fp where x: "opens x = Some rs" "fs x = Some fp" "Eof \<in> set rs" "data_of rs = f_data fp"
      "count_list (f_data fp) newline \<le> 0x7fffffff" by auto
    then have "unat (of_nat (count_list (f_data fp) newline) :: u64) = count_list (f_data fp) newline" by (simp add: unat_of_nat)
    then have "wc_file opens x s = Continue (s\<lparr>printed := printed s @ count_line (f_data fp) x,
        total := total s + of_nat (count_list (f_data fp) newline)\<rparr>)"
      using x by (simp add: wc_file_def do_wc_eq count_line_def)
    then show ?case using Cons x(1,2,4) by (simp add: add.assoc)
  qed simp
  then show ?thesis using wc2 assms(1) by (simp add: wc_main_def return_0_def)
qed

theorem wc_agrees_with_wc2_witness:
  "\<exists>out s. wc2_main (\<lambda>_. Some \<lparr>f_data = [97, 10, 98, 10], f_error = False\<rparr>) [[120]] = Exit 0 out \<and>
    wc_main (\<lambda>_. Some [Got [97, 10], Err False, Got [98, 10], Eof]) [] [[120]] = Exit 0 s \<and>
    printed s = out @ padded 5 (unat (total s)) @ bytes '' total'' @ [newline] \<and> total s = 2"
  using wc_agrees_with_wc2 [of "[[120]]" "\<lambda>_. Some [Got [97, 10], Err False, Got [98, 10], Eof]"
      "\<lambda>_. Some \<lparr>f_data = [97, 10, 98, 10], f_error = False\<rparr>" "[]"]
  by simp

text \<open>\<^verbatim>\<open>cat4\<close> succeeds exactly if every file opens, is read without error, and has a length that is not a
  multiple of 1024: after a last full block, and for an empty file, it calls \<^verbatim>\<open>fwrite\<close> with no bytes and takes
  the 0 it returns for an error. When it succeeds it has copied the files.\<close>

theorem cat4_status:
  "cat4_main fs args = Exit 0 out \<longleftrightarrow>
    list_all (\<lambda>x. case fs x of None \<Rightarrow> False | Some fp \<Rightarrow> \<not> f_error fp \<and> length (f_data fp) mod 1024 \<noteq> 0) args \<and>
    out = concat (map (\<lambda>x. f_data (the (fs x))) args)"
  using cat4.status [of fs args "[]" out] by (simp add: cat4_main_def cat4_good_def [abs_def])

text \<open>\<^verbatim>\<open>cat2\<close> and \<^verbatim>\<open>cat3\<close> succeed exactly if every file opens; \<^verbatim>\<open>cat2\<close> has then copied the files, and
  \<^verbatim>\<open>cat3\<close> has copied them with each tab shown as a backslash and a t and each newline preceded by a dollar.\<close>

theorem cat2_cat3_output:
  assumes "args \<noteq> []"
  shows "cat2_main fs stdin args = Exit 0 out2 \<and> cat3_main fs stdin args = Exit 0 out3 \<longleftrightarrow>
    list_all (\<lambda>x. fs x \<noteq> None) args \<and> out2 = concat (map (\<lambda>x. f_data (the (fs x))) args) \<and>
    out3 = concat (map visible out2)"
proof -
  have "concat (map visible (concat (map g xs))) = concat (map (\<lambda>x. concat (map visible (g x))) xs)" for g :: "file_name \<Rightarrow> byte list" and xs
    by (induction xs) simp_all
  then show ?thesis using assms cat2.status [of fs args "[]" out2] cat3.status [of fs args "[]" out3]
    by (auto simp: cat2_main_def cat3_main_def)
qed

theorem cat2_cat3_output_witness:
  "cat2_main (\<lambda>_. Some \<lparr>f_data = [9, 97, 10], f_error = False\<rparr>) \<lparr>f_data = [], f_error = False\<rparr> [[120]] = Exit 0 [9, 97, 10] \<and>
   cat3_main (\<lambda>_. Some \<lparr>f_data = [9, 97, 10], f_error = False\<rparr>) \<lparr>f_data = [], f_error = False\<rparr> [[120]] = Exit 0 [92, 116, 97, 36, 10]"
  using cat2_cat3_output [of "[[120]]" "\<lambda>_. Some \<lparr>f_data = [9, 97, 10], f_error = False\<rparr>" "\<lparr>f_data = [], f_error = False\<rparr>"
      "[9, 97, 10]" "[92, 116, 97, 36, 10]"]
  by (simp add: visible_def)

end
