(* ===== verification/Head_Tail.thy ===== *)
theory Head_Tail
  imports Posix_Io
begin

text \<open>
  \<^verbatim>\<open>src/futuu_no_linux_programming/section07\<close>: the three \<^verbatim>\<open>head\<close> programs, which share \<^verbatim>\<open>do_head\<close>
  and differ in their command lines, and \<^verbatim>\<open>tail1.c\<close> with its ring of ten line buffers.
\<close>

section \<open>head1.c, head2.c, head3.c\<close>

text \<open>\<open>do_head\<close> on the bytes \<^verbatim>\<open>getc\<close> delivers; \<open>lines\<close> is a \<^verbatim>\<open>long\<close>.\<close>

fun head_loop :: "byte list \<Rightarrow> int \<Rightarrow> byte list \<Rightarrow> byte list" where
  "head_loop [] lines out = out"
| "head_loop (c # cs) lines out =
     (if c = newline
      then (if lines - 1 = 0 then out @ [c] else head_loop cs (lines - 1) (out @ [c]))
      else head_loop cs lines (out @ [c]))"

definition do_head :: "byte list \<Rightarrow> int \<Rightarrow> byte list \<Rightarrow> byte list" where
  "do_head data lines out = (if lines \<le> 0 then out else head_loop data lines out)"

text \<open>\<^verbatim>\<open>atol\<close>: white space, a sign, digits; saturating at the limits of \<^verbatim>\<open>long\<close>.\<close>

definition is_space :: "byte \<Rightarrow> bool" where
  "is_space c \<longleftrightarrow> c = 32 \<or> 9 \<le> c \<and> c \<le> 13"

definition is_digit :: "byte \<Rightarrow> bool" where
  "is_digit c \<longleftrightarrow> 48 \<le> c \<and> c \<le> 57"

fun digits_value :: "byte list \<Rightarrow> int \<Rightarrow> int" where
  "digits_value [] acc = acc"
| "digits_value (c # cs) acc = (if is_digit c then digits_value cs (acc * 10 + int (unat (c - 48))) else acc)"

definition atol :: "byte list \<Rightarrow> int" where
  "atol s =
     (let s = dropWhile is_space s;
          v = (case s of [] \<Rightarrow> 0
               | c # cs \<Rightarrow> if c = 45 then - digits_value cs 0 else if c = 43 then digits_value cs 0 else digits_value s 0)
      in max (- (2 ^ 63)) (min (2 ^ 63 - 1) v))"

definition head1_main :: "byte list \<Rightarrow> byte list list \<Rightarrow> byte list run" where
  "head1_main stdin args =
     (case args of [] \<Rightarrow> Exit 1 [] | n # _ \<Rightarrow> return_0 (do_head stdin (atol n) []))"

definition head_file :: "file_system \<Rightarrow> int \<Rightarrow> file_name \<Rightarrow> byte list \<Rightarrow> byte list run" where
  "head_file fs lines name out =
     (case fs name of None \<Rightarrow> Exit 1 out | Some fp \<Rightarrow> Continue (do_head (f_data fp) lines out))"

definition head2_main :: "file_system \<Rightarrow> byte list \<Rightarrow> byte list list \<Rightarrow> byte list run" where
  "head2_main fs stdin args =
     (case args of [] \<Rightarrow> return_0 (do_head stdin 10 [])
      | n # files \<Rightarrow> and_run (each_file (head_file fs (atol n)) files []) return_0)"

text \<open>The options \<^verbatim>\<open>getopt_long\<close> reports, in order, are an argument, and so are the names that remain after
  them; \<open>usage\<close> is the text the program prints for them.\<close>

datatype head_opt = Opt_Lines "byte list" | Opt_Help | Opt_Unknown

fun head3_options :: "byte list \<Rightarrow> head_opt list \<Rightarrow> int \<Rightarrow> int + byte list run" where
  "head3_options usage [] lines = Inl lines"
| "head3_options usage (Opt_Lines optarg # opts) lines = head3_options usage opts (atol optarg)"
| "head3_options usage (Opt_Help # opts) lines = Inr (Exit 0 usage)"
| "head3_options usage (Opt_Unknown # opts) lines = Inr (Exit 1 usage)"

definition head3_main :: "file_system \<Rightarrow> byte list \<Rightarrow> byte list \<Rightarrow> head_opt list \<Rightarrow> file_name list \<Rightarrow> byte list run" where
  "head3_main fs stdin usage opts files =
     (case head3_options usage opts 10 of
        Inr r \<Rightarrow> r
      | Inl lines \<Rightarrow>
          if files = [] then return_0 (do_head stdin lines [])
          else and_run (each_file (head_file fs lines) files []) return_0)"

section \<open>tail1.c\<close>

text \<open>Ten buffers of 4096 bytes. A byte stored behind the end of a buffer is undefined (\<open>None\<close>), and so is
  counting \<open>line\<close>, an \<^verbatim>\<open>int\<close>, past \<^verbatim>\<open>INT_MAX\<close>.\<close>

record tail_state =
  slots :: "byte list list"
  index :: nat
  pos :: nat
  line :: int

definition store_byte :: "nat \<Rightarrow> nat \<Rightarrow> byte \<Rightarrow> byte list list \<Rightarrow> byte list list option" where
  "store_byte i p c ls = do { buf \<leftarrow> array_get ls i; buf \<leftarrow> array_set buf p c; array_set ls i buf }"

definition tail_step :: "byte \<Rightarrow> tail_state \<Rightarrow> tail_state option" where
  "tail_step c s = do {
     ls \<leftarrow> store_byte (index s) (pos s) c (slots s);
     let s = s\<lparr>slots := ls, pos := pos s + 1\<rparr>;
     if c = newline
     then do {
       s \<leftarrow> (if line s < 0x7fffffff then Some (s\<lparr>line := line s + 1\<rparr>) else None);
       ls \<leftarrow> store_byte (index s) (pos s) 0 (slots s);
       Some (s\<lparr>slots := ls, index := (index s + 1) mod 10, pos := 0\<rparr>)
     }
     else Some s
   }"

fun tail_loop :: "byte list \<Rightarrow> tail_state \<Rightarrow> tail_state option" where
  "tail_loop [] s = do { ls \<leftarrow> store_byte (index s) (pos s) 0 (slots s); Some (s\<lparr>slots := ls\<rparr>) }"
| "tail_loop (c # cs) s = do { s \<leftarrow> tail_step c s; tail_loop cs s }"

text \<open>\<^verbatim>\<open>printf("%s")\<close> of a buffer reads to its first null byte.\<close>

fun print_slots :: "byte list list \<Rightarrow> nat list \<Rightarrow> byte list \<Rightarrow> byte list option" where
  "print_slots ls [] out = Some out"
| "print_slots ls (j # js) out = do {
     buf \<leftarrow> array_get ls j;
     n \<leftarrow> strlen buf;
     print_slots ls js (out @ take n buf)
   }"

definition tail_start :: "tail_state \<Rightarrow> nat" where
  "tail_start s = (if line s < 10 then 0 else index s + 1)"

text \<open>\<open>raw\<close> is what \<^verbatim>\<open>malloc\<close> returned, an empty buffer standing for null; a file that does not open is a null stream.\<close>

definition tail1_main :: "file_system \<Rightarrow> byte list list \<Rightarrow> file_name list \<Rightarrow> byte list run" where
  "tail1_main fs raw args =
     (case args of [] \<Rightarrow> Exit 1 []
      | name # _ \<Rightarrow>
        (case fs name of None \<Rightarrow> Crash
         | Some fp \<Rightarrow>
           (case tail_loop (f_data fp) \<lparr>slots = raw, index = 0, pos = 0, line = 0\<rparr> of None \<Rightarrow> Crash
            | Some s \<Rightarrow>
              (case print_slots (slots s) (map (\<lambda>i. (tail_start s + i) mod 10) [0..<10]) [] of None \<Rightarrow> Crash
               | Some out \<Rightarrow> return_0 out))))"

section \<open>The first lines\<close>

lemma head_loop_no_newline: "newline \<notin> set l \<Longrightarrow> head_loop (l @ cs) n out = head_loop cs n (out @ l)"
  by (induction l arbitrary: out) auto

lemma head_loop_lines: "0 < n \<Longrightarrow> head_loop data n out = out @ concat (take (nat n) (lines_of data))"
proof (induction data arbitrary: n out rule: text_induct)
  case (rest bs)
  then show ?case
    using head_loop_no_newline [of bs "[]" n out]
    by (cases "bs = []") (auto simp: lines_of_last Suc_le_eq nat_eq_iff take_Cons')
next
  case (line l bs)
  obtain k where k: "nat n = Suc k" using line.prems by (metis gr0_implies_Suc zero_less_nat_eq)
  then have "n - 1 = 0 \<longleftrightarrow> k = 0" "nat (n - 1) = k" by auto
  then show ?case using line head_loop_no_newline [of l "newline # bs" n out] k
    by (cases k) auto
qed

text \<open>The reference: the first \<open>n\<close> lines.\<close>

definition first_lines :: "int \<Rightarrow> byte list \<Rightarrow> byte list" where
  "first_lines n data = concat (take (nat n) (lines_of data))"

lemma do_head_eq: "do_head data n out = out @ first_lines n data"
  by (simp add: do_head_def first_lines_def head_loop_lines)

interpretation head: file_filter "head_file fs n" "\<lambda>x. fs x \<noteq> None" "\<lambda>x. first_lines n (f_data (the (fs x)))" for fs n
  by unfold_locales (auto simp: head_file_def do_head_eq)

section \<open>Properties of head\<close>

text \<open>\<^verbatim>\<open>do_head\<close> prints exactly the first \<open>lines\<close> lines of its input, each with its newline, a last line
  without newline included, and nothing if \<open>lines\<close> is not positive.\<close>

theorem do_head_first_lines: "do_head data lines out = out @ concat (take (nat lines) (lines_of data))"
  by (simp add: do_head_eq first_lines_def)

text \<open>C33. \<^verbatim>\<open>head3\<close> with an option for \<open>n\<close> lines behaves as \<^verbatim>\<open>head2\<close> with the argument \<open>n\<close>: on a list of
  files both succeed exactly if all files open, and print the first \<open>n\<close> lines of each; without files \<^verbatim>\<open>head3\<close>
  reads its standard input as \<^verbatim>\<open>head1\<close> does, while \<^verbatim>\<open>head2\<close> prints nothing.\<close>

theorem head_programs_agree:
  "(files \<noteq> [] \<longrightarrow> head3_main fs stdin usage [Opt_Lines n] files = head2_main fs stdin (n # files)) \<and>
   (head2_main fs stdin (n # files) = Exit 0 out \<longleftrightarrow>
      list_all (\<lambda>x. fs x \<noteq> None) files \<and> out = concat (map (\<lambda>x. first_lines (atol n) (f_data (the (fs x)))) files)) \<and>
   head3_main fs stdin usage [Opt_Lines n] [] = head1_main stdin [n] \<and> head2_main fs stdin [n] = Exit 0 []"
  using head.status [of fs "atol n" files "[]" out]
  by (simp add: head3_main_def head2_main_def head1_main_def return_0_def)

theorem head_programs_agree_witness:
  "head3_main (\<lambda>_. Some \<lparr>f_data = [97, 10, 98, 10], f_error = False\<rparr>) [] [] [Opt_Lines [49]] [[120]] =
     head2_main (\<lambda>_. Some \<lparr>f_data = [97, 10, 98, 10], f_error = False\<rparr>) [] ([49] # [[120]])"
  using head_programs_agree [of "[[120]]"] by blast

section \<open>The ring of the last lines\<close>

text \<open>
  The state after the full lines \<open>Ls\<close> and the bytes \<open>p\<close> of the next one: the slots of the last nine full lines
  hold them as C strings, the current slot begins with \<open>p\<close>, and the slots not used yet are as they were.
\<close>

definition tail_inv :: "byte list list \<Rightarrow> byte list list \<Rightarrow> byte list \<Rightarrow> tail_state \<Rightarrow> bool" where
  "tail_inv raw Ls p s \<longleftrightarrow>
     length (slots s) = 10 \<and> (\<forall>i < 10. length (slots s ! i) = 4096) \<and>
     index s = length Ls mod 10 \<and> pos s = length p \<and> line s = int (length Ls) \<and>
     take (length p) (slots s ! index s) = p \<and>
     (\<forall>k < length Ls. length Ls < k + 10 \<longrightarrow> take (length (Ls ! k) + 1) (slots s ! (k mod 10)) = Ls ! k @ [0]) \<and>
     (\<forall>j < 10. length Ls < j \<longrightarrow> slots s ! j = raw ! j)"

lemma store_byte_in:
  "i < length ls \<Longrightarrow> p < length (ls ! i) \<Longrightarrow> store_byte i p c ls = Some (ls[i := (ls ! i)[p := c]])"
  by (simp add: store_byte_def)

lemma take_store: "take n xs = p \<Longrightarrow> length p = n \<Longrightarrow> n < length xs \<Longrightarrow> take (Suc n) (xs[n := c]) = p @ [c]"
  by (simp add: take_Suc_conv_app_nth)

lemma mod_10_neq: "(k :: nat) < L \<Longrightarrow> L < k + 10 \<Longrightarrow> k mod 10 \<noteq> L mod 10"
  by (metis add_diff_cancel_left' le_add_diff_inverse less_imp_le mod_eq_dvd_iff_nat nat_dvd_not_less zero_less_diff
      less_diff_conv2 add.commute)

lemma mod_10_clash:
  "L mod 10 = k mod 10 \<Longrightarrow> k < L \<Longrightarrow> L < k + 10 \<Longrightarrow> False"
  "L mod 10 = k mod 10 \<Longrightarrow> k < L \<Longrightarrow> L < 9 + k \<Longrightarrow> False" for k L :: nat
  using mod_10_neq [of k L] by auto

lemma tail_char:
  assumes I: "tail_inv raw Ls p s" and c: "c \<noteq> newline" and len: "length p < 4096"
  shows "\<exists>s'. tail_step c s = Some s' \<and> tail_inv raw Ls (p @ [c]) s'"
proof -
  let ?i = "length Ls mod 10"
  have S: "length (slots s) = 10" "length (slots s ! ?i) = 4096" "index s = ?i" "pos s = length p"
    using I by (auto simp: tail_inv_def)
  let ?ls = "(slots s)[?i := (slots s ! ?i)[length p := c]]"
  have "tail_step c s = Some (s\<lparr>slots := ?ls, pos := pos s + 1\<rparr>)"
    using S c len by (simp add: tail_step_def store_byte_in)
  moreover have "tail_inv raw Ls (p @ [c]) (s\<lparr>slots := ?ls, pos := pos s + 1\<rparr>)"
    using I S len take_store [of "length p" "slots s ! ?i" p c]
    by (auto simp: tail_inv_def nth_list_update dest: mod_10_clash)
  ultimately show ?thesis by blast
qed

lemma tail_newline:
  assumes I: "tail_inv raw Ls p s" and len: "Suc (length p) < 4096" and ov: "length Ls < 0x7fffffff"
  shows "\<exists>s'. tail_step newline s = Some s' \<and> tail_inv raw (Ls @ [p @ [newline]]) [] s'"
proof -
  let ?L = "length Ls" and ?i = "length Ls mod 10"
  have S: "length (slots s) = 10" "length (slots s ! ?i) = 4096" "index s = ?i" "pos s = length p" "line s = int ?L"
    using I by (auto simp: tail_inv_def)
  let ?b = "(slots s ! ?i)[length p := newline, Suc (length p) := 0]"
  let ?s = "s\<lparr>slots := (slots s)[?i := ?b], index := (?L + 1) mod 10, pos := 0, line := int ?L + 1\<rparr>"
  have "tail_step newline s = Some ?s" using S len ov by (simp add: tail_step_def store_byte_in mod_Suc_eq)
  moreover have "take (Suc (Suc (length p))) ?b = p @ [newline, 0]"
  proof -
    have "take (Suc (length p)) ((slots s ! ?i)[length p := newline]) = p @ [newline]"
      using I S len by (intro take_store) (auto simp: tail_inv_def)
    then show ?thesis using take_store [of "Suc (length p)" "(slots s ! ?i)[length p := newline]" "p @ [newline]" 0] S len by simp
  qed
  then have "tail_inv raw (Ls @ [p @ [newline]]) [] ?s"
    using I S len by (auto simp: tail_inv_def nth_list_update nth_append less_Suc_eq dest: mod_10_clash)
  ultimately show ?thesis by blast
qed

lemma tail_chars:
  "tail_inv raw Ls p s \<Longrightarrow> newline \<notin> set q \<Longrightarrow> length p + length q \<le> 4096 \<Longrightarrow>
   \<exists>s'. tail_loop (q @ cs) s = tail_loop cs s' \<and> tail_inv raw Ls (p @ q) s'"
proof (induction q arbitrary: p s)
  case (Cons c q)
  obtain s1 where "tail_step c s = Some s1" "tail_inv raw Ls (p @ [c]) s1" using tail_char [OF Cons.prems(1), of c] Cons.prems by auto
  then show ?case using Cons.IH [of "p @ [c]" s1] Cons.prems by auto
qed auto

lemma tail_loop_text:
  assumes "tail_inv raw Ls [] s" and "\<forall>l \<in> set (lines_of data). length l < 4096"
    and "length Ls + count_list data newline \<le> 0x7fffffff"
  shows "\<exists>s' Ls' p. tail_loop data s = Some s' \<and> tail_inv raw Ls' p s' \<and> newline \<notin> set p \<and> length p < 4096 \<and>
    take (Suc (length p)) (slots s' ! index s') = p @ [0] \<and>
    Ls' @ (if p = [] then [] else [p]) = Ls @ lines_of data \<and> length Ls' = length Ls + count_list data newline"
  using assms
proof (induction data arbitrary: Ls s rule: text_induct)
  case (rest p)
  then have len: "length p < 4096" by (cases "p = []") (auto simp: lines_of_last)
  then obtain s1 where s1: "tail_loop p s = tail_loop [] s1" "tail_inv raw Ls p s1"
    using tail_chars [OF rest.prems(1), of p "[]"] rest.hyps by auto
  let ?i = "length Ls mod 10"
  have S: "length (slots s1) = 10" "length (slots s1 ! ?i) = 4096" "index s1 = ?i" "pos s1 = length p"
    using s1(2) by (auto simp: tail_inv_def)
  let ?s = "s1\<lparr>slots := (slots s1)[?i := (slots s1 ! ?i)[length p := 0]]\<rparr>"
  have "tail_loop p s = Some ?s" using s1(1) S len by (simp add: store_byte_in)
  moreover have "tail_inv raw Ls p ?s"
    using s1(2) S len by (auto simp: tail_inv_def nth_list_update dest: mod_10_clash)
  moreover have "take (Suc (length p)) (slots ?s ! index ?s) = p @ [0]"
    using s1(2) S len take_store [of "length p" "slots s1 ! ?i" p 0] by (simp add: tail_inv_def)
  moreover have "count_list p newline = 0" using rest.hyps by (simp add: count_list_0_iff)
  ultimately show ?case using rest.hyps len by (intro exI [of _ ?s] exI [of _ Ls] exI [of _ p]) (auto simp: lines_of_last)
next
  case (line l data)
  have len: "Suc (length l) < 4096" using line by simp
  obtain s1 where s1: "tail_loop (l @ newline # data) s = tail_loop (newline # data) s1" "tail_inv raw Ls l s1"
    using tail_chars [OF line.prems(1), of l "newline # data"] line.hyps len by auto
  obtain s2 where s2: "tail_step newline s1 = Some s2" "tail_inv raw (Ls @ [l @ [newline]]) [] s2"
    using tail_newline [OF s1(2) len] line.prems(3) by auto
  have "count_list l newline = 0" using line.hyps by (simp add: count_list_0_iff)
  then show ?case using line.IH [OF s2(2)] line.prems(2,3) line.hyps(1) s1(1) s2(1) by auto
qed

section \<open>What tail prints\<close>

text \<open>The C string in a slot.\<close>

definition slot_text :: "byte list \<Rightarrow> byte list option" where
  "slot_text buf = map_option (\<lambda>n. take n buf) (strlen buf)"

lemma slot_text_prefix:
  assumes "take (Suc (length l)) buf = l @ [0]" and "cstring l"
  shows "slot_text buf = Some l"
proof -
  have "buf = l @ 0 # drop (Suc (length l)) buf" using assms(1) append_take_drop_id [of "Suc (length l)" buf] by simp
  then show ?thesis using assms(2) strlen_cstring by (metis append_eq_conv_conj option.map(2) slot_text_def)
qed

lemma print_slots_map:
  assumes "\<And>i. i < n \<Longrightarrow> g i < length ls \<and> slot_text (ls ! g i) = Some (f i)"
  shows "print_slots ls (map g [0..<n]) [] = Some (concat (map f [0..<n]))"
proof -
  have "print_slots ls (map g is) out = Some (out @ concat (map f is))" if "\<forall>i \<in> set is. i < n" for "is" out
    using that
  proof (induction "is" arbitrary: out)
    case (Cons i "is")
    then obtain m where "strlen (ls ! g i) = Some m" "take m (ls ! g i) = f i" "g i < length ls"
      using assms [of i] by (auto simp: slot_text_def)
    then show ?case using Cons by simp
  qed simp
  then show ?thesis by simp
qed

definition ten_buffers :: "byte list list \<Rightarrow> bool" where
  "ten_buffers raw \<longleftrightarrow> length raw = 10 \<and> list_all (\<lambda>b. length b = 4096) raw"

lemma tail_inv_start: "ten_buffers raw \<Longrightarrow> tail_inv raw [] [] \<lparr>slots = raw, index = 0, pos = 0, line = 0\<rparr>"
  by (auto simp: ten_buffers_def tail_inv_def list_all_length)

text \<open>The slot printed in round \<open>i\<close> and its text.\<close>

lemma tail_texts:
  assumes I: "tail_inv raw Ls p s" and cur: "take (Suc (length p)) (slots s ! index s) = p @ [0]"
    and c: "cstring p" "\<forall>l \<in> set Ls. cstring l"
  shows "slot_text (slots s ! (length Ls mod 10)) = Some p"
    and "k < length Ls \<Longrightarrow> length Ls < k + 10 \<Longrightarrow> slot_text (slots s ! (k mod 10)) = Some (Ls ! k)"
    and "length Ls < j \<Longrightarrow> j < 10 \<Longrightarrow> slot_text (slots s ! j) = slot_text (raw ! j)"
proof -
  show "slot_text (slots s ! (length Ls mod 10)) = Some p"
    using slot_text_prefix [OF cur c(1)] I by (simp add: tail_inv_def)
  show "slot_text (slots s ! (k mod 10)) = Some (Ls ! k)" if "k < length Ls" "length Ls < k + 10"
    using I c(2) that by (intro slot_text_prefix) (auto simp: tail_inv_def)
  show "slot_text (slots s ! j) = slot_text (raw ! j)" if "length Ls < j" "j < 10" using I that by (simp add: tail_inv_def)
qed

lemma tail_run:
  assumes "ten_buffers raw" and "cstring data" and "\<forall>l \<in> set (lines_of data). length l < 4096"
    and "count_list data newline \<le> 0x7fffffff"
  obtains s Ls p where "tail_loop data \<lparr>slots = raw, index = 0, pos = 0, line = 0\<rparr> = Some s" "tail_inv raw Ls p s"
    "take (Suc (length p)) (slots s ! index s) = p @ [0]" "Ls @ (if p = [] then [] else [p]) = lines_of data"
    "length Ls = count_list data newline" "cstring p" "\<forall>l \<in> set Ls. cstring l" "length (slots s) = 10"
proof -
  obtain s Ls p where *: "tail_loop data \<lparr>slots = raw, index = 0, pos = 0, line = 0\<rparr> = Some s" "tail_inv raw Ls p s"
    "take (Suc (length p)) (slots s ! index s) = p @ [0]" "Ls @ (if p = [] then [] else [p]) = lines_of data"
    "length Ls = count_list data newline"
    using tail_loop_text [OF tail_inv_start [OF assms(1)] assms(3)] assms(4) by auto
  have "concat (Ls @ (if p = [] then [] else [p])) = data" using *(4) by simp
  then have "set data = set (concat Ls) \<union> set p" by (auto split: if_splits)
  then have "cstring p" "\<forall>l \<in> set Ls. cstring l" using assms(2) by (auto simp: cstring_def)
  then show ?thesis using that [OF *] *(2) by (simp add: tail_inv_def)
qed

section \<open>Properties of tail\<close>

text \<open>C34. On a file that can be opened, without null bytes, with at least nine newlines (and at most \<^verbatim>\<open>INT_MAX\<close>) and no line of 4096 or
  more bytes, its newline included, \<^verbatim>\<open>tail1\<close> stores nothing
  behind its buffers and prints the last nine full lines and what follows them: of a file that ends with a
  newline it prints nine lines, not ten.\<close>

theorem tail1_prints_last_nine:
  assumes "fs name = Some fp" and "ten_buffers raw" and "cstring (f_data fp)"
    and "\<forall>l \<in> set (lines_of (f_data fp)). length l < 4096" and "9 \<le> count_list (f_data fp) newline"
    and "count_list (f_data fp) newline \<le> 0x7fffffff"
  shows "tail1_main fs raw (name # r) =
    Exit 0 (concat (drop (count_list (f_data fp) newline - 9) (lines_of (f_data fp))))"
proof -
  let ?L = "count_list (f_data fp) newline"
  obtain s Ls p where S: "tail_loop (f_data fp) \<lparr>slots = raw, index = 0, pos = 0, line = 0\<rparr> = Some s" "tail_inv raw Ls p s"
    "take (Suc (length p)) (slots s ! index s) = p @ [0]" "Ls @ (if p = [] then [] else [p]) = lines_of (f_data fp)"
    "length Ls = ?L" "cstring p" "\<forall>l \<in> set Ls. cstring l" "length (slots s) = 10"
    using tail_run [OF assms(2-4,6)] .
  note T = tail_texts [OF S(2,3,6,7)]
  have start: "(tail_start s + i) mod 10 = (?L + 1 + i) mod 10" for i
  proof -
    have "tail_start s mod 10 = (?L + 1) mod 10"
      using S(2,5) assms(5) by (auto simp: tail_start_def tail_inv_def mod_Suc_eq dest: le_antisym [of 9])
    then show ?thesis by (metis mod_add_left_eq)
  qed
  have "slot_text (slots s ! ((tail_start s + i) mod 10)) = Some (if i < 9 then Ls ! (?L - 9 + i) else p)" if i: "i < 10" for i
  proof (cases "i < 9")
    case True
    have "?L + 1 + i = (?L - 9 + i) + 10" using assms(5) by simp
    then have "(tail_start s + i) mod 10 = (?L - 9 + i) mod 10" using start by (metis mod_add_self2)
    then show ?thesis using T(2) [of "?L - 9 + i"] True S(5) assms(5) by simp
  next
    case False
    then have "?L + 1 + i = ?L + 10" using i by simp
    then have "(tail_start s + i) mod 10 = ?L mod 10" using start [of i] by (metis mod_add_self2)
    then show ?thesis using T(1) False S(5) by simp
  qed
  then have "print_slots (slots s) (map (\<lambda>i. (tail_start s + i) mod 10) [0..<10]) [] =
      Some (concat (map (\<lambda>i. if i < 9 then Ls ! (?L - 9 + i) else p) [0..<10]))"
    using S(8) by (intro print_slots_map) simp
  moreover have "map (\<lambda>i. if i < 9 then Ls ! (?L - 9 + i) else p) [0..<10] = drop (?L - 9) Ls @ [p]"
    using S(5) assms(5) by (intro nth_equalityI) (auto simp: nth_append)
  moreover have "concat (drop (?L - 9) Ls @ [p]) = concat (drop (?L - 9) (lines_of (f_data fp)))"
    using S(4,5) by (auto simp flip: S(4))
  ultimately show ?thesis using S(1) assms(1) by (simp add: tail1_main_def return_0_def)
qed

text \<open>Eleven empty lines, and zeroed buffers.\<close>

lemma zero_buffers: "ten_buffers (replicate 10 (replicate 4096 0))"
  by (simp add: ten_buffers_def list_all_length)

theorem tail1_prints_last_nine_witness:
  "tail1_main (\<lambda>_. Some \<lparr>f_data = [10, 10, 10, 10, 10, 10, 10, 10, 10, 10, 10], f_error = False\<rparr>)
     (replicate 10 (replicate 4096 0)) [[97]] = Exit 0 [10, 10, 10, 10, 10, 10, 10, 10, 10]"
  using tail1_prints_last_nine [of "\<lambda>_. Some \<lparr>f_data = [10, 10, 10, 10, 10, 10, 10, 10, 10, 10, 10], f_error = False\<rparr>" "[97]"
      "\<lparr>f_data = [10, 10, 10, 10, 10, 10, 10, 10, 10, 10, 10], f_error = False\<rparr>" "replicate 10 (replicate 4096 0)" "[]"] zero_buffers
  by (simp add: cstring_def)

text \<open>On a file with fewer than nine newlines \<^verbatim>\<open>tail1\<close> prints the file and then whatever its unused
  buffers happen to contain: they are printed without ever having been written.\<close>

theorem tail1_prints_uninitialised:
  assumes "fs name = Some fp" and "ten_buffers raw" and "cstring (f_data fp)"
    and "\<forall>l \<in> set (lines_of (f_data fp)). length l < 4096" and "count_list (f_data fp) newline < 9"
    and "\<forall>j. count_list (f_data fp) newline < j \<and> j < 10 \<longrightarrow> slot_text (raw ! j) = Some (g j)"
  shows "tail1_main fs raw (name # r) = Exit 0 (f_data fp @ concat (map g [count_list (f_data fp) newline + 1..<10]))"
proof -
  let ?L = "count_list (f_data fp) newline"
  obtain s Ls p where S: "tail_loop (f_data fp) \<lparr>slots = raw, index = 0, pos = 0, line = 0\<rparr> = Some s" "tail_inv raw Ls p s"
    "take (Suc (length p)) (slots s ! index s) = p @ [0]" "Ls @ (if p = [] then [] else [p]) = lines_of (f_data fp)"
    "length Ls = ?L" "cstring p" "\<forall>l \<in> set Ls. cstring l" "length (slots s) = 10"
    using tail_run [OF assms(2-4)] assms(5) by auto
  note T = tail_texts [OF S(2,3,6,7)]
  have start: "tail_start s = 0" using S(2,5) assms(5) by (simp add: tail_start_def tail_inv_def)
  let ?f = "\<lambda>i. if i < ?L then Ls ! i else if i = ?L then p else g i"
  have "slot_text (slots s ! i) = Some (?f i)" if i: "i < 10" for i
    using T(1) T(2) [of i] T(3) [of i] i S(5) assms(5,6) by auto
  then have "print_slots (slots s) (map (\<lambda>i. (tail_start s + i) mod 10) [0..<10]) [] = Some (concat (map ?f [0..<10]))"
    using S(8) start by (intro print_slots_map) simp
  moreover have "map ?f [0..<10] = Ls @ p # map g [?L + 1..<10]"
    using S(5) assms(5) by (intro nth_equalityI) (auto simp: nth_append nth_Cons')
  moreover have "concat Ls @ p = f_data fp" using arg_cong [OF S(4), of concat] by (simp split: if_splits)
  ultimately show ?thesis using S(1) assms(1) by (simp add: tail1_main_def return_0_def)
qed

theorem tail1_prints_uninitialised_witness:
  "tail1_main (\<lambda>_. Some \<lparr>f_data = [97, 10], f_error = False\<rparr>) (replicate 10 (replicate 2 33 @ replicate 4094 0)) [[97]] =
    Exit 0 ([97, 10] @ concat (replicate 8 [33, 33]))"
proof -
  let ?fs = "\<lambda>_. Some \<lparr>f_data = [97, 10], f_error = False\<rparr>" and ?buf = "replicate 2 33 @ replicate 4094 (0 :: byte)"
  have "slot_text ?buf = Some [33, 33]" by (intro slot_text_prefix) (simp_all add: cstring_def)
  moreover have "ten_buffers (replicate 10 ?buf)" by (simp add: ten_buffers_def list_all_length)
  ultimately show ?thesis
    using tail1_prints_uninitialised [of ?fs "[97]" "\<lparr>f_data = [97, 10], f_error = False\<rparr>" "replicate 10 ?buf" "\<lambda>_. [33, 33]" "[]"]
    by (simp add: cstring_def map_replicate_const)
qed

end
