(* ===== verification/Shell.thy ===== *)
theory Shell
  imports Posix_Io
begin

text \<open>
  \<^verbatim>\<open>src/simple_shell01/shell.c\<close>: reading a line into a growing buffer, cutting it into words in place with
  \<^verbatim>\<open>strtok\<close>, the builtins \<open>cd\<close> and \<open>exit\<close>, starting a program, and the loop of \<open>main\<close>.

  The answers of the system are a \<open>world\<close>: the contents of fresh memory (or a failed allocation), what
  \<^verbatim>\<open>fork\<close>, \<^verbatim>\<open>waitpid\<close> and \<^verbatim>\<open>chdir\<close> answer after a given history, and the environment. The state is the
  input \<^verbatim>\<open>getchar\<close> still delivers and the history of what the shell did. The words of a line are offsets
  into its buffer, as the pointers \<^verbatim>\<open>strtok\<close> returns are; a null pointer is \<open>None\<close>.
\<close>

section \<open>State\<close>

datatype event = Prompt | Spawn "byte list list" | Chdir "byte list option" | Perror string

record shell =
  input :: "byte list"
  history :: "event list"

text \<open>\<^verbatim>\<open>fork\<close> fails, or the parent gets a child whose changes of state \<^verbatim>\<open>waitpid\<close> reports in order: a status
  word, or \<open>None\<close> for a failed call; when the list is used up, \<^verbatim>\<open>waitpid\<close> blocks.\<close>

datatype fork_answer = Fork_Failed | Child "u32 option list"

record world =
  fresh_bytes :: "nat \<Rightarrow> byte list option"
  fresh_ptrs :: "nat \<Rightarrow> nat option list option"
  fork_of :: "event list \<Rightarrow> fork_answer"
  chdir_ok :: "event list \<Rightarrow> bool"
  home :: "byte list option"
  raw_status :: u32

datatype 'a res = Value 'a shell | Stop nat shell | Waiting shell | Undef

fun bind_res :: "'a res \<Rightarrow> ('a \<Rightarrow> shell \<Rightarrow> 'b res) \<Rightarrow> 'b res" where
  "bind_res (Value x s) f = f x s"
| "bind_res (Stop n s) f = Stop n s"
| "bind_res (Waiting s) f = Waiting s"
| "bind_res Undef f = Undef"

definition defined :: "'a option \<Rightarrow> ('a \<Rightarrow> 'b res) \<Rightarrow> 'b res" where
  "defined x f = (case x of None \<Rightarrow> Undef | Some y \<Rightarrow> f y)"

lemma defined_simps [simp]: "defined None f = Undef" "defined (Some x) f = f x"
  by (simp_all add: defined_def)

definition event :: "event \<Rightarrow> shell \<Rightarrow> shell" where
  "event e s = s\<lparr>history := history s @ [e]\<rparr>"

text \<open>\<^verbatim>\<open>perror(...); exit(1)\<close>.\<close>

definition die :: "string \<Rightarrow> shell \<Rightarrow> 'a res" where
  "die what s = Stop 1 (event (Perror what) s)"

text \<open>\<^verbatim>\<open>realloc\<close> keeps the old contents.\<close>

definition realloc :: "(nat \<Rightarrow> 'a list option) \<Rightarrow> 'a list \<Rightarrow> nat \<Rightarrow> 'a list option" where
  "realloc fresh old n = map_option (\<lambda>raw. take n old @ drop (length old) raw) (fresh n)"

section \<open>Reading a line\<close>

fun read_loop :: "world \<Rightarrow> byte list \<Rightarrow> byte list \<Rightarrow> nat \<Rightarrow> nat \<Rightarrow> shell \<Rightarrow> byte list res" where
  "read_loop w [] buffer buf_size pos s = defined (array_set buffer pos 0) (\<lambda>buffer. Value buffer (s\<lparr>input := []\<rparr>))"
| "read_loop w (c # cs) buffer buf_size pos s =
     (if c = newline
      then defined (array_set buffer pos 0) (\<lambda>buffer. Value buffer (s\<lparr>input := cs\<rparr>))
      else defined (array_set buffer pos c) (\<lambda>buffer.
        if buf_size \<le> pos + 1
        then (case realloc (fresh_bytes w) buffer (buf_size + 256) of
                None \<Rightarrow> die ''realloc'' (s\<lparr>input := cs\<rparr>)
              | Some buffer \<Rightarrow> read_loop w cs buffer (buf_size + 256) (pos + 1) s)
        else read_loop w cs buffer buf_size (pos + 1) s))"

definition lsh_read_line :: "world \<Rightarrow> shell \<Rightarrow> byte list res" where
  "lsh_read_line w s =
     (case fresh_bytes w 256 of
        None \<Rightarrow> die ''malloc'' s
      | Some buffer \<Rightarrow> read_loop w (input s) buffer 256 0 s)"

section \<open>Cutting a line into words\<close>

definition is_delim :: "byte \<Rightarrow> bool" where
  "is_delim c \<longleftrightarrow> c \<in> set [32, 9, 13, 10, 7]"

fun strspn :: "byte list \<Rightarrow> nat option" where
  "strspn [] = None"
| "strspn (c # cs) = (if is_delim c then map_option Suc (strspn cs) else Some 0)"

fun strcspn :: "byte list \<Rightarrow> nat option" where
  "strcspn [] = None"
| "strcspn (c # cs) = (if c = 0 \<or> is_delim c then Some 0 else map_option Suc (strcspn cs))"

text \<open>\<^verbatim>\<open>strtok\<close> from the remembered position: the token, the changed buffer and the new position.\<close>

definition strtok :: "byte list \<Rightarrow> nat \<Rightarrow> (nat option \<times> byte list \<times> nat) option" where
  "strtok buf p = do {
     n \<leftarrow> strspn (drop p buf);
     let s = p + n;
     if buf ! s = 0 then Some (None, buf, s)
     else do {
       m \<leftarrow> strcspn (drop s buf);
       let e = s + m;
       if buf ! e = 0 then Some (Some s, buf, e) else Some (Some s, buf[e := 0], e + 1)
     }
   }"

lemma strspn_Some: "strspn bs = Some n \<Longrightarrow> n < length bs \<and> \<not> is_delim (bs ! n)"
  by (induction bs arbitrary: n) (auto split: if_splits)

lemma strcspn_Some: "strcspn bs = Some n \<Longrightarrow> n < length bs \<and> (bs ! n = 0 \<or> is_delim (bs ! n))"
  by (induction bs arbitrary: n) (auto split: if_splits)

lemma strtok_progress:
  assumes "strtok buf p = Some (Some t, buf', p')"
  shows "p < p' \<and> p' \<le> length buf \<and> length buf' = length buf"
proof -
  obtain n where n: "strspn (drop p buf) = Some n" "buf ! (p + n) \<noteq> 0"
    using assms by (auto simp: strtok_def bind_eq_Some_conv Let_def split: if_splits)
  then obtain m where m: "strcspn (drop (p + n) buf) = Some m"
    using assms by (auto simp: strtok_def bind_eq_Some_conv Let_def split: if_splits)
  have "\<not> is_delim (buf ! (p + n))" using strspn_Some [OF n(1)] by auto
  then have "m \<noteq> 0" using strcspn_Some [OF m] n(2) by (auto intro: ccontr)
  moreover have "p + n + m < length buf" using strcspn_Some [OF m] by auto
  ultimately show ?thesis using assms n m by (auto simp: strtok_def Let_def split: if_splits)
qed

function split_loop :: "world \<Rightarrow> byte list \<Rightarrow> nat \<Rightarrow> nat option list \<Rightarrow> nat \<Rightarrow> nat \<Rightarrow> shell
    \<Rightarrow> (byte list \<times> nat option list) res" where
  "split_loop w line save tokens buf_size pos s =
     (case strtok line save of
        None \<Rightarrow> Undef
      | Some (None, line, _) \<Rightarrow> defined (array_set tokens pos None) (\<lambda>tokens. Value (line, tokens) s)
      | Some (Some token, line, save) \<Rightarrow>
          defined (array_set tokens pos (Some token)) (\<lambda>tokens.
            if buf_size \<le> pos + 1
            then (case realloc (fresh_ptrs w) tokens (buf_size + 128) of
                    None \<Rightarrow> die ''realloc'' s
                  | Some tokens \<Rightarrow> split_loop w line save tokens (buf_size + 128) (pos + 1) s)
            else split_loop w line save tokens buf_size (pos + 1) s))"
  by pat_completeness auto
termination
  by (relation "measure (\<lambda>(w, line, save, _). length line - save)") (force dest: strtok_progress)+

declare split_loop.simps [simp del]

definition lsh_split_line :: "world \<Rightarrow> byte list \<Rightarrow> shell \<Rightarrow> (byte list \<times> nat option list) res" where
  "lsh_split_line w line s =
     (case fresh_ptrs w 128 of
        None \<Rightarrow> die ''malloc'' s
      | Some tokens \<Rightarrow> split_loop w line 0 tokens 128 0 s)"

section \<open>Commands\<close>

type_synonym args = "byte list \<times> nat option list"

text \<open>\<open>args[i]\<close> as a C string; \<open>Some None\<close> is a null pointer.\<close>

definition arg :: "args \<Rightarrow> nat \<Rightarrow> byte list option option" where
  "arg args i = do {
     p \<leftarrow> array_get (snd args) i;
     case p of None \<Rightarrow> Some None | Some off \<Rightarrow> map_option Some (str_at (fst args) off)
   }"

text \<open>The argument vector \<^verbatim>\<open>execvp\<close> gets: the strings up to the null pointer.\<close>

fun argv :: "byte list \<Rightarrow> nat option list \<Rightarrow> byte list list option" where
  "argv line [] = None"
| "argv line (None # ts) = Some []"
| "argv line (Some p # ts) = do { w \<leftarrow> str_at line p; ws \<leftarrow> argv line ts; Some (w # ws) }"

text \<open>The macros of \<^verbatim>\<open>sys/wait.h\<close>.\<close>

definition WIFEXITED :: "u32 \<Rightarrow> bool" where
  "WIFEXITED st \<longleftrightarrow> and st 0x7f = 0"

definition WIFSIGNALED :: "u32 \<Rightarrow> bool" where
  "WIFSIGNALED st \<longleftrightarrow> and st 0x7f \<noteq> 0 \<and> and st 0x7f \<noteq> 0x7f"

text \<open>A failed \<^verbatim>\<open>waitpid\<close> leaves \<open>status\<close> as it is.\<close>

fun wait_loop :: "u32 option list \<Rightarrow> u32 \<Rightarrow> shell \<Rightarrow> int res" where
  "wait_loop [] status s = Waiting s"
| "wait_loop (r # rs) status s =
     (let status = (case r of None \<Rightarrow> status | Some st \<Rightarrow> st)
      in if \<not> WIFEXITED status \<and> \<not> WIFSIGNALED status then wait_loop rs status s else Value 0 s)"

text \<open>The child only calls \<^verbatim>\<open>execvp\<close> with its arguments (and exits with 1 should that return): it is the event
  \<open>Spawn\<close>.\<close>

definition lsh_launch :: "world \<Rightarrow> args \<Rightarrow> shell \<Rightarrow> int res" where
  "lsh_launch w args s =
     (case fork_of w (history s) of
        Fork_Failed \<Rightarrow> Value (- 1) (event (Perror ''fork'') s)
      | Child reports \<Rightarrow>
          defined (argv (fst args) (snd args)) (\<lambda>ws. wait_loop reports (raw_status w) (event (Spawn ws) s)))"

text \<open>\<^verbatim>\<open>chdir(NULL)\<close> fails.\<close>

definition builtin_cd :: "world \<Rightarrow> args \<Rightarrow> shell \<Rightarrow> int res" where
  "builtin_cd w args s =
     defined (arg args 1) (\<lambda>a.
       let dir = (case a of None \<Rightarrow> home w | Some d \<Rightarrow> Some d);
           s = event (Chdir dir) s
       in if dir = None \<or> \<not> chdir_ok w (history s) then Value 0 (event (Perror ''chdir'') s) else Value 0 s)"

definition builtin_exit :: "world \<Rightarrow> args \<Rightarrow> shell \<Rightarrow> int res" where
  "builtin_exit w args s = Value 1 s"

definition builtin_functions :: "(byte list \<times> (world \<Rightarrow> args \<Rightarrow> shell \<Rightarrow> int res)) list" where
  "builtin_functions = [([99, 100, 0], builtin_cd), ([101, 120, 105, 116, 0], builtin_exit)]"

fun run_builtin ::
  "(byte list \<times> (world \<Rightarrow> args \<Rightarrow> shell \<Rightarrow> int res)) list \<Rightarrow> world \<Rightarrow> byte list \<Rightarrow> args \<Rightarrow> shell \<Rightarrow> int res" where
  "run_builtin [] w name args s = lsh_launch w args s"
| "run_builtin ((n, func) # fs) w name args s =
     defined (strcmp name n) (\<lambda>c. if c = 0 then func w args s else run_builtin fs w name args s)"

definition lsh_execute :: "world \<Rightarrow> args \<Rightarrow> shell \<Rightarrow> int res" where
  "lsh_execute w args s =
     defined (array_get (snd args) 0) (\<lambda>p.
       case p of None \<Rightarrow> Value 1 s
       | Some off \<Rightarrow> run_builtin builtin_functions w (drop off (fst args)) args s)"

text \<open>One round of \<open>main\<close> and its loop; \<open>None\<close> is a loop that does not end.\<close>

definition shell_round :: "world \<Rightarrow> shell \<Rightarrow> int res" where
  "shell_round w s =
     bind_res (lsh_read_line w (event Prompt s)) (\<lambda>line s.
     bind_res (lsh_split_line w line s) (\<lambda>args s.
     lsh_execute w args s))"

partial_function (option) shell_main :: "world \<Rightarrow> shell \<Rightarrow> int res option" where
  "shell_main w s =
     (case shell_round w s of
        Value status s \<Rightarrow> if status \<noteq> 0 then Some (Stop 1 s) else shell_main w s
      | r \<Rightarrow> Some r)"

section \<open>What a line is read into\<close>

text \<open>No allocation fails, and blocks have the size that was asked for.\<close>

definition memory_ok :: "world \<Rightarrow> bool" where
  "memory_ok w \<longleftrightarrow> (\<forall>n. (\<exists>b. fresh_bytes w n = Some b \<and> length b = n) \<and> (\<exists>t. fresh_ptrs w n = Some t \<and> length t = n))"

lemma memory_okE:
  assumes "memory_ok w"
  obtains b t where "fresh_bytes w n = Some b" "length b = n" "fresh_ptrs w n = Some t" "length t = n"
  using assms that by (auto simp: memory_ok_def)

lemma realloc_grows:
  assumes "fresh n = Some raw" and "length raw = n" and "length old \<le> n"
  shows "\<exists>new. realloc fresh old n = Some new \<and> length new = n \<and> take (length old) new = old"
  using assms by (simp add: realloc_def)

lemma take_realloc: "take (length old) new = old \<Longrightarrow> p \<le> length old \<Longrightarrow> take p new = take p old"
  by (metis min.absorb1 take_take)

lemma array_set_prefix: "length buffer = n \<Longrightarrow> pos < n \<Longrightarrow> take pos buffer = p \<Longrightarrow>
    \<exists>b. array_set buffer pos c = Some b \<and> length b = n \<and> take (Suc pos) b = p @ [c]"
  by (simp add: take_Suc_conv_app_nth)

lemma read_loop_line:
  assumes "memory_ok w" and "length buffer = buf_size" and "pos < buf_size" and "buf_size \<le> pos + 256"
    and "take pos buffer = p"
  shows "\<exists>junk. read_loop w cs buffer buf_size pos s =
      Value (p @ takeWhile (\<lambda>c. c \<noteq> newline) cs @ 0 # junk)
        (s\<lparr>input := drop (Suc (length (takeWhile (\<lambda>c. c \<noteq> newline) cs))) cs\<rparr>) \<and>
    length junk < 256"
  using assms(2-)
proof (induction cs arbitrary: buffer buf_size pos p)
  case Nil
  obtain b where b: "array_set buffer pos 0 = Some b" "length b = buf_size" "take (Suc pos) b = p @ [0]"
    using array_set_prefix [OF Nil(1,2,4)] by blast
  have "b = p @ 0 # drop (Suc pos) b" using append_take_drop_id [of "Suc pos" b] b(3) by simp
  then show ?case using b Nil by (intro exI [of _ "drop (Suc pos) b"]) auto
next
  case (Cons c cs)
  show ?case
  proof (cases "c = newline")
    case True
    obtain b where b: "array_set buffer pos 0 = Some b" "length b = buf_size" "take (Suc pos) b = p @ [0]"
      using array_set_prefix [OF Cons.prems(1,2,4)] by blast
    have "b = p @ 0 # drop (Suc pos) b" using append_take_drop_id [of "Suc pos" b] b(3) by simp
    then show ?thesis using True b Cons.prems by (intro exI [of _ "drop (Suc pos) b"]) auto
  next
    case False
    obtain b where b: "array_set buffer pos c = Some b" "length b = buf_size" "take (Suc pos) b = p @ [c]"
      using array_set_prefix [OF Cons.prems(1,2,4)] by blast
    show ?thesis
    proof (cases "buf_size \<le> pos + 1")
      case True
      obtain raw where "fresh_bytes w (buf_size + 256) = Some raw" "length raw = buf_size + 256"
        using memory_okE [OF assms(1)] by metis
      then obtain b' where b': "realloc (fresh_bytes w) b (buf_size + 256) = Some b'" "length b' = buf_size + 256"
        "take (length b) b' = b"
        using realloc_grows [of "fresh_bytes w"] b(2) by force
      have "take (Suc pos) b' = p @ [c]" using take_realloc [OF b'(3), of "Suc pos"] b Cons.prems by simp
      then show ?thesis
        using Cons.IH [of b' "buf_size + 256" "pos + 1" "p @ [c]"] b b' True \<open>c \<noteq> newline\<close> Cons.prems by auto
    next
      case False
      then show ?thesis using Cons.IH [of b buf_size "pos + 1" "p @ [c]"] b \<open>c \<noteq> newline\<close> Cons.prems by auto
    qed
  qed
qed

lemma lsh_read_line_ok:
  assumes "memory_ok w"
  obtains junk where "lsh_read_line w s =
      Value (takeWhile (\<lambda>c. c \<noteq> newline) (input s) @ 0 # junk)
        (s\<lparr>input := drop (Suc (length (takeWhile (\<lambda>c. c \<noteq> newline) (input s)))) (input s)\<rparr>)" "length junk < 256"
proof -
  obtain raw where "fresh_bytes w 256 = Some raw" "length raw = 256" using memory_okE [OF assms] by metis
  then show ?thesis using read_loop_line [OF assms, of raw 256 0 "[]" "input s" s] that by (auto simp: lsh_read_line_def)
qed

section \<open>The words of a line\<close>

definition words :: "byte list \<Rightarrow> byte list list" where
  "words l = filter (\<lambda>w. w \<noteq> []) (split_on is_delim l)"

definition plain :: "byte \<Rightarrow> bool" where
  "plain c \<longleftrightarrow> c \<noteq> 0 \<and> \<not> is_delim c"

lemma words_delims [simp]: "list_all is_delim d \<Longrightarrow> words (d @ l) = words l"
  by (induction d) (simp_all add: words_def)

lemma words_word [simp]: "w \<noteq> [] \<Longrightarrow> list_all plain w \<Longrightarrow> is_delim x \<Longrightarrow> words (w @ x # l) = w # words l"
  by (simp add: words_def list_all_iff plain_def)

lemma words_Nil [simp]: "words [] = []"
  by (simp add: words_def)

lemma words_last [simp]: "w \<noteq> [] \<Longrightarrow> list_all plain w \<Longrightarrow> words w = [w]"
  by (simp add: words_def list_all_iff plain_def)

lemma is_delim_0 [simp]: "\<not> is_delim 0"
  by (simp add: is_delim_def)

lemma word_cases:
  assumes "cstring l"
  obtains (none) "list_all is_delim l"
  | (last) d w where "l = d @ w" "list_all is_delim d" "w \<noteq> []" "list_all plain w"
  | (more) d w x r where "l = d @ w @ x # r" "list_all is_delim d" "w \<noteq> []" "list_all plain w" "is_delim x" "cstring r"
proof -
  let ?d = "takeWhile is_delim l" and ?r = "dropWhile is_delim l"
  have d: "l = ?d @ ?r" "list_all is_delim ?d" by (simp, auto simp: list_all_iff dest: set_takeWhileD)
  have r: "cstring ?r" using assms by (auto simp: cstring_def dest: set_dropWhileD)
  let ?w = "takeWhile plain ?r" and ?q = "dropWhile plain ?r"
  have w: "?r = ?w @ ?q" "list_all plain ?w" by (simp, auto simp: list_all_iff dest: set_takeWhileD)
  show ?thesis
  proof (cases "?r = []")
    case True
    then show ?thesis using none by (simp add: list_all_iff)
  next
    case False
    then have "hd ?r \<noteq> 0" using r hd_in_set [OF False] by (metis cstring_def)
    then have "plain (hd ?r)" using hd_dropWhile [OF False] by (simp add: plain_def)
    then have ne: "?w \<noteq> []" using False by (cases ?r) auto
    show ?thesis
    proof (cases ?q)
      case Nil
      then have "l = ?d @ ?w" using d(1) w(1) by (metis append_Nil2)
      then show ?thesis using last d(2) w(2) ne by blast
    next
      case (Cons x q)
      then have "\<not> plain x" using hd_dropWhile [of plain ?r] by simp
      moreover have "x \<noteq> 0" "cstring q" using r set_dropWhileD [of _ plain ?r] unfolding Cons by (auto simp: cstring_def)
      ultimately show ?thesis using more [of ?d ?w x q] d w ne Cons by (simp add: plain_def)
    qed
  qed
qed

lemma strspn_delims: "list_all is_delim d \<Longrightarrow> \<not> is_delim c \<Longrightarrow> strspn (d @ c # r) = Some (length d)"
  by (induction d) auto

lemma strcspn_plain: "list_all plain w \<Longrightarrow> c = 0 \<or> is_delim c \<Longrightarrow> strcspn (w @ c # r) = Some (length w)"
  by (induction w) (auto simp: plain_def)

lemma strtok_end: "list_all is_delim d \<Longrightarrow>
    strtok (u @ d @ 0 # r) (length u) = Some (None, u @ d @ 0 # r, length u + length d)"
  by (simp add: strtok_def strspn_delims nth_append)

lemma strtok_word:
  assumes "list_all is_delim d" and "w \<noteq> []" and "list_all plain w" and "x = 0 \<or> is_delim x"
  shows "strtok (u @ d @ w @ x # r) (length u) =
    Some (Some (length u + length d), u @ d @ w @ 0 # r, length u + length d + length w + (if x = 0 then 0 else 1))"
proof -
  obtain c w' where w: "w = c # w'" "plain c" "list_all plain w'" using assms(2,3) by (cases w) auto
  have "strspn (d @ w @ x # r) = Some (length d)" using strspn_delims [OF assms(1), of c "w' @ x # r"] w by (simp add: plain_def)
  moreover have "strcspn (w @ x # r) = Some (length w)" using strcspn_plain [OF assms(3,4)] .
  moreover have "(u @ d @ w @ x # r) ! (length u + length d + length w) = x"
    by (metis add.assoc append.assoc length_append nth_append_length)
  moreover have "(u @ d @ w @ x # r) ! (length u + length d) = c" using w by (simp add: nth_append)
  ultimately show ?thesis using w(2) by (auto simp: strtok_def Let_def plain_def list_update_append)
qed

lemma split_loop_token:
  assumes "memory_ok w" and "strtok line save = Some (Some t, line', save')"
    and "length tokens = buf_size" and "pos < buf_size"
  obtains tokens' size' where "split_loop w line save tokens buf_size pos s = split_loop w line' save' tokens' size' (Suc pos) s"
    "length tokens' = size'" "Suc pos < size'" "take (Suc pos) tokens' = take pos tokens @ [Some t]"
proof -
  obtain b where b: "array_set tokens pos (Some t) = Some b" "length b = buf_size" "take (Suc pos) b = take pos tokens @ [Some t]"
    using array_set_prefix [OF assms(3,4)] by blast
  show ?thesis
  proof (cases "buf_size \<le> pos + 1")
    case True
    obtain raw where "fresh_ptrs w (buf_size + 128) = Some raw" "length raw = buf_size + 128"
      using memory_okE [OF assms(1)] by metis
    then obtain b' where b': "realloc (fresh_ptrs w) b (buf_size + 128) = Some b'" "length b' = buf_size + 128"
      "take (length b) b' = b"
      using realloc_grows [of "fresh_ptrs w"] b(2) by force
    have "take (Suc pos) b' = take pos tokens @ [Some t]" using take_realloc [OF b'(3), of "Suc pos"] b assms(4) by simp
    then show ?thesis using that [of b' "buf_size + 128"] True b b' assms by (simp add: split_loop.simps [of w line])
  next
    case False
    then show ?thesis using that [of b buf_size] b assms by (simp add: split_loop.simps [of w line])
  qed
qed

lemma drop_stored: "take (Suc n) xs = ys @ [x] \<Longrightarrow> n < length xs \<Longrightarrow> drop n xs = x # drop (Suc n) xs"
  by (metis Cons_nth_drop_Suc last_snoc take_Suc_conv_app_nth)

text \<open>What a run of the token loop from offset \<open>length u\<close> gives: a buffer in which only the line changed, the earlier
  pointers kept, and from position \<open>pos\<close> on the pointers to the words of the line, up to the null pointer.\<close>

definition splits_to :: "world \<Rightarrow> byte list \<Rightarrow> byte list \<Rightarrow> byte list \<Rightarrow> nat option list \<Rightarrow> nat \<Rightarrow> nat \<Rightarrow> shell \<Rightarrow> bool" where
  "splits_to w u l r tokens buf_size pos s \<longleftrightarrow>
    (\<exists>l' tokens'. split_loop w (u @ l @ 0 # r) (length u) tokens buf_size pos s = Value (u @ l' @ 0 # r, tokens') s \<and>
      length l' = length l \<and> take pos tokens' = take pos tokens \<and> pos < length tokens' \<and>
      argv (u @ l' @ 0 # r) (drop pos tokens') = Some (words l))"

lemma splits_to_none:
  assumes "list_all is_delim l" and "length tokens = buf_size" and "pos < buf_size"
  shows "splits_to w u l r tokens buf_size pos s"
proof -
  have "drop pos (tokens[pos := None]) = None # drop (Suc pos) tokens"
    using assms by (simp add: drop_update_swap flip: Cons_nth_drop_Suc)
  then show ?thesis using assms words_delims [OF assms(1), of "[]"] unfolding splits_to_def
    by (intro exI [of _ l] exI [of _ "tokens[pos := None]"]) (simp add: split_loop.simps strtok_end)
qed

text \<open>One token: after the delimiters \<open>d\<close> the word \<open>v\<close>, and the byte \<open>e\<close> that \<open>strtok\<close> overwrote, if any, before the
  rest \<open>l2\<close> of the line.\<close>

lemma splits_to_token:
  assumes "memory_ok w" and "length tokens = buf_size" and "pos < buf_size" and "list_all plain v"
    and tok: "strtok (u @ l @ 0 # r) (length u) = Some (Some (length u + length d), u' @ l2 @ 0 # r, length u')"
    and u': "u' = u @ d @ v @ e" "l2 = [] \<and> e = [] \<or> e = [0]" "length (d @ v @ e @ l2) = length l"
    and ws: "words l = v # words l2"
    and rest: "\<And>tokens1 size1. length tokens1 = size1 \<Longrightarrow> Suc pos < size1 \<Longrightarrow> splits_to w u' l2 r tokens1 size1 (Suc pos) s"
  shows "splits_to w u l r tokens buf_size pos s"
proof -
  obtain tokens1 size1 where t1: "split_loop w (u @ l @ 0 # r) (length u) tokens buf_size pos s =
      split_loop w (u' @ l2 @ 0 # r) (length u') tokens1 size1 (Suc pos) s"
    "length tokens1 = size1" "Suc pos < size1" "take (Suc pos) tokens1 = take pos tokens @ [Some (length u + length d)]"
    using split_loop_token [OF assms(1) tok assms(2,3)] .
  from rest [OF t1(2,3)] obtain l2' tokens2 where
    t2: "split_loop w (u' @ l2 @ 0 # r) (length u') tokens1 size1 (Suc pos) s = Value (u' @ l2' @ 0 # r, tokens2) s"
    "length l2' = length l2" "take (Suc pos) tokens2 = take (Suc pos) tokens1" "Suc pos < length tokens2"
    "argv (u' @ l2' @ 0 # r) (drop (Suc pos) tokens2) = Some (words l2)" unfolding splits_to_def by blast
  have "cstring v" using assms(4) by (auto simp: cstring_def list_all_iff plain_def)
  moreover have "u' @ l2' @ 0 # r = (u @ d) @ v @ 0 # (if e = [] then r else l2' @ 0 # r)" using u' t2(2) by auto
  ultimately have "str_at (u' @ l2' @ 0 # r) (length u + length d) = Some v" by (metis length_append str_at_cstring)
  moreover have "drop pos tokens2 = Some (length u + length d) # drop (Suc pos) tokens2"
    using t2(3,4) t1(4) drop_stored by (metis Suc_lessD)
  moreover have "take pos tokens2 = take pos tokens"
    using arg_cong [OF t2(3) [unfolded t1(4)], of "take pos"] assms(2,3) by (simp add: min_def)
  ultimately show ?thesis using t1(1) t2 u' ws unfolding splits_to_def
    by (intro exI [of _ "d @ v @ e @ l2'"] exI [of _ tokens2]) auto
qed

lemma split_loop_words:
  assumes "memory_ok w" and "cstring l" and "length tokens = buf_size" and "pos < buf_size"
  shows "splits_to w u l r tokens buf_size pos s"
  using assms(2-)
proof (induction "length l" arbitrary: l u tokens buf_size pos rule: less_induct)
  case less
  note token = splits_to_token [OF assms(1) less.prems(2,3)]
  show ?case using less.prems(1)
  proof (cases rule: word_cases)
    case none
    then show ?thesis using splits_to_none less.prems(2,3) by blast
  next
    case (last d v)
    show ?thesis
    proof (rule token [of v u l r d "u @ d @ v" "[]" "[]"])
      show "words l = v # words []" using last by simp
    qed (use last strtok_word [OF last(2-4), of 0 u r] less.hyps [of "[]"] in \<open>simp_all add: cstring_def\<close>)
  next
    case (more d v x q)
    then have "x \<noteq> 0" by auto
    show ?thesis
    proof (rule token [of v u l r d "u @ d @ v @ [0]" q "[0]"])
      show "words l = v # words q" using more by simp
    qed (use more strtok_word [OF more(2-4), of x u "q @ 0 # r"] \<open>x \<noteq> 0\<close> less.hyps [of q] in simp_all)
  qed
qed

lemma lsh_split_line_ok:
  assumes "memory_ok w" and "cstring l"
  obtains l' tokens where "lsh_split_line w (l @ 0 # r) s = Value (l' @ 0 # r, tokens) s" "length l' = length l"
    "argv (l' @ 0 # r) tokens = Some (words l)"
proof -
  obtain raw where "fresh_ptrs w 128 = Some raw" "length raw = 128" using memory_okE [OF assms(1)] by metis
  then show ?thesis using split_loop_words [OF assms, of raw 128 0 "[]" r s] that by (auto simp: lsh_split_line_def splits_to_def)
qed

section \<open>The abstract shell\<close>

text \<open>
  What the shell promises, on the lines of its input and the history: a line without words and the word
  \<open>exit\<close> end it, \<open>cd\<close> changes the directory, anything else starts a program, and the shell waits until the
  program has ended.
\<close>

datatype verdict = Goes_On | Ends | Blocks

definition ended :: "u32 \<Rightarrow> bool" where
  "ended st \<longleftrightarrow> and st 0x7f \<noteq> 0x7f"

definition child_ends :: "u32 \<Rightarrow> u32 option list \<Rightarrow> bool" where
  "child_ends raw reports \<longleftrightarrow>
     list_ex (\<lambda>r. case r of None \<Rightarrow> False | Some st \<Rightarrow> ended st) reports \<or>
     (case reports of None # _ \<Rightarrow> ended raw | _ \<Rightarrow> False)"

definition command :: "world \<Rightarrow> byte list list \<Rightarrow> event list \<Rightarrow> verdict \<times> event list" where
  "command w ws h =
     (case ws of
        [] \<Rightarrow> (Ends, h)
      | c # as \<Rightarrow>
          if c = [99, 100] then
            (let dir = (case as of [] \<Rightarrow> home w | d # _ \<Rightarrow> Some d); h = h @ [Chdir dir]
             in (Goes_On, if dir \<noteq> None \<and> chdir_ok w h then h else h @ [Perror ''chdir'']))
          else if c = [101, 120, 105, 116] then (Ends, h)
          else (case fork_of w h of
                  Fork_Failed \<Rightarrow> (Ends, h @ [Perror ''fork''])
                | Child reports \<Rightarrow> (if child_ends (raw_status w) reports then Goes_On else Blocks, h @ [Spawn ws])))"

fun shell_spec :: "world \<Rightarrow> byte list list \<Rightarrow> event list \<Rightarrow> verdict \<times> event list" where
  "shell_spec w [] h = (Ends, h)"
| "shell_spec w (l # ls) h =
     (case command w (words (takeWhile (\<lambda>c. c \<noteq> 0) l)) (h @ [Prompt]) of
        (Goes_On, h) \<Rightarrow> shell_spec w ls h
      | r \<Rightarrow> r)"

text \<open>How a result of the program shows a verdict.\<close>

fun shown :: "int res \<Rightarrow> (verdict \<times> event list) option" where
  "shown (Value status s) = Some (if status = 0 then Goes_On else Ends, history s)"
| "shown (Stop n s) = (if n = 1 then Some (Ends, history s) else None)"
| "shown (Waiting s) = Some (Blocks, history s)"
| "shown Undef = None"

lemma running_iff: "\<not> WIFEXITED st \<and> \<not> WIFSIGNALED st \<longleftrightarrow> \<not> ended st"
  by (auto simp: WIFEXITED_def WIFSIGNALED_def ended_def)

lemma wait_loop_ends:
  "wait_loop reports st s = (if child_ends st reports then Value 0 s else Waiting s)"
proof (induction reports arbitrary: st)
  case (Cons r rs)
  then show ?case by (cases r) (auto simp: running_iff child_ends_def Let_def split: list.splits option.splits)
qed (simp add: child_ends_def)

lemma argv_Nil: "argv line tokens = Some [] \<Longrightarrow> array_get tokens 0 = Some None"
  by (cases "(line, tokens)" rule: argv.cases) (auto simp: bind_eq_Some_conv)

lemma argv_Cons:
  assumes "argv line tokens = Some (c # as)"
  obtains off ts where "tokens = Some off # ts" "str_at line off = Some c" "argv line ts = Some as"
  using assms by (cases "(line, tokens)" rule: argv.cases) (auto simp: bind_eq_Some_conv)

lemma arg_1:
  assumes "argv line tokens = Some (c # as)"
  shows "arg (line, tokens) 1 = Some (case as of [] \<Rightarrow> None | d # _ \<Rightarrow> Some d)"
proof -
  obtain off ts where t: "tokens = Some off # ts" "argv line ts = Some as" using argv_Cons [OF assms] by metis
  show ?thesis
  proof (cases as)
    case Nil
    then have "array_get ts 0 = Some None" using t(2) by (simp add: argv_Nil)
    then show ?thesis using t(1) Nil by (cases ts) (simp_all add: arg_def array_get_def)
  next
    case (Cons d as')
    then obtain off' ts' where "ts = Some off' # ts'" "str_at line off' = Some d" using argv_Cons t(2) by metis
    then show ?thesis using t(1) Cons by (simp add: arg_def array_get_def)
  qed
qed

lemma strcmp_arg:
  assumes "str_at line off = Some c" and "cstring n"
  obtains k where "strcmp (drop off line) (n @ [0]) = Some k" "k = 0 \<longleftrightarrow> c = n"
proof -
  obtain r where "cstring c" "drop off line = c @ 0 # r" using assms(1) by (auto simp: str_at_Some)
  then show ?thesis using strcmp_eq [OF _ assms(2), of c r "[]"] that by auto
qed

lemma lsh_execute_command:
  assumes "argv line tokens = Some ws"
  shows "shown (lsh_execute w (line, tokens) s) = Some (command w ws (history s))"
    and "lsh_execute w (line, tokens) s = Value st s' \<Longrightarrow> input s' = input s"
proof -
  have "shown (lsh_execute w (line, tokens) s) = Some (command w ws (history s)) \<and>
    (\<forall>st s'. lsh_execute w (line, tokens) s = Value st s' \<longrightarrow> input s' = input s)"
  proof (cases ws)
    case Nil
    then show ?thesis using argv_Nil assms by (simp add: lsh_execute_def command_def)
  next
    case (Cons c as)
    then obtain off ts where t: "tokens = Some off # ts" "str_at line off = Some c" using argv_Cons assms by metis
    obtain k where k: "strcmp (drop off line) [99, 100, 0] = Some k" "k = 0 \<longleftrightarrow> c = [99, 100]"
      using strcmp_arg [OF t(2), of "[99, 100]"] by (auto simp: cstring_def)
    obtain j where j: "strcmp (drop off line) [101, 120, 105, 116, 0] = Some j" "j = 0 \<longleftrightarrow> c = [101, 120, 105, 116]"
      using strcmp_arg [OF t(2), of "[101, 120, 105, 116]"] by (auto simp: cstring_def)
    have ex: "lsh_execute w (line, tokens) s =
        (if c = [99, 100] then builtin_cd w (line, tokens) s
         else if c = [101, 120, 105, 116] then builtin_exit w (line, tokens) s else lsh_launch w (line, tokens) s)"
      using k j t(1) by (simp add: lsh_execute_def builtin_functions_def array_get_def)
    show ?thesis
    proof (cases "c = [99, 100]")
      case True
      then show ?thesis using ex arg_1 [of line tokens c as] assms Cons
        by (auto simp: builtin_cd_def command_def event_def Let_def split: list.splits)
    next
      case False
      then show ?thesis using ex assms Cons
        by (auto simp: builtin_exit_def lsh_launch_def command_def event_def wait_loop_ends split: fork_answer.splits)
    qed
  qed
  then show "shown (lsh_execute w (line, tokens) s) = Some (command w ws (history s))"
    and "lsh_execute w (line, tokens) s = Value st s' \<Longrightarrow> input s' = input s" by blast+
qed

lemma shell_round_command:
  fixes s :: shell
  assumes "memory_ok w"
  defines "l \<equiv> takeWhile (\<lambda>c. c \<noteq> newline) (input s)"
  shows "shown (shell_round w s) = Some (command w (words (takeWhile (\<lambda>c. c \<noteq> 0) l)) (history s @ [Prompt]))"
    and "shell_round w s = Value st s' \<Longrightarrow> input s' = drop (Suc (length l)) (input s)"
proof -
  let ?s = "event Prompt s"
  obtain junk where read: "lsh_read_line w ?s = Value (l @ 0 # junk) (?s\<lparr>input := drop (Suc (length l)) (input s)\<rparr>)"
    using lsh_read_line_ok [OF assms(1), of ?s] by (auto simp: l_def event_def)
  define c where "c = takeWhile (\<lambda>c. c \<noteq> 0) l"
  obtain r where r: "l @ 0 # junk = c @ 0 # r" "cstring c"
  proof (cases "dropWhile (\<lambda>c. c \<noteq> 0) l")
    case Nil
    then have "c = l" unfolding c_def by (metis append_Nil2 takeWhile_dropWhile_id)
    then show ?thesis using that [of junk] by (metis (full_types) c_def cstring_def set_takeWhileD)
  next
    case (Cons x q)
    then have "x = 0" using hd_dropWhile [of "\<lambda>c. c \<noteq> 0" l] by simp
    then have "l = c @ 0 # q" unfolding c_def using Cons takeWhile_dropWhile_id by metis
    then show ?thesis using that [of "q @ 0 # junk"] by (metis (full_types) append.assoc append_Cons c_def cstring_def set_takeWhileD)
  qed
  obtain l' tokens where split: "lsh_split_line w (c @ 0 # r) (?s\<lparr>input := drop (Suc (length l)) (input s)\<rparr>) =
      Value (l' @ 0 # r, tokens) (?s\<lparr>input := drop (Suc (length l)) (input s)\<rparr>)" "argv (l' @ 0 # r) tokens = Some (words c)"
    using lsh_split_line_ok [OF assms(1) r(2)] by metis
  have round: "shell_round w s = lsh_execute w (l' @ 0 # r, tokens) (?s\<lparr>input := drop (Suc (length l)) (input s)\<rparr>)"
    unfolding shell_round_def read by (simp add: r(1) split(1))
  show "shown (shell_round w s) = Some (command w (words (takeWhile (\<lambda>c. c \<noteq> 0) l)) (history s @ [Prompt]))"
    using lsh_execute_command(1) [OF split(2)] round by (simp add: c_def event_def)
  show "shell_round w s = Value st s' \<Longrightarrow> input s' = drop (Suc (length l)) (input s)"
    using lsh_execute_command(2) [OF split(2)] round by auto
qed

lemma shell_main_step:
  "shell_main w s = (case shell_round w s of Value status s' \<Rightarrow> if status \<noteq> 0 then Some (Stop 1 s') else shell_main w s' | r \<Rightarrow> Some r)"
  by (simp add: shell_main.simps)

lemma shell_main_verdict:
  assumes "shown (shell_round w s) = Some (v, h)" and "\<And>s'. v = Goes_On \<Longrightarrow> shell_round w s = Value 0 s' \<Longrightarrow> history s' = h \<Longrightarrow>
    \<exists>r. shell_main w s' = Some r \<and> shown r = Some (f h)"
  shows "\<exists>r. shell_main w s = Some r \<and> shown r = Some (case v of Goes_On \<Rightarrow> f h | _ \<Rightarrow> (v, h))"
proof (cases "shell_round w s")
  case (Value st s')
  then show ?thesis using assms by (cases "st = 0") (auto simp: shell_main_step [of w s])
qed (use assms(1) in \<open>auto simp: shell_main_step [of w s] split: if_splits\<close>)

lemma shell_main_spec:
  assumes "memory_ok w"
  shows "\<exists>r. shell_main w s = Some r \<and> shown r = Some (shell_spec w (split_on (\<lambda>c. c = newline) (input s) @ [[]]) (history s))"
proof (induction "length (input s)" arbitrary: s rule: less_induct)
  case less
  define l where "l = takeWhile (\<lambda>c. c \<noteq> newline) (input s)"
  obtain v h where v: "command w (words (takeWhile (\<lambda>c. c \<noteq> 0) l)) (history s @ [Prompt]) = (v, h)" by fastforce
  let ?rest = "drop (Suc (length l)) (input s)"
  define ls where "ls = (if newline \<in> set (input s) then split_on (\<lambda>c. c = newline) ?rest @ [[]] else [[]])"
  have split: "split_on (\<lambda>c. c = newline) (input s) @ [[]] = l # ls"
  proof (cases "newline \<in> set (input s)")
    case True
    then obtain q r where "input s = q @ newline # r" "newline \<notin> set q" using split_list_first by metis
    then show ?thesis using True by (auto simp: ls_def l_def takeWhile_append)
  next
    case False
    have "l = input s" using False by (auto simp: l_def takeWhile_eq_all_conv)
    moreover have "split_on (\<lambda>c. c = newline) (input s) = [input s]" using False by (intro split_on_last) auto
    ultimately show ?thesis using False by (simp add: ls_def)
  qed
  have "\<exists>r. shell_main w s' = Some r \<and> shown r = Some (shell_spec w ls h)"
    if "v = Goes_On" "shell_round w s = Value 0 s'" "history s' = h" for s'
  proof -
    have "input s \<noteq> []" using that(1) v by (auto simp: l_def command_def)
    moreover have "input s' = ?rest" using shell_round_command(2) [OF assms that(2)] by (simp add: l_def)
    ultimately have *: "\<exists>r. shell_main w s' = Some r \<and>
        shown r = Some (shell_spec w (split_on (\<lambda>c. c = newline) ?rest @ [[]]) h)"
      using less.hyps [of s'] that(3) by simp
    show ?thesis
    proof (cases "newline \<in> set (input s)")
      case False
      then have "l = input s" by (auto simp: l_def takeWhile_eq_all_conv)
      then have "?rest = []" by simp
      then show ?thesis using * False by (simp add: ls_def command_def)
    qed (use * in \<open>simp add: ls_def\<close>)
  qed
  then have "\<exists>r. shell_main w s = Some r \<and> shown r = Some (case v of Goes_On \<Rightarrow> shell_spec w ls h | _ \<Rightarrow> (v, h))"
    using shell_round_command(1) [OF assms, of s] v by (intro shell_main_verdict) (simp_all add: l_def)
  moreover have "shell_spec w (l # ls) (history s) = (case v of Goes_On \<Rightarrow> shell_spec w ls h | _ \<Rightarrow> (v, h))"
    using v by (cases v) simp_all
  ultimately show ?case unfolding split by simp
qed

section \<open>Properties\<close>

text \<open>A world with zeroed memory, whose children stop once and then exit.\<close>

definition plain_world :: world where
  "plain_world = \<lparr>fresh_bytes = \<lambda>n. Some (replicate n 0), fresh_ptrs = \<lambda>n. Some (replicate n None),
     fork_of = \<lambda>_. Child [Some 0x137f, Some 0], chdir_ok = \<lambda>_. True, home = None, raw_status = 0\<rparr>"

lemma memory_ok_plain_world: "memory_ok plain_world"
  by (simp add: memory_ok_def plain_world_def)

text \<open>C4. If memory can be allocated, the loop of \<open>main\<close> always ends, unless it waits for a child that never ends, and does what the abstract shell does on the lines of the input: it
  never reads or writes outside its buffers, starts exactly the programs named by the words of the lines, in
  order and each after the one before has ended (a child that is only stopped is waited for), and ends with
  status 1 at the first line without words, at \<open>exit\<close>, at the end of the input or when \<^verbatim>\<open>fork\<close> fails.\<close>

theorem shell_refines_spec:
  assumes "memory_ok w"
  shows "\<exists>r. shell_main w s = Some r \<and>
    shown r = Some (shell_spec w (split_on (\<lambda>c. c = newline) (input s) @ [[]]) (history s))"
  using shell_main_spec [OF assms] .

text \<open>The input is \<^verbatim>\<open>ls -a\<close>, a blank line, \<^verbatim>\<open>ps\<close>: the last line is never read.\<close>

theorem shell_refines_spec_witness:
  "\<exists>r. shell_main plain_world \<lparr>input = [108, 115, 32, 45, 97, 10, 32, 10, 112, 115, 10], history = []\<rparr> = Some r \<and>
     shown r = Some (Ends, [Prompt, Spawn [[108, 115], [45, 97]], Prompt])"
proof -
  have "shell_spec plain_world (split_on (\<lambda>c. c = newline) [108, 115, 32, 45, 97, 10, 32, 10, 112, 115, 10] @ [[]]) [] =
      (Ends, [Prompt, Spawn [[108, 115], [45, 97]], Prompt])"
    by code_simp
  then show ?thesis
    using shell_refines_spec [OF memory_ok_plain_world, of "\<lparr>input = [108, 115, 32, 45, 97, 10, 32, 10, 112, 115, 10], history = []\<rparr>"]
    by simp
qed

text \<open>C14. \<open>lsh_split_line\<close> equals the reference splitting into words: it works in place, leaves the buffer its
  length and what follows the string alone, and the returned array lists exactly the words of the line, in
  order, ended by a null pointer, whatever their number.\<close>

theorem lsh_split_line_words:
  assumes "memory_ok w" and "cstring l"
  shows "\<exists>l' tokens. lsh_split_line w (l @ 0 # r) s = Value (l' @ 0 # r, tokens) s \<and> length l' = length l \<and>
    argv (l' @ 0 # r) tokens = Some (words l)"
  using lsh_split_line_ok [OF assms] by metis

theorem lsh_split_line_words_witness:
  "\<exists>l' tokens. lsh_split_line plain_world ([32, 97, 9, 9, 98, 99] @ 0 # [7]) \<lparr>input = [], history = []\<rparr> =
      Value (l' @ 0 # [7], tokens) \<lparr>input = [], history = []\<rparr> \<and> length l' = length [32, 97, 9, 9, 98, 99 :: byte] \<and>
    argv (l' @ 0 # [7]) tokens = Some [[97], [98, 99]]"
proof -
  have "words [32, 97, 9, 9, 98, 99] = [[97], [98, 99]]" by code_simp
  then show ?thesis
    using lsh_split_line_words [OF memory_ok_plain_world, of "[32, 97, 9, 9, 98, 99]" "[7]" "\<lparr>input = [], history = []\<rparr>"]
    by (simp add: cstring_def)
qed

text \<open>\<open>lsh_read_line\<close> returns the input up to the next newline, or all of it, as a C string in a buffer that
  is at most 256 bytes longer than the line, and consumes the newline: no store is outside the buffer, however
  long the line is.\<close>

theorem lsh_read_line_buffer:
  assumes "memory_ok w"
  shows "\<exists>junk. lsh_read_line w s =
      Value (takeWhile (\<lambda>c. c \<noteq> newline) (input s) @ 0 # junk)
        (s\<lparr>input := drop (Suc (length (takeWhile (\<lambda>c. c \<noteq> newline) (input s)))) (input s)\<rparr>) \<and> length junk < 256"
  using lsh_read_line_ok [OF assms] by metis

theorem lsh_read_line_buffer_witness:
  "\<exists>junk. lsh_read_line plain_world \<lparr>input = replicate 1000 65 @ [10, 66], history = []\<rparr> =
      Value (replicate 1000 65 @ 0 # junk) \<lparr>input = [66], history = []\<rparr> \<and> length junk < 256"
  using lsh_read_line_buffer [OF memory_ok_plain_world, of "\<lparr>input = replicate 1000 65 @ [10, 66], history = []\<rparr>"]
  by (simp add: takeWhile_append)

end
