(* ===== verification/Read_Line.thy ===== *)
theory Read_Line
  imports Posix_Io
begin

text \<open>
  \<^verbatim>\<open>src/read_line/main.c\<close>: \<open>read_line\<close>, which reads a line byte by byte into a caller's buffer, and the
  program that checks it on a file of three lines.
\<close>

section \<open>read\_line\<close>

text \<open>The answers of \<^verbatim>\<open>read(fd, &ch, 1)\<close>; \<open>Failed True\<close> is \<^verbatim>\<open>EINTR\<close>. A descriptor is the list of its answers,
  and a read behind the end of the list blocks.\<close>

datatype rd1 = Byte byte | End_Of_File | Failed bool

text \<open>The state: the caller's buffer and the answers to come. The pointer \<open>buf\<close> is always \<open>buffer + total\<close>; a
  result is \<open>Continue (n, buffer, answers)\<close>.\<close>

type_synonym line_state = "int \<times> byte list \<times> rd1 list"

definition finish_line :: "byte list \<Rightarrow> nat \<Rightarrow> rd1 list \<Rightarrow> line_state run" where
  "finish_line buffer tot rs =
     (case array_set buffer tot 0 of None \<Rightarrow> Crash | Some buffer \<Rightarrow> Continue (int tot, buffer, rs))"

fun read_line_loop :: "rd1 list \<Rightarrow> byte list \<Rightarrow> nat \<Rightarrow> nat \<Rightarrow> line_state run" where
  "read_line_loop [] buffer n tot = Hang (0, buffer, [])"
| "read_line_loop (Failed eintr # rs) buffer n tot =
     (if eintr then read_line_loop rs buffer n tot else Continue (- 1, buffer, rs))"
| "read_line_loop (End_Of_File # rs) buffer n tot =
     (if tot = 0 then Continue (0, buffer, rs) else finish_line buffer tot rs)"
| "read_line_loop (Byte ch # rs) buffer n tot =
     (if tot < n - 1 \<and> ch \<noteq> newline
      then (case array_set buffer tot ch of None \<Rightarrow> Crash
            | Some buffer \<Rightarrow> read_line_loop rs buffer n (tot + 1))
      else if ch = newline then finish_line buffer tot rs
      else read_line_loop rs buffer n tot)"

text \<open>A null buffer is \<open>None\<close>.\<close>

definition read_line :: "rd1 list \<Rightarrow> byte list option \<Rightarrow> nat \<Rightarrow> line_state run" where
  "read_line fd buffer n =
     (case buffer of
        None \<Rightarrow> Continue (- 1, [], fd)
      | Some buf \<Rightarrow> if n = 0 then Continue (- 1, buf, fd) else read_line_loop fd buf n 0)"

section \<open>main\<close>

text \<open>\<open>Crash\<close> stands for an undefined operation, and \<open>Exit 134\<close> for the abort of a failed assertion.\<close>

definition expect_line :: "byte list \<Rightarrow> int \<Rightarrow> line_state \<Rightarrow> line_state run" where
  "expect_line text len st =
     run_bind (read_line (snd (snd st)) (Some (fst (snd st))) 32) (\<lambda>(n, buffer, rs).
       case strcmp buffer (text @ [0]) of None \<Rightarrow> Crash
       | Some c \<Rightarrow> if c = 0 \<and> n = len then Continue (n, buffer, rs) else Exit 134 (n, buffer, rs)) id"

definition ok_line :: "byte list" where
  "ok_line = [79, 75, newline]"

definition read_line_main :: "(file_name \<Rightarrow> rd1 list option) \<Rightarrow> rd1 list \<Rightarrow> byte list \<Rightarrow> file_name list \<Rightarrow> byte list run" where
  "read_line_main fs stdin raw args =
     (let run = (\<lambda>fd.
        run_bind (expect_line [102, 111, 111] 3 (0, raw, fd)) (\<lambda>st.
        run_bind (expect_line [97, 112, 112, 108, 101, 32, 111, 114, 97, 110, 103, 101] 12 st) (\<lambda>st.
        run_bind (expect_line [98, 97, 122] 3 st) (\<lambda>st. return_0 ok_line) (\<lambda>_. [])) (\<lambda>_. [])) (\<lambda>_. []))
      in case args of
           [] \<Rightarrow> run stdin
         | name # _ \<Rightarrow> (case fs name of None \<Rightarrow> Exit 255 [] | Some fd \<Rightarrow> run fd))"

section \<open>What is stored\<close>

text \<open>The answers that deliver the bytes of a text, with interrupted calls in between.\<close>

fun delivers :: "rd1 list \<Rightarrow> byte list \<Rightarrow> bool" where
  "delivers [] bs \<longleftrightarrow> bs = []"
| "delivers (Byte b # rs) bs \<longleftrightarrow> (case bs of [] \<Rightarrow> False | c # cs \<Rightarrow> b = c \<and> delivers rs cs)"
| "delivers (Failed True # rs) bs \<longleftrightarrow> delivers rs bs"
| "delivers (r # rs) bs \<longleftrightarrow> False"

lemma finish_line_in: "tot < length buffer \<Longrightarrow> finish_line buffer tot rs = Continue (int tot, buffer[tot := 0], rs)"
  by (simp add: finish_line_def)

lemma store_prefix: "length p = t \<Longrightarrow> t < length b \<Longrightarrow> (p @ drop t b)[t := x] = p @ x # drop (Suc t) b"
  by (simp add: list_update_append flip: Cons_nth_drop_Suc)

lemma read_line_loop_text:
  assumes "delivers rs l" and "newline \<notin> set l" and "length b = n" and "length p \<le> n - 1" and "0 < n"
  shows "read_line_loop (rs @ rest) (p @ drop (length p) b) n (length p) =
    (let q = take (n - 1) (p @ l) in read_line_loop rest (q @ drop (length q) b) n (length q))"
  using assms
proof (induction rs l arbitrary: p rule: delivers.induct)
  case (2 c rs bs)
  then obtain cs where bs: "bs = c # cs" "delivers rs cs" "c \<noteq> newline" "newline \<notin> set cs" by (auto split: list.splits)
  show ?case
  proof (cases "length p < n - 1")
    case True
    then have "array_set (p @ drop (length p) b) (length p) c = Some ((p @ [c]) @ drop (length (p @ [c])) b)"
      using store_prefix [of p "length p" b c] "2.prems" by (simp add: array_set_def)
    then show ?thesis using "2.IH" [of c cs "p @ [c]"] "2.prems" bs True by simp
  next
    case False
    then show ?thesis using "2.IH" [of c cs p] "2.prems" bs by simp
  qed
qed auto

lemma read_line_end:
  assumes "delivers rs l" and "newline \<notin> set l" and "length b = n" and "0 < n"
    and "e = Byte newline \<or> e = End_Of_File \<and> take (n - 1) l \<noteq> []"
  shows "read_line (rs @ e # rest) (Some b) n =
    Continue (int (min (length l) (n - 1)), take (n - 1) l @ 0 # drop (Suc (min (length l) (n - 1))) b, rest)"
proof -
  let ?q = "take (n - 1) l"
  have "read_line (rs @ e # rest) (Some b) n = read_line_loop (e # rest) (?q @ drop (length ?q) b) n (length ?q)"
    using read_line_loop_text [OF assms(1-3), of "[]" "e # rest"] assms(4) by (simp add: read_line_def)
  also have "\<dots> = finish_line (?q @ drop (length ?q) b) (length ?q) rest" using assms(5) by (elim disjE) (simp_all del: length_take take_eq_Nil)
  also have "\<dots> = Continue (int (length ?q), ?q @ 0 # drop (Suc (length ?q)) b, rest)"
    using assms(3,4) store_prefix [of ?q "length ?q" b 0] by (subst finish_line_in) auto
  finally show ?thesis by (simp add: min.commute)
qed

lemma expect_line_ok:
  assumes "delivers rs l" and "newline \<notin> set l" and "cstring l" and "length b = 32" and "length l < 32"
    and "e = Byte newline \<or> e = End_Of_File \<and> l \<noteq> []"
  shows "expect_line l (int (length l)) (k, b, rs @ e # rest) = Continue (int (length l), l @ 0 # drop (Suc (length l)) b, rest)"
proof -
  obtain c where "strcmp (l @ 0 # drop (Suc (length l)) b) (l @ [0]) = Some c" "c = 0"
    using strcmp_eq [OF assms(3,3), of "drop (Suc (length l)) b" "[]"] by auto
  then show ?thesis using read_line_end [OF assms(1,2,4), of e rest] assms(5,6) by (simp add: expect_line_def)
qed

section \<open>Properties\<close>

text \<open>C28. \<open>read_line\<close> on a buffer of \<open>n\<close> bytes, with any number of interrupted calls: it consumes the line with
  its newline, stores at most the first \<open>n - 1\<close> bytes and a null byte behind them, drops the rest of the line,
  and returns how many it stored; the end of the file ends a line likewise. It stores nothing outside the buffer. At
  the end of the file with nothing stored it returns 0 and leaves the buffer as it was, without a null byte; a
  read error is answered by \<open>-1\<close>.\<close>

theorem read_line_reads:
  assumes "delivers rs l" and "newline \<notin> set l" and "length b = n" and "0 < n"
  shows "read_line (rs @ Byte newline # rest) (Some b) n =
      Continue (int (min (length l) (n - 1)), take (n - 1) l @ 0 # drop (Suc (min (length l) (n - 1))) b, rest) \<and>
    read_line (rs @ End_Of_File # rest) (Some b) n =
      (if take (n - 1) l = [] then Continue (0, b, rest)
       else Continue (int (min (length l) (n - 1)), take (n - 1) l @ 0 # drop (Suc (min (length l) (n - 1))) b, rest)) \<and>
    read_line (rs @ Failed False # rest) (Some b) n =
      Continue (- 1, take (n - 1) l @ drop (min (length l) (n - 1)) b, rest)"
proof (intro conjI)
  have loop: "read_line (rs @ r) (Some b) n =
      read_line_loop r (take (n - 1) l @ drop (length (take (n - 1) l)) b) n (length (take (n - 1) l))" for r
    using read_line_loop_text [OF assms(1-3), of "[]" r] assms(4) by (simp add: read_line_def)
  show "read_line (rs @ End_Of_File # rest) (Some b) n =
      (if take (n - 1) l = [] then Continue (0, b, rest)
       else Continue (int (min (length l) (n - 1)), take (n - 1) l @ 0 # drop (Suc (min (length l) (n - 1))) b, rest))"
  proof (cases "take (n - 1) l = []")
    case True
    then show ?thesis using loop [of "End_Of_File # rest", unfolded True] by simp
  qed (use read_line_end [OF assms, of End_Of_File rest] in simp)
  show "read_line (rs @ Failed False # rest) (Some b) n =
      Continue (- 1, take (n - 1) l @ drop (min (length l) (n - 1)) b, rest)"
    using loop [of "Failed False # rest"] by (simp add: min.commute)
qed (use read_line_end [OF assms, of "Byte newline" rest] in simp)

theorem read_line_reads_witness:
  "read_line ([Byte 97, Failed True, Byte 98, Byte 99] @ Byte 10 # [Byte 100]) (Some [1, 2, 3]) 3 =
    Continue (2, [97, 98, 0], [Byte 100])"
  using read_line_reads [of "[Byte 97, Failed True, Byte 98, Byte 99]" "[97, 98, 99]" "[1, 2, 3]" 3 "[Byte 100]"]
  by simp

text \<open>The program accepts a file that holds the three expected lines, the last with or without a newline,
  whatever its uninitialised buffer contains and however often a read is interrupted.\<close>

lemma read_line_main_ok:
  assumes "fs name = Some (r1 @ Byte newline # r2 @ Byte newline # r3 @ e # rest)"
    and "delivers r1 [102, 111, 111]" and "delivers r2 [97, 112, 112, 108, 101, 32, 111, 114, 97, 110, 103, 101]"
    and "delivers r3 [98, 97, 122]" and "e = Byte newline \<or> e = End_Of_File" and "length raw = 32"
  shows "read_line_main fs stdin raw (name # args) = Exit 0 [79, 75, newline]"
proof -
  let ?foo = "[102, 111, 111] :: byte list" and ?apple = "[97, 112, 112, 108, 101, 32, 111, 114, 97, 110, 103, 101] :: byte list"
    and ?baz = "[98, 97, 122] :: byte list"
  let ?rs2 = "r2 @ Byte newline # r3 @ e # rest" and ?rs3 = "r3 @ e # rest"
  let ?b1 = "?foo @ 0 # drop (Suc (length ?foo)) raw"
  have "expect_line ?foo 3 (0, raw, r1 @ Byte newline # ?rs2) = Continue (3, ?b1, ?rs2)"
    using expect_line_ok [OF assms(2), of raw "Byte newline" 0 ?rs2] assms(6) by (simp add: cstring_def)
  moreover let ?b2 = "?apple @ 0 # drop (Suc (length ?apple)) ?b1"
  have "expect_line ?apple 12 (3, ?b1, r2 @ Byte newline # ?rs3) = Continue (12, ?b2, ?rs3)"
    using expect_line_ok [OF assms(3), of ?b1 "Byte newline" 3 ?rs3] assms(6) by (simp add: cstring_def)
  moreover have "expect_line ?baz 3 (12, ?b2, ?rs3) = Continue (3, ?baz @ 0 # drop (Suc (length ?baz)) ?b2, rest)"
    using expect_line_ok [OF assms(4), of ?b2 e 12 rest] assms(5,6) by (simp add: cstring_def)
  ultimately show ?thesis using assms(1) by (simp add: read_line_main_def ok_line_def return_0_def)
qed

end
