(* ===== verification/Dir_Walk.thy ===== *)
theory Dir_Walk
  imports Posix_Io
begin

text \<open>
  \<^verbatim>\<open>src/apue/section04/count_file_types.c\<close>: the recursive walk over a directory that counts the files of each
  type. The path of the file under inspection is kept in one heap buffer that every level of the recursion
  extends and restores, and that a level may move with \<^verbatim>\<open>realloc\<close>. So the heap is explicit: blocks of bytes at
  addresses, and a pointer to a block that was moved or freed is dangling.

  What \<^verbatim>\<open>lstat\<close>, \<^verbatim>\<open>opendir\<close> and \<^verbatim>\<open>readdir\<close> answer for a path and where an allocation is placed are arguments. The
  recursion depth is bounded by fuel; the depth of the directory tree plus one is enough.
\<close>

section \<open>State\<close>

record file_statistic =
  regular_files :: int
  block_devices :: int
  character_devices :: int
  fifos :: int
  links :: int
  sockets :: int
  directories :: int

record sys =
  lstat :: "byte list \<Rightarrow> u32 option"
  opendir :: "byte list \<Rightarrow> byte list list option"
  new_block :: "byte list store \<Rightarrow> nat \<Rightarrow> (addr \<times> byte list) option"

record walk =
  heap :: "byte list store"
  statistic :: file_statistic

text \<open>The result of a walk: the value returned, something undefined, or a recursion deeper than the fuel.\<close>

datatype walked = Ret int walk | Bad | Too_Deep

section \<open>Counting\<close>

definition S_IS :: "u32 \<Rightarrow> u32 \<Rightarrow> bool" where
  "S_IS fmt mode \<longleftrightarrow> and mode 0xf000 = fmt"

abbreviation S_ISREG :: "u32 \<Rightarrow> bool" where "S_ISREG \<equiv> S_IS 0x8000"
abbreviation S_ISBLK :: "u32 \<Rightarrow> bool" where "S_ISBLK \<equiv> S_IS 0x6000"
abbreviation S_ISCHR :: "u32 \<Rightarrow> bool" where "S_ISCHR \<equiv> S_IS 0x2000"
abbreviation S_ISFIFO :: "u32 \<Rightarrow> bool" where "S_ISFIFO \<equiv> S_IS 0x1000"
abbreviation S_ISLNK :: "u32 \<Rightarrow> bool" where "S_ISLNK \<equiv> S_IS 0xa000"
abbreviation S_ISSOCK :: "u32 \<Rightarrow> bool" where "S_ISSOCK \<equiv> S_IS 0xc000"
abbreviation S_ISDIR :: "u32 \<Rightarrow> bool" where "S_ISDIR \<equiv> S_IS 0x4000"

text \<open>\<open>++\<close> on an \<^verbatim>\<open>int\<close>.\<close>

definition incr :: "int \<Rightarrow> int option" where
  "incr n = (if n < 0x7fffffff then Some (n + 1) else None)"

definition file_callback :: "u32 \<Rightarrow> file_statistic \<Rightarrow> file_statistic option" where
  "file_callback mode fs =
     (if S_ISREG mode then map_option (\<lambda>n. fs\<lparr>regular_files := n\<rparr>) (incr (regular_files fs))
      else if S_ISBLK mode then map_option (\<lambda>n. fs\<lparr>block_devices := n\<rparr>) (incr (block_devices fs))
      else if S_ISCHR mode then map_option (\<lambda>n. fs\<lparr>character_devices := n\<rparr>) (incr (character_devices fs))
      else if S_ISFIFO mode then map_option (\<lambda>n. fs\<lparr>fifos := n\<rparr>) (incr (fifos fs))
      else if S_ISLNK mode then map_option (\<lambda>n. fs\<lparr>links := n\<rparr>) (incr (links fs))
      else if S_ISSOCK mode then map_option (\<lambda>n. fs\<lparr>sockets := n\<rparr>) (incr (sockets fs))
      else if S_ISDIR mode then map_option (\<lambda>n. fs\<lparr>directories := n\<rparr>) (incr (directories fs))
      else Some fs)"

section \<open>The path buffer\<close>

definition path_at :: "byte list store \<Rightarrow> addr \<Rightarrow> byte list option" where
  "path_at h a = do { buf \<leftarrow> h a; str_at buf 0 }"

definition poke :: "addr \<Rightarrow> nat \<Rightarrow> byte \<Rightarrow> byte list store \<Rightarrow> byte list store option" where
  "poke a i c h = do { buf \<leftarrow> h a; buf \<leftarrow> array_set buf i c; Some (h(a \<mapsto> buf)) }"

text \<open>\<^verbatim>\<open>strcpy(&path[off], name)\<close>.\<close>

definition poke_string :: "addr \<Rightarrow> nat \<Rightarrow> byte list \<Rightarrow> byte list store \<Rightarrow> byte list store option" where
  "poke_string a off name h = do {
     buf \<leftarrow> h a;
     tail \<leftarrow> (if off \<le> length buf then strcpy (drop off buf) (name @ [0]) else None);
     Some (h(a \<mapsto> take off buf @ tail))
   }"

text \<open>\<^verbatim>\<open>realloc\<close>: null, or a block of the new size with the old contents, at the old place or at another; the
  old block is gone.\<close>

definition realloc_path :: "sys \<Rightarrow> addr \<Rightarrow> nat \<Rightarrow> byte list store \<Rightarrow> (addr \<times> byte list store) option option" where
  "realloc_path sys a n h = do {
     old \<leftarrow> h a;
     Some (case new_block sys h n of
             None \<Rightarrow> None
           | Some (b, raw) \<Rightarrow> Some (b, (h(a := None))(b \<mapsto> take n old @ drop (length old) raw)))
   }"

section \<open>The walk\<close>

definition is_dot :: "byte list \<Rightarrow> bool" where
  "is_dot name \<longleftrightarrow> name = [46] \<or> name = [46, 46]"

text \<open>\<^verbatim>\<open>path[path_len] = '/'; path[path_len + 1] = '\0'\<close>, after making room.\<close>

definition extend_path :: "sys \<Rightarrow> addr \<Rightarrow> nat \<Rightarrow> nat \<Rightarrow> byte list store
    \<Rightarrow> (addr \<times> nat \<times> byte list store) option option" where
  "extend_path sys pathp buf_len path_len h = do {
     r \<leftarrow> (if buf_len div 2 < path_len
          then map_option (map_option (\<lambda>(pathp, h). (pathp, buf_len * 2, h))) (realloc_path sys pathp (buf_len * 2) h)
          else Some (Some (pathp, buf_len, h)));
     case r of
       None \<Rightarrow> Some None
     | Some (pathp, buf_len, h) \<Rightarrow> do {
         h \<leftarrow> poke pathp path_len 47 h;
         h \<leftarrow> poke pathp (path_len + 1) 0 h;
         Some (Some (pathp, buf_len, h))
       }
   }"

function (sequential) dir_walk :: "sys \<Rightarrow> nat \<Rightarrow> addr \<Rightarrow> nat \<Rightarrow> walk \<Rightarrow> walked"
  and walk_entries :: "sys \<Rightarrow> nat \<Rightarrow> addr \<Rightarrow> nat \<Rightarrow> nat \<Rightarrow> byte list list \<Rightarrow> int \<Rightarrow> walk \<Rightarrow> walked" where
  "dir_walk sys 0 pathp buf_len w = Too_Deep"
| "dir_walk sys (Suc k) pathp buf_len w =
     (case path_at (heap w) pathp of None \<Rightarrow> Bad | Some p \<Rightarrow>
     (case lstat sys p of None \<Rightarrow> Ret (- 1) w | Some mode \<Rightarrow>
     (case file_callback mode (statistic w) of None \<Rightarrow> Bad | Some st \<Rightarrow>
      if \<not> S_ISDIR mode then Ret 0 (w\<lparr>statistic := st\<rparr>)
      else
        (case extend_path sys pathp buf_len (length p) (heap w) of None \<Rightarrow> Bad
         | Some None \<Rightarrow> Ret (- 1) (w\<lparr>statistic := st\<rparr>)
         | Some (Some (pathp, buf_len, h)) \<Rightarrow>
             (case path_at h pathp of None \<Rightarrow> Bad | Some q \<Rightarrow>
             (case opendir sys q of None \<Rightarrow> Ret (- 1) (w\<lparr>statistic := st, heap := h\<rparr>)
              | Some names \<Rightarrow>
                  (case walk_entries sys k pathp buf_len (length p + 1) names 0 (w\<lparr>statistic := st, heap := h\<rparr>) of
                     Ret ret w \<Rightarrow> (case poke pathp (length p) 0 (heap w) of None \<Rightarrow> Bad | Some h \<Rightarrow> Ret ret (w\<lparr>heap := h\<rparr>))
                   | r \<Rightarrow> r)))))))"
| "walk_entries sys k pathp buf_len path_end [] ret w = Ret ret w"
| "walk_entries sys k pathp buf_len path_end (name # names) ret w =
     (if is_dot name then walk_entries sys k pathp buf_len path_end names ret w
      else case poke_string pathp path_end name (heap w) of None \<Rightarrow> Bad | Some h \<Rightarrow>
        (case dir_walk sys k pathp buf_len (w\<lparr>heap := h\<rparr>) of
           Ret ret w \<Rightarrow> if ret \<noteq> 0 then Ret ret w else walk_entries sys k pathp buf_len path_end names ret w
         | r \<Rightarrow> r))"
  by pat_completeness auto
termination
  by (relation "measures [\<lambda>x. case x of Inl (sys, k, _) \<Rightarrow> 2 * k | Inr (sys, k, _) \<Rightarrow> 2 * k + 1,
      \<lambda>x. case x of Inl _ \<Rightarrow> 0 | Inr (sys, k, pathp, buf_len, path_end, names, _) \<Rightarrow> length names]") auto

section \<open>The program\<close>

definition statistic_line :: "string \<Rightarrow> int \<Rightarrow> byte list" where
  "statistic_line label n = [9] @ bytes label @ decimal (nat n) @ [newline]"

definition print_statistic :: "byte list \<Rightarrow> file_statistic \<Rightarrow> byte list" where
  "print_statistic dir fs =
     bytes ''Statistic under '' @ dir @ [newline] @
     statistic_line ''regular files:     '' (regular_files fs) @
     statistic_line ''block_devices:     '' (block_devices fs) @
     statistic_line ''character devices: '' (character_devices fs) @
     statistic_line ''fifos:             '' (fifos fs) @
     statistic_line ''symbolic links:    '' (links fs) @
     statistic_line ''sockets:           '' (sockets fs) @
     statistic_line ''directories:       '' (directories fs)"

definition no_files :: file_statistic where
  "no_files = \<lparr>regular_files = 0, block_devices = 0, character_devices = 0, fifos = 0, links = 0, sockets = 0, directories = 0\<rparr>"

definition PATH_MAX :: nat where
  "PATH_MAX = 4096"

text \<open>\<open>usage\<close> is the text for a missing argument. A walk that is too deep for the fuel is shown as \<open>Hang\<close>. The
  final \<^verbatim>\<open>free(file_path)\<close> is defined because the block has just been read.\<close>

definition count_file_types :: "sys \<Rightarrow> nat \<Rightarrow> byte list \<Rightarrow> byte list list \<Rightarrow> byte list run" where
  "count_file_types sys fuel usage args =
     (case args of [] \<Rightarrow> Exit 1 usage
      | dir # _ \<Rightarrow>
        (case new_block sys Map.empty (PATH_MAX + 1) of None \<Rightarrow> Exit 1 []
         | Some (file_path, raw) \<Rightarrow>
           (let h = [file_path \<mapsto> raw]; len = length dir;
                buf_len = (if PATH_MAX + 1 \<le> len then len * 2 else PATH_MAX + 1)
            in case (if PATH_MAX + 1 \<le> len then realloc_path sys file_path buf_len h else Some (Some (file_path, h))) of
                 None \<Rightarrow> Crash
               | Some None \<Rightarrow> Exit 1 []
               | Some (Some (file_path, h)) \<Rightarrow>
                 (case poke_string file_path 0 dir h of None \<Rightarrow> Crash | Some h \<Rightarrow>
                 (case dir_walk sys fuel file_path buf_len \<lparr>heap = h, statistic = no_files\<rparr> of
                    Bad \<Rightarrow> Crash
                  | Too_Deep \<Rightarrow> Hang []
                  | Ret _ w \<Rightarrow>
                    (case path_at (heap w) file_path of None \<Rightarrow> Crash
                     | Some p \<Rightarrow> Exit 0 (print_statistic p (statistic w))))))))"

section \<open>The directory tree\<close>

text \<open>The reference: a tree of named files with their modes, as the system reports it under a path.\<close>

datatype ftree = FNode u32 "(byte list \<times> ftree) list"

fun represents :: "sys \<Rightarrow> byte list \<Rightarrow> ftree \<Rightarrow> bool" where
  "represents sys p (FNode m kids) \<longleftrightarrow>
     lstat sys p = Some m \<and>
     (if S_ISDIR m
      then (case opendir sys (p @ [47]) of None \<Rightarrow> False | Some names \<Rightarrow> filter (\<lambda>n. \<not> is_dot n) names = map fst kids) \<and>
        (\<forall>(n, t) \<in> set kids. represents sys (p @ 47 # n) t)
      else kids = [])"

fun modes :: "ftree \<Rightarrow> u32 list" where
  "modes (FNode m kids) = m # concat (map (\<lambda>(n, t). modes t) kids)"

fun depth :: "ftree \<Rightarrow> nat" where
  "depth (FNode m kids) = Suc (foldr max (map (\<lambda>(n, t). depth t) kids) 0)"

text \<open>Names are C strings of at most 255 bytes, and the paths of directories have at most half the length of the
  first buffer.\<close>

fun short_dirs :: "byte list \<Rightarrow> ftree \<Rightarrow> bool" where
  "short_dirs p (FNode m kids) \<longleftrightarrow>
     (S_ISDIR m \<longrightarrow> length p \<le> 2048) \<and>
     (\<forall>(n, t) \<in> set kids. cstring n \<and> length n \<le> 255 \<and> short_dirs (p @ 47 # n) t)"

definition tally :: "u32 list \<Rightarrow> file_statistic \<Rightarrow> file_statistic" where
  "tally ms fs =
     \<lparr>regular_files = regular_files fs + int (num S_ISREG ms),
      block_devices = block_devices fs + int (num S_ISBLK ms),
      character_devices = character_devices fs + int (num S_ISCHR ms),
      fifos = fifos fs + int (num S_ISFIFO ms),
      links = links fs + int (num S_ISLNK ms),
      sockets = sockets fs + int (num S_ISSOCK ms),
      directories = directories fs + int (num S_ISDIR ms)\<rparr>"

text \<open>No counter overflows while \<open>n\<close> more files are counted.\<close>

definition room :: "nat \<Rightarrow> file_statistic \<Rightarrow> bool" where
  "room n fs \<longleftrightarrow> list_all (\<lambda>c. c + int n \<le> 0x7fffffff)
     [regular_files fs, block_devices fs, character_devices fs, fifos fs, links fs, sockets fs, directories fs]"

lemma num_Cons [simp]: "num P (x # xs) = (if P x then Suc (num P xs) else num P xs)"
  by (simp add: num_def)

lemma num_Nil [simp]: "num P [] = 0"
  by (simp add: num_def)

lemma num_append [simp]: "num P (xs @ ys) = num P xs + num P ys"
  by (simp add: num_def)

lemma tally_Nil [simp]: "tally [] fs = fs"
  by (simp add: tally_def)

lemma tally_tally [simp]: "tally ys (tally xs fs) = tally (xs @ ys) fs"
  by (simp add: tally_def)

lemma file_callback_tally: "room (Suc n) fs \<Longrightarrow> file_callback m fs = Some (tally [m] fs)"
  by (auto simp: room_def file_callback_def tally_def incr_def S_IS_def)

lemma room_tally: "room (length ms + n) fs \<Longrightarrow> room n (tally ms fs)"
  using num_le [of _ ms] by (simp add: room_def tally_def) (smt (verit) of_nat_le_iff)

lemma depth_kid: "(n, t) \<in> set kids \<Longrightarrow> depth t < depth (FNode m kids)"
proof (induction kids)
  case (Cons x kids)
  then show ?case by (auto simp: less_Suc_eq_le max.coboundedI2)
qed simp

section \<open>The walk over a tree\<close>

lemma path_at_block: "h a = Some (p @ 0 # r) \<Longrightarrow> cstring p \<Longrightarrow> path_at h a = Some p"
  by (simp add: path_at_def str_at_def)

lemma poke_block: "h a = Some (p @ c # r) \<Longrightarrow> poke a (length p) x h = Some (h(a \<mapsto> p @ x # r))"
  by (simp add: poke_def)

lemma poke_string_block:
  assumes "h a = Some (p @ r)" and "cstring n" and "length n < length r"
  shows "\<exists>r'. poke_string a (length p) n h = Some (h(a \<mapsto> p @ n @ 0 # r')) \<and> length (n @ 0 # r') = length r"
  using assms by (intro exI [of _ "drop (Suc (length n)) r"]) (simp add: poke_string_def strcpy_def memcpy_def)

lemma extend_path_room:
  assumes "h a = Some (p @ 0 # c # r)" and "length p \<le> buf_len div 2"
  shows "extend_path sys a buf_len (length p) h = Some (Some (a, buf_len, h(a \<mapsto> p @ 47 # 0 # r)))"
  using assms poke_block [of h a p 0 "c # r" 47] poke_block [of "h(a \<mapsto> p @ 47 # c # r)" a "p @ [47]" c r 0]
  by (simp add: extend_path_def)

text \<open>A call that leaves the bytes \<open>q\<close> and \<open>n\<close> more in the block at \<open>a\<close>, counts the files of the modes \<open>ms\<close> and returns 0.\<close>

definition counts :: "addr \<Rightarrow> byte list \<Rightarrow> nat \<Rightarrow> u32 list \<Rightarrow> walk \<Rightarrow> walked \<Rightarrow> bool" where
  "counts a q n ms w res \<longleftrightarrow>
    (\<exists>r. res = Ret 0 \<lparr>heap = (heap w)(a \<mapsto> q @ r), statistic = tally ms (statistic w)\<rparr> \<and> length r = n)"

lemma countsE:
  assumes "counts a q n ms w res"
  obtains r where "res = Ret 0 \<lparr>heap = (heap w)(a \<mapsto> q @ r), statistic = tally ms (statistic w)\<rparr>" "length r = n"
  using assms by (auto simp: counts_def)

text \<open>The loop over the entries counts the files below each of them, when each recursive call does.\<close>

lemma walk_entries_ok:
  assumes step: "\<And>n t w r. (n, t) \<in> set kids \<Longrightarrow> heap w a = Some (p @ 47 # n @ 0 # r) \<Longrightarrow> length (p @ 47 # n @ 0 # r) = buf_len \<Longrightarrow>
      room (length (modes t)) (statistic w) \<Longrightarrow> counts a (p @ 47 # n @ [0]) (length r) (modes t) w (dir_walk sys k a buf_len w)"
    and names: "\<forall>(n, t) \<in> set kids. cstring n \<and> length p + length n + 2 \<le> buf_len" and "filter (\<lambda>n. \<not> is_dot n) ns = map fst kids"
    and "heap w a = Some (p @ 47 # r)" and "length (p @ 47 # r) = buf_len"
    and "room (length (concat (map (\<lambda>(n, t). modes t) kids))) (statistic w)"
  shows "counts a (p @ [47]) (length r) (concat (map (\<lambda>(n, t). modes t) kids)) w
    (walk_entries sys k a buf_len (Suc (length p)) ns 0 w)"
  using assms
proof (induction ns arbitrary: kids w r)
  case Nil
  then show ?case unfolding counts_def by (intro exI [of _ r]) (simp add: fun_upd_idem)
next
  case (Cons n ns)
  show ?case
  proof (cases "is_dot n")
    case True
    then show ?thesis using Cons.IH [OF Cons.prems(1,2) _ Cons.prems(4-6)] Cons.prems(3) by simp
  next
    case False
    then obtain t kids' where kids: "kids = (n, t) # kids'" "filter (\<lambda>n. \<not> is_dot n) ns = map fst kids'"
      using Cons.prems(3) by auto
    obtain r1 where r1: "poke_string a (Suc (length p)) n (heap w) = Some ((heap w)(a \<mapsto> p @ 47 # n @ 0 # r1))"
      "length (n @ 0 # r1) = length r"
      using poke_string_block [of "heap w" a "p @ [47]" r n] Cons.prems(2,4,5) kids(1) by auto
    let ?w1 = "w\<lparr>heap := (heap w)(a \<mapsto> p @ 47 # n @ 0 # r1)\<rparr>"
    have "counts a (p @ 47 # n @ [0]) (length r1) (modes t) ?w1 (dir_walk sys k a buf_len ?w1)"
      using Cons.prems(5,6) kids(1) r1(2) by (intro Cons.prems(1)) (auto simp: room_def)
    then obtain r2 where r2: "dir_walk sys k a buf_len ?w1 =
        Ret 0 \<lparr>heap = (heap ?w1)(a \<mapsto> p @ 47 # n @ 0 # r2), statistic = tally (modes t) (statistic ?w1)\<rparr>" "length r2 = length r1"
      by (elim countsE) simp
    let ?w2 = "\<lparr>heap = (heap ?w1)(a \<mapsto> p @ 47 # n @ 0 # r2), statistic = tally (modes t) (statistic ?w1)\<rparr>"
    have "counts a (p @ [47]) (length (n @ 0 # r2)) (concat (map (\<lambda>(n, t). modes t) kids')) ?w2
        (walk_entries sys k a buf_len (Suc (length p)) ns 0 ?w2)"
      using Cons.prems(1,2,5,6) kids r1(2) r2(2) by (intro Cons.IH) (auto simp: room_tally)
    then show ?thesis using False r1 r2 kids(1) by (auto simp: counts_def)
  qed
qed

text \<open>A directory whose path fits: the path is extended by the slash, the entries are counted, and the path is restored.\<close>

lemma dir_walk_directory:
  assumes "lstat sys p = Some m" and "S_ISDIR m" and "opendir sys (p @ [47]) = Some names"
    and "heap w a = Some (p @ 0 # c # r)" and "cstring p" and "length p \<le> buf_len div 2" and "room (Suc n) (statistic w)"
    and "w1 = w\<lparr>statistic := tally [m] (statistic w), heap := (heap w)(a \<mapsto> p @ 47 # 0 # r)\<rparr>"
    and "counts a (p @ [47]) (Suc (length r)) ms w1 (walk_entries sys k a buf_len (Suc (length p)) names 0 w1)"
  shows "counts a (p @ [0]) (Suc (length r)) (m # ms) w (dir_walk sys (Suc k) a buf_len w)"
proof -
  let ?h = "(heap w)(a \<mapsto> p @ 47 # 0 # r)"
  have p: "path_at (heap w) a = Some p" and q: "path_at ?h a = Some (p @ [47])"
    using assms(4,5) path_at_block [of ?h a "p @ [47]" r] path_at_block by (auto simp: cstring_def)
  have cb: "file_callback m (statistic w) = Some (tally [m] (statistic w))" using file_callback_tally assms(7) .
  have ext: "extend_path sys a buf_len (length p) (heap w) = Some (Some (a, buf_len, ?h))"
    using extend_path_room assms(4,6) by blast
  from assms(9) obtain r' where r': "walk_entries sys k a buf_len (Suc (length p)) names 0 w1 =
      Ret 0 \<lparr>heap = (heap w1)(a \<mapsto> p @ 47 # r'), statistic = tally ms (statistic w1)\<rparr>" "length r' = Suc (length r)"
    by (elim countsE) simp
  have "poke a (length p) 0 ((heap w1)(a \<mapsto> p @ 47 # r')) = Some ((heap w)(a \<mapsto> p @ 0 # r'))"
    using poke_block [of "(heap w1)(a \<mapsto> p @ 47 # r')" a p 47 r' 0] assms(8) by simp
  then show ?thesis using assms(1-3,8) p q cb ext r' by (auto simp: counts_def)
qed

lemma dir_walk_ok:
  assumes "represents sys p t" and "short_dirs p t" and "depth t \<le> k" and "heap w a = Some (p @ 0 # r)" and "cstring p"
    and "length (p @ 0 # r) = buf_len" and "4097 \<le> buf_len" and "room (length (modes t)) (statistic w)"
  shows "counts a (p @ [0]) (length r) (modes t) w (dir_walk sys k a buf_len w)"
  using assms
proof (induction k arbitrary: p t w r)
  case 0
  then show ?case by (cases t) simp
next
  case (Suc k)
  obtain m kids where t: "t = FNode m kids" by (cases t)
  have room: "room (Suc (length (concat (map (\<lambda>(n, t). modes t) kids)))) (statistic w)" using Suc.prems(8) t by simp
  show ?case
  proof (cases "S_ISDIR m")
    case False
    have "path_at (heap w) a = Some p" using Suc.prems(4,5) path_at_block by blast
    then show ?thesis using False Suc.prems(1,4) t file_callback_tally [OF room] unfolding counts_def
      by (intro exI [of _ r]) (simp add: fun_upd_idem)
  next
    case True
    obtain names where names: "opendir sys (p @ [47]) = Some names" "filter (\<lambda>n. \<not> is_dot n) names = map fst kids"
      using Suc.prems(1) t True by (auto split: option.splits)
    have len: "length p \<le> 2048" using Suc.prems(2) t True by simp
    then obtain c r1 where r1: "r = c # r1" using Suc.prems(6,7) by (cases r) auto
    let ?w1 = "w\<lparr>statistic := tally [m] (statistic w), heap := (heap w)(a \<mapsto> p @ 47 # 0 # r1)\<rparr>"
    have "counts a (p @ [47]) (length (0 # r1)) (concat (map (\<lambda>(n, t). modes t) kids)) ?w1
        (walk_entries sys k a buf_len (Suc (length p)) names 0 ?w1)"
    proof (rule walk_entries_ok [OF _ _ names(2)])
      fix n u r' and w' :: walk
      assume u: "(n, u) \<in> set kids" and *: "heap w' a = Some (p @ 47 # n @ 0 # r')"
        "length (p @ 47 # n @ 0 # r') = buf_len" "room (length (modes u)) (statistic w')"
      have "depth u \<le> k" using depth_kid [OF u, of m] Suc.prems(3) t by simp
      moreover have "represents sys (p @ 47 # n) u" "short_dirs (p @ 47 # n) u" "cstring (p @ 47 # n)"
        using Suc.prems(1,2,5) t True u by (auto simp: cstring_def)
      ultimately show "counts a (p @ 47 # n @ [0]) (length r') (modes u) w' (dir_walk sys k a buf_len w')"
        using Suc.IH [of "p @ 47 # n" u w' r'] * Suc.prems(7) unfolding append_assoc append_Cons by blast
    qed (use Suc.prems(2,6,7) room_tally [of "[m]"] room len t r1 in fastforce)+
    then show ?thesis
      using dir_walk_directory [OF _ True names(1), of w a c r1 buf_len] Suc.prems(1,4,5,7) room len t r1 by simp
  qed
qed

section \<open>Properties\<close>

text \<open>The path buffer of \<open>main\<close>.\<close>

lemma main_buffer:
  assumes "length raw = 4097" and "cstring dir" and "length dir \<le> 4096"
  obtains r where "poke_string a 0 dir [a \<mapsto> raw] = Some [a \<mapsto> dir @ 0 # r]" "length (dir @ 0 # r) = 4097"
proof -
  obtain r' where r': "poke_string a 0 dir [a \<mapsto> raw] = Some ([a \<mapsto> raw](a \<mapsto> [] @ dir @ 0 # r'))" "length (dir @ 0 # r') = length raw"
    using poke_string_block [of "[a \<mapsto> raw]" a "[]" raw dir] assms by auto
  then show ?thesis using that [of r'] assms(1) by simp
qed

text \<open>C12. The program counts right: if the directory tree under its argument has no directory path longer than
  half the path buffer (2048 bytes), no name longer than 255 bytes and no more than \<^verbatim>\<open>INT_MAX\<close> files, and the
  path buffer can be allocated, it visits every file of the tree exactly
  once, never stores outside the buffer, and prints, with the path restored, for each type the number of files
  of that type, the directory itself included.\<close>

theorem count_file_types_counts:
  assumes "represents sys dir t" and "short_dirs dir t" and "cstring dir" and "length dir \<le> 4096"
    and "depth t \<le> fuel" and "length (modes t) \<le> 0x7fffffff"
    and "new_block sys Map.empty 4097 = Some (a, raw)" and "length raw = 4097"
  shows "count_file_types sys fuel usage (dir # args) = Exit 0 (print_statistic dir (tally (modes t) no_files))"
proof -
  obtain r where r: "poke_string a 0 dir [a \<mapsto> raw] = Some [a \<mapsto> dir @ 0 # r]" "length (dir @ 0 # r) = 4097"
    using main_buffer [OF assms(8,3,4)] .
  have "room (length (modes t)) no_files" using assms(6) by (simp add: room_def no_files_def)
  then obtain r' where r': "dir_walk sys fuel a 4097 \<lparr>heap = [a \<mapsto> dir @ 0 # r], statistic = no_files\<rparr> =
      Ret 0 \<lparr>heap = [a \<mapsto> dir @ 0 # r](a \<mapsto> dir @ 0 # r'), statistic = tally (modes t) no_files\<rparr>"
    using dir_walk_ok [OF assms(1,2,5) _ assms(3) r(2), of "\<lparr>heap = [a \<mapsto> dir @ 0 # r], statistic = no_files\<rparr>" a]
    by (auto elim!: countsE)
  have "path_at ([a \<mapsto> dir @ 0 # r](a \<mapsto> dir @ 0 # r')) a = Some dir" using assms(3) by (intro path_at_block) simp_all
  then show ?thesis using r(1) r' assms(4,7) by (simp add: count_file_types_def PATH_MAX_def Let_def)
qed

text \<open>A directory with an empty directory and a fifo.\<close>

definition small_sys :: sys where
  "small_sys =
     \<lparr>lstat = \<lambda>p. if p = [100] then Some 0x41ed else if p = [100, 47, 101] then Some 0x41ed
        else if p = [100, 47, 102] then Some 0x11a4 else None,
      opendir = \<lambda>p. if p = [100, 47] then Some [[46], [102], [46, 46], [101]] else Some [[46], [46, 46]],
      new_block = \<lambda>h n. Some (0, replicate n 0)\<rparr>"

theorem count_file_types_counts_witness:
  "count_file_types small_sys 2 [] [[100]] =
    Exit 0 (print_statistic [100] (no_files\<lparr>fifos := 1, directories := 2\<rparr>))"
proof -
  have "tally (modes (FNode 0x41ed [([102], FNode 0x11a4 []), ([101], FNode 0x41ed [])])) no_files =
      no_files\<lparr>fifos := 1, directories := 2\<rparr>"
    by (simp add: tally_def no_files_def S_IS_def)
  then show ?thesis
    using count_file_types_counts [of small_sys "[100]" "FNode 0x41ed [([102], FNode 0x11a4 []), ([101], FNode 0x41ed [])]" 2
        0 "replicate 4097 0" "[]" "[]"]
    by (simp add: small_sys_def S_IS_def is_dot_def cstring_def)
qed



end
