(* ===== verification/Snake.thy ===== *)
theory Snake
  imports C_Prelude
begin

text \<open>
  \<^verbatim>\<open>src/snake01/main.cpp\<close>: the game of snake. The two classes are a list of points and a record; the loop of
  \<open>main\<close> is a function on the keys that \<^verbatim>\<open>getch\<close> reports. The points that the random distributions produce
  are an argument, a sequence; \<open>GenerateNewFood\<close> draws until a point is free, so it may not return, and
  \<open>None\<close> is \<^emph>\<open>does not return\<close> (or, for the front of an empty list, \<^emph>\<open>undefined\<close>).
\<close>

section \<open>Points and actions\<close>

datatype Action = kLeft | kRight | kUp | kDown

record Point =
  px :: int
  py :: int

section \<open>The snake\<close>

type_synonym snake = "Point list"

definition Contains :: "snake \<Rightarrow> Point \<Rightarrow> bool" where
  "Contains points p \<longleftrightarrow> p \<in> set points"

definition moved :: "Action \<Rightarrow> Point \<Rightarrow> Point" where
  "moved action p =
     (case action of
        kLeft \<Rightarrow> p\<lparr>px := px p - 1\<rparr>
      | kRight \<Rightarrow> p\<lparr>px := px p + 1\<rparr>
      | kUp \<Rightarrow> p\<lparr>py := py p - 1\<rparr>
      | kDown \<Rightarrow> p\<lparr>py := py p + 1\<rparr>)"

definition NextPoint :: "Action \<Rightarrow> snake \<Rightarrow> Point option" where
  "NextPoint action points = (case points of [] \<Rightarrow> None | p # _ \<Rightarrow> Some (moved action p))"

definition IsColliding :: "snake \<Rightarrow> Point \<Rightarrow> bool" where
  "IsColliding points p \<longleftrightarrow> p \<in> set points"

definition Prepend :: "Point \<Rightarrow> snake \<Rightarrow> snake" where
  "Prepend p points = p # points"

definition Move :: "Point \<Rightarrow> snake \<Rightarrow> snake" where
  "Move p points = butlast (p # points)"

section \<open>The board\<close>

record Board =
  snake :: snake
  foods :: "Point list"
  rows :: int
  columns :: int
  drawn :: nat

definition ContainsInFoods :: "Board \<Rightarrow> Point \<Rightarrow> bool" where
  "ContainsInFoods b p \<longleftrightarrow> p \<in> set (foods b)"

definition IsValidPoint :: "Board \<Rightarrow> Point \<Rightarrow> bool" where
  "IsValidPoint b p \<longleftrightarrow> 0 \<le> px p \<and> px p < columns b \<and> 0 \<le> py p \<and> py p < rows b"

definition free_point :: "Board \<Rightarrow> Point \<Rightarrow> bool" where
  "free_point b p \<longleftrightarrow> \<not> Contains (snake b) p \<and> \<not> ContainsInFoods b p"

partial_function (option) GenerateNewFood :: "(nat \<Rightarrow> Point) \<Rightarrow> Board \<Rightarrow> Board option" where
  "GenerateNewFood rnd b =
     (let p = rnd (drawn b); b = b\<lparr>drawn := drawn b + 1\<rparr>
      in if free_point b p then Some (b\<lparr>foods := foods b @ [p]\<rparr>) else GenerateNewFood rnd b)"

declare GenerateNewFood.simps [code]

definition MoveSnake :: "(nat \<Rightarrow> Point) \<Rightarrow> Action \<Rightarrow> Board \<Rightarrow> (bool \<times> Board) option" where
  "MoveSnake rnd action b = do {
     next \<leftarrow> NextPoint action (snake b);
     if \<not> IsValidPoint b next then Some (False, b)
     else if IsColliding (snake b) next then Some (False, b)
     else if ContainsInFoods b next
     then do {
       b \<leftarrow> GenerateNewFood rnd (b\<lparr>snake := Prepend next (snake b), foods := remove1 next (foods b)\<rparr>);
       Some (True, b)
     }
     else Some (True, b\<lparr>snake := Move next (snake b)\<rparr>)
   }"

text \<open>The constructor.\<close>

fun generate_foods :: "(nat \<Rightarrow> Point) \<Rightarrow> nat \<Rightarrow> Board \<Rightarrow> Board option" where
  "generate_foods rnd 0 b = Some b"
| "generate_foods rnd (Suc n) b = do { b \<leftarrow> GenerateNewFood rnd b; generate_foods rnd n b }"

definition new_board :: "(nat \<Rightarrow> Point) \<Rightarrow> snake \<Rightarrow> int \<Rightarrow> int \<Rightarrow> nat \<Rightarrow> Board option" where
  "new_board rnd sn max_y max_x init_foods =
     generate_foods rnd init_foods \<lparr>snake = sn, foods = [], rows = max_y, columns = max_x, drawn = 0\<rparr>"

text \<open>What is drawn on the screen: row, column and symbol.\<close>

datatype symbol = ACS_BLOCK | ACS_DIAMOND

definition snake_Display :: "snake \<Rightarrow> (int \<times> int \<times> symbol) list" where
  "snake_Display points = map (\<lambda>p. (py p, px p, ACS_BLOCK)) points"

definition board_Display :: "Board \<Rightarrow> (int \<times> int \<times> symbol) list" where
  "board_Display b = snake_Display (snake b) @ map (\<lambda>p. (py p, px p, ACS_DIAMOND)) (foods b)"

section \<open>The game\<close>

datatype key = KEY_LEFT | KEY_RIGHT | KEY_UP | KEY_DOWN | Other_Key

definition ReadNextAction :: "key \<Rightarrow> Action \<Rightarrow> Action" where
  "ReadNextAction ch prev =
     (case ch of
        KEY_LEFT \<Rightarrow> if prev \<noteq> kRight then kLeft else prev
      | KEY_RIGHT \<Rightarrow> if prev \<noteq> kLeft then kRight else prev
      | KEY_UP \<Rightarrow> if prev \<noteq> kDown then kUp else prev
      | KEY_DOWN \<Rightarrow> if prev \<noteq> kUp then kDown else prev
      | Other_Key \<Rightarrow> prev)"

record game =
  board :: Board
  action :: Action
  screen :: "(int \<times> int \<times> symbol) list"

text \<open>The loop of \<open>main\<close> on the keys read: whether the game goes on, and its state.\<close>

definition round :: "(nat \<Rightarrow> Point) \<Rightarrow> key \<Rightarrow> game \<Rightarrow> (bool \<times> game) option" where
  "round rnd ch g = do {
     let g = g\<lparr>screen := board_Display (board g), action := ReadNextAction ch (action g)\<rparr>;
     (alive, b) \<leftarrow> MoveSnake rnd (action g) (board g);
     Some (alive, g\<lparr>board := b\<rparr>)
   }"

fun play :: "(nat \<Rightarrow> Point) \<Rightarrow> key list \<Rightarrow> game \<Rightarrow> (bool \<times> game) option" where
  "play rnd [] g = Some (True, g)"
| "play rnd (ch # chs) g = do { (alive, g) \<leftarrow> round rnd ch g; if alive then play rnd chs g else Some (False, g) }"

definition init_snake_position :: snake where
  "init_snake_position = [\<lparr>px = 2, py = 3\<rparr>, \<lparr>px = 2, py = 2\<rparr>]"

definition snake_main :: "(nat \<Rightarrow> Point) \<Rightarrow> int \<Rightarrow> int \<Rightarrow> key list \<Rightarrow> (bool \<times> game) option" where
  "snake_main rnd max_y max_x keys = do {
     b \<leftarrow> new_board rnd init_snake_position max_y max_x 6;
     play rnd keys \<lparr>board = b, action = kRight, screen = []\<rparr>
   }"

section \<open>Drawing food\<close>

lemmas member_defs = Contains_def IsColliding_def ContainsInFoods_def

lemma free_point_drawn [simp]: "free_point (b\<lparr>drawn := n\<rparr>) p = free_point b p"
  by (simp add: free_point_def member_defs)

lemma GenerateNewFood_first:
  "free_point b (rnd (drawn b + n)) \<Longrightarrow> \<forall>i < n. \<not> free_point b (rnd (drawn b + i)) \<Longrightarrow>
   GenerateNewFood rnd b = Some (b\<lparr>foods := foods b @ [rnd (drawn b + n)], drawn := drawn b + n + 1\<rparr>)"
proof (induction n arbitrary: b)
  case 0
  then show ?case by (simp add: GenerateNewFood.simps Let_def)
next
  case (Suc n)
  let ?b = "b\<lparr>drawn := drawn b + 1\<rparr>"
  have "GenerateNewFood rnd b = GenerateNewFood rnd ?b"
    using Suc.prems(2) by (subst GenerateNewFood.simps) (auto simp: Let_def)
  moreover have "\<not> free_point b (rnd (Suc (drawn b + i)))" if "i < n" for i using Suc.prems(2) that by (metis add_Suc_right Suc_less_eq)
  ultimately show ?case using Suc.IH [of ?b] Suc.prems(1) by simp
qed

lemma GenerateNewFood_Some:
  assumes "GenerateNewFood rnd b = Some b'"
  obtains n where "free_point b (rnd (drawn b + n))"
    "b' = b\<lparr>foods := foods b @ [rnd (drawn b + n)], drawn := drawn b + n + 1\<rparr>"
proof -
  have "\<exists>n. free_point b (rnd (drawn b + n)) \<and> b' = b\<lparr>foods := foods b @ [rnd (drawn b + n)], drawn := drawn b + n + 1\<rparr>"
  proof (rule GenerateNewFood.raw_induct [OF _ assms, of "\<lambda>rnd b b'. \<exists>n. free_point b (rnd (drawn b + n)) \<and>
        b' = b\<lparr>foods := foods b @ [rnd (drawn b + n)], drawn := drawn b + n + 1\<rparr>"])
    fix G rnd b b'
    assume IH: "\<And>rnd b b'. G rnd b = Some b' \<Longrightarrow> \<exists>n. free_point b (rnd (drawn b + n)) \<and>
        b' = b\<lparr>foods := foods b @ [rnd (drawn b + n)], drawn := drawn b + n + 1\<rparr>"
      and G: "(let p = rnd (drawn b); b = b\<lparr>drawn := drawn b + 1\<rparr>
        in if free_point b p then Some (b\<lparr>foods := foods b @ [p]\<rparr>) else G rnd b) = Some b'"
    show "\<exists>n. free_point b (rnd (drawn b + n)) \<and> b' = b\<lparr>foods := foods b @ [rnd (drawn b + n)], drawn := drawn b + n + 1\<rparr>"
    proof (cases "free_point b (rnd (drawn b))")
      case True
      then show ?thesis using G by (intro exI [of _ 0]) (auto simp: Let_def)
    next
      case False
      then obtain n where n: "free_point b (rnd (drawn b + 1 + n))"
        "b' = b\<lparr>foods := foods b @ [rnd (drawn b + 1 + n)], drawn := drawn b + 1 + n + 1\<rparr>"
        using G IH [of rnd "b\<lparr>drawn := drawn b + 1\<rparr>" b'] by (auto simp: Let_def)
      then show ?thesis by (intro exI [of _ "Suc n"]) simp
    qed
  qed
  then show ?thesis using that by blast
qed

section \<open>The invariant of the board\<close>

definition adjacent :: "Point \<Rightarrow> Point \<Rightarrow> bool" where
  "adjacent p q \<longleftrightarrow> (\<exists>a. p = moved a q)"

text \<open>The distributions draw from closed ranges, so a food may lie on row \<open>rows\<close> or column \<open>columns\<close>, one outside
  the board.\<close>

definition in_draw_range :: "int \<Rightarrow> int \<Rightarrow> Point \<Rightarrow> bool" where
  "in_draw_range max_y max_x p \<longleftrightarrow> 0 \<le> px p \<and> px p \<le> max_x \<and> 0 \<le> py p \<and> py p \<le> max_y"

definition board_inv :: "Board \<Rightarrow> bool" where
  "board_inv b \<longleftrightarrow>
     2 \<le> length (snake b) \<and> distinct (snake b) \<and> list_all (IsValidPoint b) (snake b) \<and>
     successively adjacent (snake b) \<and>
     distinct (foods b) \<and> list_all (in_draw_range (rows b) (columns b)) (foods b) \<and>
     set (snake b) \<inter> set (foods b) = {}"

lemma IsValidPoint_cong [simp]:
  "IsValidPoint (b\<lparr>snake := s\<rparr>) = IsValidPoint b" "IsValidPoint (b\<lparr>foods := f\<rparr>) = IsValidPoint b"
  "IsValidPoint (b\<lparr>drawn := n\<rparr>) = IsValidPoint b"
  by (auto simp: IsValidPoint_def)

lemma GenerateNewFood_inv:
  assumes "GenerateNewFood rnd b = Some b'" and "board_inv b" and "\<forall>n. in_draw_range (rows b) (columns b) (rnd n)"
  shows "board_inv b'" and "length (foods b') = Suc (length (foods b))" and "snake b' = snake b"
    and "rows b' = rows b" and "columns b' = columns b"
proof -
  obtain n where n: "free_point b (rnd (drawn b + n))" "b' = b\<lparr>foods := foods b @ [rnd (drawn b + n)], drawn := drawn b + n + 1\<rparr>"
    using GenerateNewFood_Some [OF assms(1)] .
  then show "board_inv b'" using assms(2,3) by (auto simp: board_inv_def free_point_def member_defs)
  show "length (foods b') = Suc (length (foods b))" "snake b' = snake b" "rows b' = rows b" "columns b' = columns b"
    using n(2) by simp_all
qed

lemma generate_foods_inv:
  "generate_foods rnd n b = Some b' \<Longrightarrow> board_inv b \<Longrightarrow> \<forall>n. in_draw_range (rows b) (columns b) (rnd n) \<Longrightarrow>
   board_inv b' \<and> length (foods b') = length (foods b) + n \<and> snake b' = snake b \<and> rows b' = rows b \<and> columns b' = columns b"
proof (induction n arbitrary: b)
  case (Suc n)
  then obtain b1 where b1: "GenerateNewFood rnd b = Some b1" "generate_foods rnd n b1 = Some b'" by (auto simp: bind_eq_Some_conv)
  note inv = GenerateNewFood_inv [OF b1(1) Suc.prems(2,3)]
  show ?case using Suc.IH [OF b1(2) inv(1)] inv Suc.prems(3) by simp
qed auto

lemma MoveSnake_cases:
  assumes "MoveSnake rnd a b = Some (alive, b')" and "board_inv b"
  obtains (dead) "\<not> alive" "b' = b"
  | (eat) p ps where "alive" "snake b = p # ps" "IsValidPoint b (moved a p)" "moved a p \<notin> set (snake b)" "moved a p \<in> set (foods b)"
      "GenerateNewFood rnd (b\<lparr>snake := moved a p # snake b, foods := remove1 (moved a p) (foods b)\<rparr>) = Some b'"
  | (move) p ps where "alive" "snake b = p # ps" "IsValidPoint b (moved a p)" "moved a p \<notin> set (snake b)" "moved a p \<notin> set (foods b)"
      "b' = b\<lparr>snake := moved a p # butlast (snake b)\<rparr>"
proof -
  obtain p ps where s: "snake b = p # ps" using assms(2) by (cases "snake b") (auto simp: board_inv_def)
  let ?n = "moved a p" and ?b = "b\<lparr>snake := moved a p # snake b, foods := remove1 (moved a p) (foods b)\<rparr>"
  have m: "MoveSnake rnd a b =
      (if \<not> IsValidPoint b ?n \<or> ?n \<in> set (snake b) then Some (False, b)
       else if ?n \<in> set (foods b) then map_option (\<lambda>b. (True, b)) (GenerateNewFood rnd ?b)
       else Some (True, b\<lparr>snake := ?n # butlast (snake b)\<rparr>))"
    using s by (simp add: MoveSnake_def NextPoint_def member_defs Prepend_def Move_def map_conv_bind_option comp_def)
  consider "\<not> IsValidPoint b ?n \<or> ?n \<in> set (snake b)"
    | "IsValidPoint b ?n" "?n \<notin> set (snake b)" "?n \<in> set (foods b)"
    | "IsValidPoint b ?n" "?n \<notin> set (snake b)" "?n \<notin> set (foods b)" by blast
  then show ?thesis
  proof cases
    case 1
    then show ?thesis using assms(1) m dead by simp
  next
    case 2
    then show ?thesis using assms(1) m eat [OF _ s] by auto
  next
    case 3
    then show ?thesis using assms(1) m move [OF _ s] by auto
  qed
qed

lemma board_inv_grow:
  assumes "board_inv b" and "snake b = p # ps" and "IsValidPoint b (moved a p)" and "moved a p \<notin> set (snake b)"
  shows "board_inv (b\<lparr>snake := moved a p # snake b, foods := remove1 (moved a p) (foods b)\<rparr>)"
proof -
  have "distinct (foods b)" using assms(1) by (simp add: board_inv_def)
  then have "set (remove1 (moved a p) (foods b)) = set (foods b) - {moved a p}" "distinct (remove1 (moved a p) (foods b))"
    by simp_all
  moreover have "adjacent (moved a p) p" by (auto simp: adjacent_def)
  ultimately show ?thesis using assms by (auto simp: board_inv_def list_all_iff)
qed

lemma board_inv_move:
  assumes "board_inv b" and "snake b = p # ps" and "IsValidPoint b (moved a p)" and "moved a p \<notin> set (snake b)"
    and "moved a p \<notin> set (foods b)"
  shows "board_inv (b\<lparr>snake := moved a p # butlast (snake b)\<rparr>)"
proof -
  obtain q qs where ps: "ps = q # qs" using assms(1,2) by (cases ps) (auto simp: board_inv_def)
  have sub: "set (butlast (snake b)) \<subseteq> set (snake b)" by (auto dest: in_set_butlastD)
  have "successively adjacent (butlast (snake b))"
    using assms(1) successively_append_iff [of adjacent "butlast (snake b)" "[last (snake b)]"] assms(2)
    by (auto simp: board_inv_def)
  moreover have "butlast (snake b) = p # butlast ps" using assms(2) ps by simp
  ultimately have "successively adjacent (moved a p # butlast (snake b))" by (auto simp: adjacent_def)
  then show ?thesis using assms sub by (auto simp: board_inv_def list_all_iff distinct_butlast dest: in_set_butlastD)
qed

lemma MoveSnake_inv:
  assumes "MoveSnake rnd a b = Some (alive, b')" and "board_inv b" and "\<forall>n. in_draw_range (rows b) (columns b) (rnd n)"
  shows "board_inv b' \<and> length (foods b') = length (foods b) \<and> rows b' = rows b \<and> columns b' = columns b"
  using assms(1,2)
proof (cases rule: MoveSnake_cases)
  case (eat p ps)
  let ?b = "b\<lparr>snake := moved a p # snake b, foods := remove1 (moved a p) (foods b)\<rparr>"
  have "\<forall>n. in_draw_range (rows ?b) (columns ?b) (rnd n)" using assms(3) by simp
  note inv = GenerateNewFood_inv [OF eat(6) board_inv_grow [OF assms(2) eat(2-4)] this]
  moreover have "length (foods b) = Suc (length (remove1 (moved a p) (foods b)))"
    using eat(5) length_pos_if_in_set [OF eat(5)] by (simp add: length_remove1)
  ultimately show ?thesis by simp
qed (use assms(2) board_inv_move [OF assms(2)] in auto)

section \<open>Where the snake is heading\<close>

definition heading :: "game \<Rightarrow> bool" where
  "heading g \<longleftrightarrow> (\<exists>p ps. snake (board g) = moved (action g) p # p # ps)"

lemma MoveSnake_heading:
  assumes "MoveSnake rnd a b = Some (True, b')" and "board_inv b" and "\<forall>n. in_draw_range (rows b) (columns b) (rnd n)"
  shows "\<exists>p ps. snake b' = moved a p # p # ps"
  using assms(1,2)
proof (cases rule: MoveSnake_cases)
  case (eat p ps)
  then show ?thesis using GenerateNewFood_inv(3) [OF eat(6) board_inv_grow [OF assms(2) eat(2-4)]] assms(3) by auto
next
  case (move p ps)
  moreover from this have "ps \<noteq> []" using assms(2) by (auto simp: board_inv_def)
  ultimately show ?thesis by auto
qed simp

lemma moved_back: "moved a' (moved a p) = p \<longleftrightarrow> {a, a'} = {kLeft, kRight} \<or> {a, a'} = {kUp, kDown}"
  by (cases a; cases a'; cases p) (auto simp: moved_def doubleton_eq_iff)

lemma ReadNextAction_not_back: "moved (ReadNextAction ch a) (moved a p) \<noteq> p"
  by (cases a; cases ch) (auto simp: ReadNextAction_def moved_back doubleton_eq_iff)

section \<open>The game\<close>

definition game_inv :: "int \<Rightarrow> int \<Rightarrow> game \<Rightarrow> bool" where
  "game_inv max_y max_x g \<longleftrightarrow>
     board_inv (board g) \<and> length (foods (board g)) = 6 \<and> rows (board g) = max_y \<and> columns (board g) = max_x"

lemma round_inv:
  assumes "round rnd ch g = Some (alive, g')" and "game_inv max_y max_x g" and "\<forall>n. in_draw_range max_y max_x (rnd n)"
  shows "game_inv max_y max_x g'" and "alive \<Longrightarrow> heading g'"
proof -
  obtain b where b: "MoveSnake rnd (ReadNextAction ch (action g)) (board g) = Some (alive, b)" "board g' = b"
    "action g' = ReadNextAction ch (action g)"
    using assms(1) by (auto simp: round_def bind_eq_Some_conv Let_def)
  have r: "\<forall>n. in_draw_range (rows (board g)) (columns (board g)) (rnd n)" using assms(2,3) by (simp add: game_inv_def)
  show "game_inv max_y max_x g'" using MoveSnake_inv [OF b(1) _ r] assms(2) b(2) by (simp add: game_inv_def)
  show "heading g'" if alive using MoveSnake_heading [OF _ _ r] b assms(2) that by (simp add: game_inv_def heading_def)
qed

lemma play_inv:
  assumes "play rnd keys g = Some (alive, g')" and "game_inv max_y max_x g" and "\<forall>n. in_draw_range max_y max_x (rnd n)"
  shows "game_inv max_y max_x g' \<and> (alive \<and> (keys \<noteq> [] \<or> heading g) \<longrightarrow> heading g') \<and> (keys = [] \<longrightarrow> g' = g)"
  using assms(1,2)
proof (induction keys arbitrary: g)
  case (Cons ch chs)
  then obtain al g1 where g1: "round rnd ch g = Some (al, g1)" "(if al then play rnd chs g1 else Some (False, g1)) = Some (alive, g')"
    by (auto simp: bind_eq_Some_conv)
  note inv = round_inv [OF g1(1) Cons.prems(2) assms(3)]
  then show ?case using Cons.IH [of g1] g1(2) by (auto split: if_splits)
qed simp

lemma new_board_inv:
  assumes "new_board rnd init_snake_position max_y max_x 6 = Some b" and "4 \<le> max_y" and "3 \<le> max_x"
    and "\<forall>n. in_draw_range max_y max_x (rnd n)"
  shows "game_inv max_y max_x \<lparr>board = b, action = kRight, screen = []\<rparr>" and "snake b = init_snake_position"
proof -
  let ?b = "\<lparr>snake = init_snake_position, foods = [], rows = max_y, columns = max_x, drawn = 0\<rparr>"
  have "moved kDown \<lparr>px = 2, py = 2\<rparr> = \<lparr>px = 2, py = 3\<rparr>" by (simp add: moved_def)
  then have "adjacent \<lparr>px = 2, py = 3\<rparr> \<lparr>px = 2, py = 2\<rparr>" by (metis adjacent_def)
  then have "board_inv ?b" using assms(2,3)
    by (simp add: board_inv_def init_snake_position_def IsValidPoint_def)
  then show "game_inv max_y max_x \<lparr>board = b, action = kRight, screen = []\<rparr>" "snake b = init_snake_position"
    using generate_foods_inv [of rnd 6 ?b b] assms by (simp_all add: new_board_def game_inv_def)
qed

section \<open>Properties\<close>

text \<open>C13. The state of a game, however it is played, on a screen of at least 4 rows and 3 columns: the snake has at
  least two points, none twice, each next to the one before and inside the board; there are always six foods, at
  different points and none on the snake. A food is only known to lie in the closed ranges of the distributions,
  so it may be on the row or column just outside the board, where the snake cannot eat it.\<close>

theorem snake_game_invariant:
  assumes "snake_main rnd max_y max_x keys = Some (alive, g)" and "4 \<le> max_y" and "3 \<le> max_x"
    and "\<forall>n. in_draw_range max_y max_x (rnd n)"
  shows "board_inv (board g) \<and> length (foods (board g)) = 6 \<and> rows (board g) = max_y \<and> columns (board g) = max_x"
proof -
  obtain b where b: "new_board rnd init_snake_position max_y max_x 6 = Some b"
    "play rnd keys \<lparr>board = b, action = kRight, screen = []\<rparr> = Some (alive, g)"
    using assms(1) by (auto simp: snake_main_def bind_eq_Some_conv)
  show ?thesis using play_inv [OF b(2) new_board_inv(1) [OF b(1) assms(2-4)] assms(4)] by (simp add: game_inv_def)
qed

text \<open>Draws on the border column and row of a board of 10 by 10, row by row.\<close>

definition sample_draws :: "nat \<Rightarrow> Point" where
  "sample_draws n = \<lparr>px = int (n mod 11), py = 10\<rparr>"

lemma sample_draws_range: "\<forall>n. in_draw_range 10 10 (sample_draws n)"
proof
  fix n :: nat
  have "n mod 11 < 11" by simp
  then show "in_draw_range 10 10 (sample_draws n)" by (simp add: in_draw_range_def sample_draws_def)
qed

lemma sample_game: "\<exists>g. snake_main sample_draws 10 10 [KEY_LEFT, KEY_DOWN] = Some (True, g)"
proof -
  have "map_option fst (snake_main sample_draws 10 10 [KEY_LEFT, KEY_DOWN]) = Some True" by code_simp
  then show ?thesis by auto
qed

theorem snake_game_invariant_witness:
  "\<exists>g. snake_main sample_draws 10 10 [KEY_LEFT, KEY_DOWN] = Some (True, g) \<and>
     board_inv (board g) \<and> length (foods (board g)) = 6 \<and> rows (board g) = 10 \<and> columns (board g) = 10"
  using sample_game snake_game_invariant [of sample_draws 10 10 "[KEY_LEFT, KEY_DOWN]" True] sample_draws_range by auto

text \<open>C38. The snake can turn back into its own neck only at the very start: after at least one move no key makes
  the next point the second point of the snake. The first action is \<open>kRight\<close> although the snake starts pointing
  down, so the key up as first key is taken, and ends the game at once.\<close>

theorem snake_turns_back_only_at_start:
  assumes "snake_main rnd max_y max_x keys = Some (True, g)" and "4 \<le> max_y" and "3 \<le> max_x"
    and "\<forall>n. in_draw_range max_y max_x (rnd n)"
  shows "NextPoint (ReadNextAction ch (action g)) (snake (board g)) = Some (snake (board g) ! 1) \<longleftrightarrow> keys = [] \<and> ch = KEY_UP"
proof -
  obtain b where b: "new_board rnd init_snake_position max_y max_x 6 = Some b"
    "play rnd keys \<lparr>board = b, action = kRight, screen = []\<rparr> = Some (True, g)"
    using assms(1) by (auto simp: snake_main_def bind_eq_Some_conv)
  note inv = play_inv [OF b(2) new_board_inv(1) [OF b(1) assms(2-4)] assms(4)]
  show ?thesis
  proof (cases "keys = []")
    case True
    then have "snake (board g) = init_snake_position" "action g = kRight"
      using inv new_board_inv(2) [OF b(1) assms(2-4)] by simp_all
    then show ?thesis using True
      by (cases ch) (simp_all add: NextPoint_def init_snake_position_def ReadNextAction_def moved_def)
  next
    case False
    then have "heading g" using inv by simp
    then obtain p ps where "snake (board g) = moved (action g) p # p # ps" by (auto simp: heading_def)
    then show ?thesis using False ReadNextAction_not_back [of ch "action g" p] by (simp add: NextPoint_def)
  qed
qed

theorem snake_turns_back_only_at_start_witness:
  "\<exists>g. snake_main sample_draws 10 10 [KEY_LEFT, KEY_DOWN] = Some (True, g) \<and>
     NextPoint (ReadNextAction KEY_UP (action g)) (snake (board g)) \<noteq> Some (snake (board g) ! 1)"
  using sample_game snake_turns_back_only_at_start [of sample_draws 10 10 "[KEY_LEFT, KEY_DOWN]" _ KEY_UP] sample_draws_range
  by auto

text \<open>C39. \<open>GenerateNewFood\<close> draws until it meets a point that is neither on the snake nor a food. If the points drawn lie in the ranges
  of the distributions and every point of those ranges comes up again and again, then it returns exactly if the snake and the foods
  leave such a point, and it adds, behind the other foods, the first point drawn that is taken by neither, and
  changes nothing else; on a board without such a point it never returns.\<close>

theorem GenerateNewFood_returns:
  assumes "\<forall>n. in_draw_range (rows b) (columns b) (rnd n)"
    and "\<forall>p m. in_draw_range (rows b) (columns b) p \<longrightarrow> (\<exists>n \<ge> m. rnd n = p)"
  shows "if {p. in_draw_range (rows b) (columns b) p} \<subseteq> set (snake b) \<union> set (foods b)
    then GenerateNewFood rnd b = None
    else \<exists>n. rnd (drawn b + n) \<notin> set (snake b) \<union> set (foods b) \<and>
      rnd ` {drawn b..<drawn b + n} \<subseteq> set (snake b) \<union> set (foods b) \<and>
      GenerateNewFood rnd b = Some (b\<lparr>foods := foods b @ [rnd (drawn b + n)], drawn := drawn b + n + 1\<rparr>)"
proof -
  let ?taken = "set (snake b) \<union> set (foods b)"
  have free: "free_point b p \<longleftrightarrow> p \<notin> ?taken" for p by (simp add: free_point_def member_defs)
  show ?thesis
  proof (cases "{p. in_draw_range (rows b) (columns b) p} \<subseteq> ?taken")
    case True
    then have "\<not> free_point b (rnd n)" for n using assms(1) free by blast
    then have "GenerateNewFood rnd b \<noteq> Some b'" for b' using GenerateNewFood_Some by metis
    then show ?thesis using True by auto
  next
    case False
    then obtain p m where "in_draw_range (rows b) (columns b) p" "p \<notin> ?taken" "drawn b \<le> m" "rnd m = p" using assms(2) by blast
    then have "\<exists>n. free_point b (rnd (drawn b + n))" using free le_Suc_ex by blast
    then obtain n where n: "free_point b (rnd (drawn b + n))" "\<forall>i < n. \<not> free_point b (rnd (drawn b + i))"
      using exists_least_iff [of "\<lambda>n. free_point b (rnd (drawn b + n))"] by blast
    have "rnd i \<in> ?taken" if i: "drawn b \<le> i" "i < drawn b + n" for i
      using n(2) free i le_Suc_ex [OF i(1)] by auto
    then have "rnd ` {drawn b..<drawn b + n} \<subseteq> ?taken" by (intro image_subsetI) simp
    then show ?thesis unfolding if_not_P [OF False] using n(1) free GenerateNewFood_first [OF n] by blast
  qed
qed

definition narrow_board :: Board where
  "narrow_board = \<lparr>snake = [\<lparr>px = 0, py = 0\<rparr>], foods = [\<lparr>px = 1, py = 0\<rparr>], rows = 0, columns = 2, drawn = 0\<rparr>"

definition narrow_draws :: "nat \<Rightarrow> Point" where
  "narrow_draws n = \<lparr>px = int (n mod 3), py = 0\<rparr>"

lemma narrow_range: "in_draw_range (rows narrow_board) (columns narrow_board) p \<longleftrightarrow> (\<exists>k < 3. p = \<lparr>px = int k, py = 0\<rparr>)"
proof
  assume p: "in_draw_range (rows narrow_board) (columns narrow_board) p"
  then have "0 \<le> px p" "px p < 3" "py p = 0" by (simp_all add: in_draw_range_def narrow_board_def)
  then show "\<exists>k < 3. p = \<lparr>px = int k, py = 0\<rparr>" by (intro exI [of _ "nat (px p)"]) simp
qed (auto simp: in_draw_range_def narrow_board_def)

theorem GenerateNewFood_returns_witness:
  "\<exists>n. narrow_draws n \<notin> {\<lparr>px = 0, py = 0\<rparr>, \<lparr>px = 1, py = 0\<rparr>} \<and>
    GenerateNewFood narrow_draws narrow_board = Some (narrow_board\<lparr>foods := [\<lparr>px = 1, py = 0\<rparr>, narrow_draws n], drawn := n + 1\<rparr>)"
proof -
  have b: "snake narrow_board = [\<lparr>px = 0, py = 0\<rparr>]" "foods narrow_board = [\<lparr>px = 1, py = 0\<rparr>]" "drawn narrow_board = 0"
    by (simp_all add: narrow_board_def)
  have "\<exists>n \<ge> m. narrow_draws n = \<lparr>px = int k, py = 0\<rparr>" if "k < 3" for k m
    using that by (intro exI [of _ "3 * m + k"]) (simp add: narrow_draws_def)
  then have again: "\<forall>p m. in_draw_range (rows narrow_board) (columns narrow_board) p \<longrightarrow> (\<exists>n \<ge> m. narrow_draws n = p)"
    unfolding narrow_range by blast
  have "\<forall>n. in_draw_range (rows narrow_board) (columns narrow_board) (narrow_draws n)"
    unfolding narrow_range narrow_draws_def by (metis mod_less_divisor zero_less_numeral)
  moreover have "\<not> {p. in_draw_range (rows narrow_board) (columns narrow_board) p} \<subseteq> set (snake narrow_board) \<union> set (foods narrow_board)"
  proof
    assume "{p. in_draw_range (rows narrow_board) (columns narrow_board) p} \<subseteq> set (snake narrow_board) \<union> set (foods narrow_board)"
    moreover have "in_draw_range (rows narrow_board) (columns narrow_board) \<lparr>px = 2, py = 0\<rparr>" by (simp add: in_draw_range_def narrow_board_def)
    ultimately show False unfolding b by auto
  qed
  ultimately show ?thesis using GenerateNewFood_returns [OF _ again] unfolding b by auto
qed

end
