(* ===== verification/Echo_Servers.thy ===== *)
theory Echo_Servers
  imports Posix_Io
begin

text \<open>
  The servers that answer with what they received in upper case, and their clients:
  \<^verbatim>\<open>src/multi_thread_server01\<close> (a thread per connection), \<^verbatim>\<open>src/prefork_server01\<close> (ten processes that accept
  from one socket) and \<^verbatim>\<open>src/v6_upcase_echo\<close> (datagrams).

  A connection is the list of answers its \<^verbatim>\<open>recv\<close> calls get; the k-th \<^verbatim>\<open>send\<close> is answered by \<open>W k\<close>: \<open>None\<close> is
  an error, \<open>Some m\<close> that at most \<open>m\<close> bytes were accepted. The calls that set up a socket are answered by a
  list of booleans.
\<close>

section \<open>Upper case in place\<close>

text \<open>\<^verbatim>\<open>toupper\<close> in the C locale. The programs call it on a \<^verbatim>\<open>char\<close>, which is negative for the bytes above 127 where \<^verbatim>\<open>char\<close> is
  signed. ISO C leaves such a call undefined; this is the function of the GNU library, whose table begins at \<open>-128\<close>
  and maps these values to themselves.\<close>

definition toupper :: "byte \<Rightarrow> byte" where
  "toupper c = (if 97 \<le> c \<and> c \<le> 122 then c - 32 else c)"

function upcase_loop :: "nat \<Rightarrow> nat \<Rightarrow> byte list \<Rightarrow> byte list option" where
  "upcase_loop i len buffer =
     (if i < len
      then do { c \<leftarrow> array_get buffer i; buffer \<leftarrow> array_set buffer i (toupper c); upcase_loop (i + 1) len buffer }
      else Some buffer)"
  by pat_completeness auto
termination
  by (relation "measure (\<lambda>(i, len, _). len - i)") auto

declare upcase_loop.simps [simp del]

text \<open>What \<^verbatim>\<open>recv\<close> does to the buffer.\<close>

definition received :: "byte list \<Rightarrow> byte list \<Rightarrow> byte list" where
  "received bs buffer = bs @ drop (length bs) buffer"

section \<open>multi\_thread\_server01/server.c\<close>

type_synonym send_answers = "nat \<Rightarrow> nat option"

record connection =
  sent :: "byte list"
  sends :: nat
  sock_open :: bool
  info_live :: bool

definition sent_part :: "send_answers \<Rightarrow> byte list \<Rightarrow> connection \<Rightarrow> connection" where
  "sent_part W bs s =
     s\<lparr>sent := sent s @ (case W (sends s) of None \<Rightarrow> [] | Some m \<Rightarrow> take m bs), sends := sends s + 1\<rparr>"

text \<open>A failed \<^verbatim>\<open>send\<close> is only reported.\<close>

fun handler_loop :: "send_answers \<Rightarrow> rd list \<Rightarrow> byte list \<Rightarrow> connection \<Rightarrow> connection run" where
  "handler_loop W [] buffer s = Hang s"
| "handler_loop W (Err intr # rs) buffer s = Continue s"
| "handler_loop W (Eof # rs) buffer s = Continue s"
| "handler_loop W (Got bs # rs) buffer s =
     (case upcase_loop 0 (length bs) (received bs buffer) of
        None \<Rightarrow> Crash
      | Some buffer \<Rightarrow> handler_loop W rs buffer (sent_part W (take (length bs) buffer) s))"

definition handler :: "send_answers \<Rightarrow> rd list \<Rightarrow> byte list \<Rightarrow> connection \<Rightarrow> connection run" where
  "handler W rs raw s = and_run (handler_loop W rs raw s) (\<lambda>s. Exit 0 (s\<lparr>sock_open := False, info_live := False\<rparr>))"

text \<open>The accept loop: what \<^verbatim>\<open>malloc\<close>, \<^verbatim>\<open>accept\<close> and \<^verbatim>\<open>pthread_create\<close> answer in each round; the state lists the
  sockets handed to a thread and those that are open without one.\<close>

datatype accepted = No_Memory | Accept_Error | Accepted nat bool

record accepting =
  handled :: "nat list"
  unattended :: "nat list"

fun accept_loop :: "accepted list \<Rightarrow> accepting \<Rightarrow> accepting run" where
  "accept_loop [] s = Hang s"
| "accept_loop (No_Memory # as) s = Exit 1 s"
| "accept_loop (Accept_Error # as) s = accept_loop as s"
| "accept_loop (Accepted fd thread_ok # as) s =
     accept_loop as (if thread_ok then s\<lparr>handled := handled s @ [fd]\<rparr> else s\<lparr>unattended := unattended s @ [fd]\<rparr>)"

text \<open>\<^verbatim>\<open>socket\<close>, \<^verbatim>\<open>setsockopt\<close>, \<^verbatim>\<open>bind\<close>, \<^verbatim>\<open>listen\<close> and the two calls for the thread attributes.\<close>

definition mt_server_main :: "bool list \<Rightarrow> accepted list \<Rightarrow> accepting run" where
  "mt_server_main setup as =
     (let s = \<lparr>handled = [], unattended = []\<rparr>
      in if list_all id (take 6 setup) then accept_loop as s else Exit 1 s)"

section \<open>multi\_thread\_server01/client.c\<close>

text \<open>The message: the second argument, copied without a check of its length, or a line of at most 255 bytes from
  the standard input without its last byte.\<close>

definition client_message :: "byte list \<Rightarrow> byte list option \<Rightarrow> byte list list \<Rightarrow> byte list option" where
  "client_message raw line args =
     (case args of
        _ # msg # _ \<Rightarrow> do { buffer \<leftarrow> strcpy raw (msg @ [0]); str_at buffer 0 }
      | _ \<Rightarrow> do {
          buffer \<leftarrow> (case line of None \<Rightarrow> Some raw | Some l \<Rightarrow> strcpy raw (l @ [0]));
          len \<leftarrow> strlen buffer;
          buffer \<leftarrow> (if len = 0 then None else array_set buffer (len - 1) 0);
          str_at buffer 0
        })"

text \<open>The reply is printed as a C string from a buffer that \<^verbatim>\<open>recv\<close> has filled in part.\<close>

definition mt_client_main ::
  "bool list \<Rightarrow> byte list \<Rightarrow> byte list \<Rightarrow> byte list option \<Rightarrow> (byte list \<Rightarrow> rd) \<Rightarrow> byte list list \<Rightarrow> byte list run" where
  "mt_client_main setup raw raw_recv line server args =
     (if \<not> list_all id (take 2 setup) then Exit 1 []
      else case client_message raw line args of None \<Rightarrow> Crash
      | Some msg \<Rightarrow>
          let out = bytes ''## connected'' @ [newline] @ bytes ''## send'' @ [newline]
          in (case server msg of
                Err _ \<Rightarrow> Exit 1 out
              | r \<Rightarrow> (case str_at (received (case r of Got bs \<Rightarrow> bs | _ \<Rightarrow> []) raw_recv) 0 of
                        None \<Rightarrow> Crash | Some text \<Rightarrow> Exit 0 (out @ text @ [newline]))))"

section \<open>prefork\_server01/main.c\<close>

text \<open>A child on one connection: an interrupted read is repeated, any other error ends the process with -1, that is
  status 255.\<close>

fun serve_client :: "send_answers \<Rightarrow> rd list \<Rightarrow> byte list \<Rightarrow> connection \<Rightarrow> connection run" where
  "serve_client W [] buffer s = Hang s"
| "serve_client W (Err intr # rs) buffer s = (if intr then serve_client W rs buffer s else Exit 255 s)"
| "serve_client W (Eof # rs) buffer s = Continue (s\<lparr>sock_open := False\<rparr>)"
| "serve_client W (Got bs # rs) buffer s =
     (case upcase_loop 0 (length bs) (received bs buffer) of
        None \<Rightarrow> Crash
      | Some buffer \<Rightarrow>
          let s' = sent_part W (take (length bs) buffer) s
          in if W (sends s) = None then Exit 255 s' else serve_client W rs buffer s')"

text \<open>The accept loop of a child; the output of all its connections is collected.\<close>

fun prefork_child :: "send_answers \<Rightarrow> rd list option list \<Rightarrow> byte list \<Rightarrow> connection \<Rightarrow> connection run" where
  "prefork_child W [] raw s = Hang s"
| "prefork_child W (None # cs) raw s = Exit 255 s"
| "prefork_child W (Some rs # cs) raw s = and_run (serve_client W rs raw (s\<lparr>sock_open := True\<rparr>)) (prefork_child W cs raw)"

text \<open>\<^verbatim>\<open>fork\<close> in the loop over the children, seen by one process: -1, 0 in the child, or the pid in the parent.\<close>

datatype role = Fork_Error | Child_Process nat | Parent_Process

function prefork_role :: "(nat \<Rightarrow> int) \<Rightarrow> nat \<Rightarrow> role" where
  "prefork_role fork_result i =
     (if i < 10
      then if fork_result i = - 1 then Fork_Error
        else if fork_result i \<noteq> 0 then prefork_role fork_result (i + 1)
        else Child_Process i
      else Parent_Process)"
  by pat_completeness auto
termination
  by (relation "measure (\<lambda>(_, i). 10 - i)") auto

declare prefork_role.simps [simp del]

definition no_connection :: connection where
  "no_connection = \<lparr>sent = [], sends = 0, sock_open = False, info_live = False\<rparr>"

text \<open>\<^verbatim>\<open>waitpid\<close> returns once all children have ended; \<open>children_end\<close> says that they do.\<close>

definition prefork_main ::
  "bool list \<Rightarrow> (nat \<Rightarrow> int) \<Rightarrow> bool \<Rightarrow> send_answers \<Rightarrow> rd list option list \<Rightarrow> byte list \<Rightarrow> connection run" where
  "prefork_main setup fork_result children_end W clients raw =
     (if \<not> list_all id (take 4 setup) then Exit 255 no_connection
      else case prefork_role fork_result 0 of
        Fork_Error \<Rightarrow> Exit 255 no_connection
      | Child_Process _ \<Rightarrow> prefork_child W clients raw no_connection
      | Parent_Process \<Rightarrow> if children_end then Exit 0 no_connection else Hang no_connection)"

section \<open>v6\_upcase\_echo\<close>

text \<open>The server: each \<^verbatim>\<open>recvfrom\<close> takes at most 32 bytes of a datagram, the rest is lost; the answers of
  \<^verbatim>\<open>sendto\<close> are a list.\<close>

datatype 'c datagram = Recv_Error | Datagram 'c "byte list" bool

definition v6_reply :: "byte list \<Rightarrow> byte list \<Rightarrow> byte list option" where
  "v6_reply raw d =
     (let n_bytes = min 32 (length d)
      in map_option (take n_bytes) (upcase_loop 0 n_bytes (received (take 32 d) raw)))"

fun v6_server_loop :: "byte list \<Rightarrow> 'c datagram list \<Rightarrow> ('c \<times> byte list) list \<Rightarrow> ('c \<times> byte list) list run" where
  "v6_server_loop raw [] out = Hang out"
| "v6_server_loop raw (Recv_Error # ds) out = Exit 255 out"
| "v6_server_loop raw (Datagram client d send_ok # ds) out =
     (case v6_reply raw d of
        None \<Rightarrow> Crash
      | Some r \<Rightarrow> if send_ok then v6_server_loop raw ds (out @ [(client, r)]) else Exit 255 out)"

definition v6_server_main :: "bool list \<Rightarrow> byte list \<Rightarrow> 'c datagram list \<Rightarrow> ('c \<times> byte list) list run" where
  "v6_server_main setup raw ds = (if list_all id (take 2 setup) then v6_server_loop raw ds [] else Exit 255 [])"

text \<open>The client: every argument behind the address is sent, and the reply, at most 32 bytes of it, is printed with
  \<^verbatim>\<open>%.*s\<close>, that is up to a null byte.\<close>

datatype exchange = Send_Failed | Recv_Failed | Reply "byte list"

fun v6_client_loop :: "(byte list \<Rightarrow> exchange) \<Rightarrow> nat \<Rightarrow> byte list list \<Rightarrow> byte list \<Rightarrow> byte list run" where
  "v6_client_loop net i [] out = Exit 0 out"
| "v6_client_loop net i (msg # msgs) out =
     (case net msg of
        Reply r \<Rightarrow> v6_client_loop net (i + 1) msgs
          (out @ bytes ''## Response '' @ decimal i @ bytes '': '' @ takeWhile (\<lambda>c. c \<noteq> 0) (take 32 r) @ [newline])
      | _ \<Rightarrow> Exit 255 out)"

definition v6_client_main :: "byte list \<Rightarrow> bool \<Rightarrow> (byte list \<Rightarrow> bool) \<Rightarrow> (byte list \<Rightarrow> exchange) \<Rightarrow> byte list list \<Rightarrow> byte list run" where
  "v6_client_main usage socket_ok pton net args =
     (case args of
        address # m # msgs \<Rightarrow> if socket_ok \<and> pton address then v6_client_loop net 1 (m # msgs) [] else Exit 255 []
      | _ \<Rightarrow> Exit 255 usage)"

section \<open>The upper-case loop\<close>

lemma upcase_loop_eq:
  "len \<le> length buffer \<Longrightarrow> i \<le> len \<Longrightarrow>
   upcase_loop i len buffer = Some (take i buffer @ map toupper (take (len - i) (drop i buffer)) @ drop len buffer)"
proof (induction i len buffer rule: upcase_loop.induct)
  case (1 i len buffer)
  show ?case
  proof (cases "i < len")
    case True
    let ?b = "buffer[i := toupper (buffer ! i)]"
    have i: "i < length buffer" using True 1 by simp
    have "upcase_loop i len buffer = upcase_loop (i + 1) len ?b" using True i by (subst upcase_loop.simps) simp
    also have "\<dots> = Some (take (i + 1) ?b @ map toupper (take (len - (i + 1)) (drop (i + 1) ?b)) @ drop len ?b)"
      using "1.IH" [OF True, of "buffer ! i" ?b] 1 True i by simp
    also have "take (i + 1) ?b = take i buffer @ [toupper (buffer ! i)]" using i by (simp add: take_Suc_conv_app_nth)
    finally have "upcase_loop i len buffer =
        Some ((take i buffer @ [toupper (buffer ! i)]) @ map toupper (take (len - (i + 1)) (drop (i + 1) ?b)) @ drop len ?b)" .
    moreover have "take (len - i) (drop i buffer) = buffer ! i # take (len - (i + 1)) (drop (i + 1) buffer)"
      using True i by (simp add: take_Cons' flip: Cons_nth_drop_Suc)
    ultimately show ?thesis using True by simp
  next
    case False
    then show ?thesis using 1 by (subst upcase_loop.simps) simp
  qed
qed

lemma upcase_received:
  "length bs \<le> length buffer \<Longrightarrow>
   upcase_loop 0 (length bs) (received bs buffer) = Some (map toupper bs @ drop (length bs) buffer)"
  by (simp add: upcase_loop_eq received_def)

section \<open>The contract of an echo loop\<close>

text \<open>
  What the two stream servers share: on a received chunk that fits the buffer the loop makes one \<^verbatim>\<open>send\<close> of the chunk
  in upper case and goes on, the threaded server even if this fails (\<open>tolerant\<close>). So it answers a sequence
  of chunks with what the sends let through of the chunks in upper case.
\<close>

fun answered :: "send_answers \<Rightarrow> nat \<Rightarrow> byte list list \<Rightarrow> byte list" where
  "answered W k [] = []"
| "answered W k (c # cs) = (case W k of None \<Rightarrow> [] | Some m \<Rightarrow> take m (map toupper c)) @ answered W (Suc k) cs"

lemma answered_all:
  "\<forall>j < length cs. \<exists>m \<ge> length (cs ! j). W (k + j) = Some m \<Longrightarrow> answered W k cs = map toupper (concat cs)"
proof (induction cs arbitrary: k)
  case (Cons c cs)
  then show ?case using Cons.IH [of "Suc k"] by (auto simp: All_less_Suc2)
qed simp

definition answer_chunks :: "send_answers \<Rightarrow> byte list list \<Rightarrow> connection \<Rightarrow> connection" where
  "answer_chunks W cs s = s\<lparr>sent := sent s @ answered W (sends s) cs, sends := sends s + length cs\<rparr>"

lemma answer_chunks_simps [simp]:
  "answer_chunks W [] s = s" "answer_chunks W (c # cs) s = answer_chunks W cs (sent_part W (map toupper c) s)"
  by (simp_all add: answer_chunks_def sent_part_def)

lemma sends_sent_part [simp]: "sends (sent_part W bs s) = Suc (sends s)"
  by (simp add: sent_part_def)

locale echo_loop =
  fixes loop :: "send_answers \<Rightarrow> rd list \<Rightarrow> byte list \<Rightarrow> connection \<Rightarrow> connection run"
    and size :: nat
    and tolerant :: bool
  assumes got: "length bs \<le> size \<Longrightarrow> length buffer = size \<Longrightarrow> tolerant \<or> W (sends s) \<noteq> None \<Longrightarrow>
    loop W (Got bs # rs) buffer s = loop W rs (map toupper bs @ drop (length bs) buffer) (sent_part W (map toupper bs) s)"
begin

lemma chunks_answered:
  assumes "list_all (\<lambda>bs. length bs \<le> size) cs" and "length buffer = size" and "tolerant \<or> (\<forall>j < length cs. W (sends s + j) \<noteq> None)"
  obtains buffer' where "length buffer' = size" "loop W (map Got cs @ rs) buffer s = loop W rs buffer' (answer_chunks W cs s)"
proof -
  have "\<exists>buffer'. length buffer' = size \<and> loop W (map Got cs @ rs) buffer s = loop W rs buffer' (answer_chunks W cs s)"
    using assms
  proof (induction cs arbitrary: buffer s)
    case (Cons bs cs)
    have t: "tolerant \<or> W (sends s) \<noteq> None" "tolerant \<or> (\<forall>j < length cs. W (Suc (sends s) + j) \<noteq> None)"
      using Cons.prems(3) by (auto simp: All_less_Suc2)
    then show ?case
      using Cons.IH [of "map toupper bs @ drop (length bs) buffer" "sent_part W (map toupper bs) s"] Cons.prems(1,2)
        got [of bs buffer W s "map Got cs @ rs"] by simp
  qed auto
  then show ?thesis using that by blast
qed

end

interpretation threaded: echo_loop handler_loop 1024 True
  by unfold_locales (simp add: upcase_received)

interpretation prefork: echo_loop serve_client 256 False
  by unfold_locales (auto simp: upcase_received Let_def)

text \<open>The preforked server ends at the first send that fails.\<close>

lemma serve_client_send_fails:
  "list_all (\<lambda>bs. length bs \<le> 256) cs \<Longrightarrow> length raw = 256 \<Longrightarrow> j < length cs \<Longrightarrow> W (sends s + j) = None \<Longrightarrow>
   \<exists>s'. serve_client W (map Got cs @ rs) raw s = Exit 255 s'"
proof (induction cs arbitrary: raw s j)
  case (Cons c cs)
  show ?case
  proof (cases "W (sends s) = None")
    case True
    then show ?thesis using Cons.prems(1,2) by (simp add: upcase_received Let_def)
  next
    case False
    then obtain i where "j = Suc i" using Cons.prems(4) by (cases j) auto
    then show ?thesis
      using Cons.IH [of "map toupper c @ drop (length c) raw" i "sent_part W (map toupper c) s"] Cons.prems False
        prefork.got [of c raw W s "map Got cs @ rs"] by simp
  qed
qed simp

section \<open>Properties\<close>

text \<open>C23. The threaded and the preforked server on a connection whose stream is read to its end without errors. Whatever the
  answers \<open>W\<close> of \<^verbatim>\<open>send\<close> and whatever the chunks in which the stream arrives, of up to 1024 bytes for the one and of up to 256 bytes for the
  other, each makes one \<^verbatim>\<open>send\<close> per chunk of the chunk in upper case, what goes out is what the sends let through, and the connection is closed
  (and the thread's record of it freed); but the preforked server ends with status 255 if a \<^verbatim>\<open>send\<close> fails. So if every \<^verbatim>\<open>send\<close> accepts all it is
  given, the stream comes back in upper case, however it was cut; the rest of a short \<^verbatim>\<open>send\<close> is lost.\<close>

theorem stream_servers_echo:
  assumes "list_all (\<lambda>bs. length bs \<le> 1024) cs" and "length raw = 1024" and "list_all (\<lambda>bs. length bs \<le> 256) cs'" and "length raw' = 256"
  shows "handler W (map Got cs @ Eof # rs) raw s =
      Exit 0 (s\<lparr>sent := sent s @ answered W (sends s) cs, sends := sends s + length cs, sock_open := False, info_live := False\<rparr>) \<and>
    (if \<forall>j < length cs'. W (sends s + j) \<noteq> None
     then serve_client W (map Got cs' @ Eof # rs) raw' s =
       Continue (s\<lparr>sent := sent s @ answered W (sends s) cs', sends := sends s + length cs', sock_open := False\<rparr>)
     else \<exists>s'. serve_client W (map Got cs' @ Eof # rs) raw' s = Exit 255 s') \<and>
    (\<forall>xs \<in> {cs, cs'}. (\<forall>j < length xs. \<exists>m \<ge> length (xs ! j). W (sends s + j) = Some m) \<longrightarrow>
       answered W (sends s) xs = map toupper (concat xs))"
proof (intro conjI ballI impI)
  obtain b where "handler_loop W (map Got cs @ Eof # rs) raw s = handler_loop W (Eof # rs) b (answer_chunks W cs s)"
    using threaded.chunks_answered [OF assms(1,2)] by metis
  then show "handler W (map Got cs @ Eof # rs) raw s =
      Exit 0 (s\<lparr>sent := sent s @ answered W (sends s) cs, sends := sends s + length cs, sock_open := False, info_live := False\<rparr>)"
    by (simp add: handler_def answer_chunks_def)
  show "if \<forall>j < length cs'. W (sends s + j) \<noteq> None
     then serve_client W (map Got cs' @ Eof # rs) raw' s =
       Continue (s\<lparr>sent := sent s @ answered W (sends s) cs', sends := sends s + length cs', sock_open := False\<rparr>)
     else \<exists>s'. serve_client W (map Got cs' @ Eof # rs) raw' s = Exit 255 s'"
  proof (cases "\<forall>j < length cs'. W (sends s + j) \<noteq> None")
    case True
    then obtain b where "serve_client W (map Got cs' @ Eof # rs) raw' s = serve_client W (Eof # rs) b (answer_chunks W cs' s)"
      using prefork.chunks_answered [OF assms(3,4)] by metis
    then show ?thesis unfolding if_P [OF True] by (simp add: answer_chunks_def)
  next
    case False
    then show ?thesis unfolding if_not_P [OF False] using serve_client_send_fails [OF assms(3,4)] by blast
  qed
qed (rule answered_all)

theorem stream_servers_echo_witness:
  "handler (\<lambda>_. Some 1024) (map Got [[97, 49, 122]] @ Eof # []) (replicate 1024 0) no_connection =
     Exit 0 \<lparr>sent = [65, 49, 90], sends = 1, sock_open = False, info_live = False\<rparr> \<and>
   serve_client (\<lambda>_. Some 1024) (map Got [[97, 49], [122]] @ Eof # []) (replicate 256 0) no_connection =
     Continue \<lparr>sent = [65, 49, 90], sends = 2, sock_open = False, info_live = False\<rparr>"
  using stream_servers_echo [of "[[97, 49, 122]]" "replicate 1024 0" "[[97, 49], [122]]" "replicate 256 0" "\<lambda>_. Some 1024" "[]" no_connection]
  by (simp add: toupper_def no_connection_def)

text \<open>C40. The datagram client and server together: for messages without null bytes the client prints, numbered from
  1 and in order, the first 32 bytes of each message in upper case; what a message has beyond 32 bytes is lost.\<close>

theorem v6_client_prints_upper:
  assumes "length raw = 32" and "list_all cstring (m # msgs)"
  shows "v6_client_main usage True (\<lambda>_. True) (\<lambda>msg. case v6_reply raw msg of None \<Rightarrow> Recv_Failed | Some r \<Rightarrow> Reply r) (address # m # msgs) =
    Exit 0 (concat (map (\<lambda>(i, msg). bytes ''## Response '' @ decimal i @ bytes '': '' @ map toupper (take 32 msg) @ [newline])
      (enumerate 1 (m # msgs))))"
proof -
  let ?net = "\<lambda>msg. case v6_reply raw msg of None \<Rightarrow> Recv_Failed | Some r \<Rightarrow> Reply r"
  let ?line = "\<lambda>(i, msg). bytes ''## Response '' @ decimal i @ bytes '': '' @ map toupper (take 32 msg) @ [newline]"
  have reply: "v6_reply raw msg = Some (map toupper (take 32 msg))" for msg
    using assms(1) upcase_received [of "take 32 msg" raw] by (simp add: v6_reply_def min.commute)
  have up: "toupper c = 0 \<longleftrightarrow> c = 0" for c
  proof (cases "97 \<le> c")
    case True
    then have "c - 32 \<noteq> 0" by auto
    then show ?thesis using True by (auto simp: toupper_def)
  qed (auto simp: toupper_def)
  have "v6_client_loop ?net i ms out = Exit 0 (out @ concat (map ?line (enumerate i ms)))" if "list_all cstring ms" for i ms out
    using that
  proof (induction ms arbitrary: i out)
    case (Cons a ms)
    then have "\<forall>c \<in> set (take 32 a). toupper c \<noteq> 0" by (auto simp: up cstring_def dest: in_set_takeD)
    then show ?case using Cons by (simp add: reply)
  qed simp
  from this [OF assms(2), of 1 "[]"] show ?thesis
    by (simp add: v6_client_main_def del: v6_client_loop.simps enumerate_simps)
qed

theorem v6_client_prints_upper_witness:
  "v6_client_main [] True (\<lambda>_. True) (\<lambda>msg. case v6_reply (replicate 32 0) msg of None \<Rightarrow> Recv_Failed | Some r \<Rightarrow> Reply r)
     [[58, 58, 49], replicate 40 97] =
    Exit 0 (bytes ''## Response '' @ [49] @ bytes '': '' @ replicate 32 65 @ [newline])"
  using v6_client_prints_upper [of "replicate 32 0" "replicate 40 97" "[]" "[]" "[58, 58, 49]"]
  by (simp add: cstring_def toupper_def decimal.simps)

text \<open>The threaded server's client prints more than the reply: the receive buffer is not terminated, so behind the
  upper-case reply it prints what the uninitialised buffer holds up to its first null byte, and without such a
  byte it reads past the buffer.\<close>

theorem mt_client_prints_garbage:
  assumes "list_all id (take 2 setup)" and "cstring msg" and "length msg < 256" and "length raw = 256"
  shows "mt_client_main setup raw raw_recv line (\<lambda>m. Got (map toupper m)) [port, msg] =
    (case str_at (map toupper msg @ drop (length msg) raw_recv) 0 of
       None \<Rightarrow> Crash
     | Some text \<Rightarrow> Exit 0 (bytes ''## connected'' @ [newline] @ bytes ''## send'' @ [newline] @ text @ [newline]))"
proof -
  have "client_message raw line [port, msg] = Some msg"
    using assms(2-4) by (simp add: client_message_def strcpy_def memcpy_def str_at_def)
  then show ?thesis using assms(1) by (simp add: mt_client_main_def received_def Let_def split: option.splits)
qed

theorem mt_client_prints_garbage_witness:
  "mt_client_main [True, True] (replicate 256 0) (replicate 255 63 @ [0]) None (\<lambda>m. Got (map toupper m)) [[49], [97]] =
    Exit 0 (bytes ''## connected'' @ [newline] @ bytes ''## send'' @ [newline] @ ([65] @ replicate 254 63) @ [newline])"
proof -
  have "str_at (map toupper [97] @ drop (length [97 :: byte]) (replicate 255 63 @ [0])) 0 = Some ([65] @ replicate 254 63)"
    using str_at_cstring [of "[65] @ replicate 254 63" "[]" 0 "[]"] by (simp add: toupper_def cstring_def)
  then show ?thesis
    using mt_client_prints_garbage [of "[True, True]" "[97]" "replicate 256 0" "replicate 255 63 @ [0]" None "[49]"]
    by (simp add: cstring_def)
qed

end
