(* ===== verification/Uv_Server.thy ===== *)
theory Uv_Server
  imports Echo_Servers
begin

text \<open>
  The upper-case server on libuv, \<^verbatim>\<open>src/libuv_tcp_server01/main.c\<close>: its four callbacks and \<open>main\<close> over an explicit heap.

  libuv is not part of the repository. A run of its loop is an argument: the list of the callbacks it makes, with
  their arguments. What its documentation promises about them is the hypothesis \<open>uv_trace\<close>: a buffer that is given
  to the read callback was obtained from the allocation callback for that stream and is given back once, or it is the null buffer of length 0
  that may come with an error or the end of the stream; the bytes
  read are stored in the buffer and fit it, no byte is read without a buffer, and the write callback is made at most once for a request, and only
  for one that \<^verbatim>\<open>uv_write\<close> accepted. The library's side of this is kept in the fields \<open>lent\<close> and \<open>pending\<close> of the state.
\<close>

section \<open>State and heap\<close>

text \<open>A byte of memory is \<open>None\<close> until it is written. A \<open>Request\<close> is its field \<open>buf\<close>; the field \<open>req\<close> in front of it
  belongs to the library, and a request is known to the library by the address they share.\<close>

record uv_buf_t =
  uv_base :: ptr
  uv_len :: nat

record uv_state =
  chars :: "byte option list store"
  reqs :: "ptr option store"
  tcps :: "addr list"
  brk :: nat
  mallocs :: nat
  uv_out :: "byte list"
  written_to :: "(addr \<times> byte list) list"
  write_calls :: nat
  lent :: "(addr \<times> uv_buf_t) list"
  pending :: "(addr \<times> uv_buf_t \<times> byte list) list"

text \<open>The \<open>k\<close>-th call of \<^verbatim>\<open>malloc\<close> succeeds if \<open>M k\<close>; a new block has a new address.\<close>

definition uv_malloc :: "(nat \<Rightarrow> bool) \<Rightarrow> uv_state \<Rightarrow> ptr \<times> uv_state" where
  "uv_malloc M s =
     (if M (mallocs s) then (Ref (brk s), s\<lparr>brk := brk s + 1, mallocs := mallocs s + 1\<rparr>)
      else (Null, s\<lparr>mallocs := mallocs s + 1\<rparr>))"

definition free_chars :: "ptr \<Rightarrow> uv_state \<Rightarrow> uv_state run" where
  "free_chars p s =
     (case p of Null \<Rightarrow> Continue s
      | Ref a \<Rightarrow> if chars s a = None then Crash else Continue (s\<lparr>chars := (chars s)(a := None)\<rparr>))"

section \<open>The callbacks\<close>

definition WriteCallback :: "addr \<Rightarrow> int \<Rightarrow> uv_state \<Rightarrow> uv_state run" where
  "WriteCallback r status s =
     (case reqs s r of
        Some (Some buf) \<Rightarrow> and_run (free_chars buf s) (\<lambda>s. Continue (s\<lparr>reqs := (reqs s)(r := None)\<rparr>))
      | _ \<Rightarrow> Crash)"

definition UV_EOF :: int where
  "UV_EOF = - 4095"

text \<open>The loop that fills the request's buffer: it stops at the first byte that is outside of a block or was never written.\<close>

function upcase_copy :: "nat \<Rightarrow> nat \<Rightarrow> byte option list \<Rightarrow> byte option list \<Rightarrow> byte option list option" where
  "upcase_copy i nread src dst =
     (if i < nread
      then do { b \<leftarrow> array_get src i; c \<leftarrow> b; dst \<leftarrow> array_set dst i (Some (toupper c)); upcase_copy (i + 1) nread src dst }
      else Some dst)"
  by pat_completeness auto
termination
  by (relation "measure (\<lambda>(i, nread, _). nread - i)") auto

declare upcase_copy.simps [simp del]

text \<open>\<^verbatim>\<open>uv_write\<close>: its \<open>k\<close>-th call is accepted if \<open>W k\<close>. An accepted request, with the bytes its buffer holds, is pending until its
  callback. The result of the call is ignored by the server.\<close>

definition uv_write :: "(nat \<Rightarrow> bool) \<Rightarrow> addr \<Rightarrow> addr \<Rightarrow> uv_buf_t \<Rightarrow> uv_state \<Rightarrow> uv_state run" where
  "uv_write W r stream b s =
     (case uv_base b of
        Null \<Rightarrow> Crash
      | Ref a \<Rightarrow>
        (case chars s a of
           None \<Rightarrow> Crash
         | Some xs \<Rightarrow>
             if length xs < uv_len b \<or> None \<in> set (take (uv_len b) xs) then Crash
             else
               (let s' = s\<lparr>write_calls := write_calls s + 1\<rparr>; bs = map the (take (uv_len b) xs)
                in Continue
                   (if W (write_calls s)
                    then s'\<lparr>pending := pending s @ [(r, b, bs)], written_to := written_to s @ [(stream, bs)]\<rparr>
                    else s'))))"

definition ReadCallback ::
  "(nat \<Rightarrow> bool) \<Rightarrow> (nat \<Rightarrow> bool) \<Rightarrow> addr \<Rightarrow> int \<Rightarrow> uv_buf_t \<Rightarrow> uv_state \<Rightarrow> uv_state run" where
  "ReadCallback M W stream nread buf s =
     (if nread < 0
      then if nread = UV_EOF then Continue (s\<lparr>uv_out := uv_out s @ bytes ''closed'' @ [newline]\<rparr>)
        else free_chars (uv_base buf) s
      else
        (case uv_malloc M s of
           (Null, s) \<Rightarrow> Exit 1 s
         | (Ref req, s) \<Rightarrow>
           (let s = s\<lparr>reqs := (reqs s)(req \<mapsto> None)\<rparr>
            in case uv_malloc M s of
                 (Null, s) \<Rightarrow> Exit 1 (s\<lparr>reqs := (reqs s)(req \<mapsto> Some Null)\<rparr>)
               | (Ref rbuf, s) \<Rightarrow>
                 (let s = s\<lparr>reqs := (reqs s)(req \<mapsto> Some (Ref rbuf))\<rparr>;
                      src = (case uv_base buf of Null \<Rightarrow> [] | Ref a \<Rightarrow> (case chars s a of None \<Rightarrow> [] | Some xs \<Rightarrow> xs))
                  in case upcase_copy 0 (nat nread) src (replicate (nat nread) None) of
                       None \<Rightarrow> Crash
                     | Some xs \<Rightarrow>
                         and_run (free_chars (uv_base buf) (s\<lparr>chars := (chars s)(rbuf \<mapsto> xs)\<rparr>))
                           (uv_write W req stream \<lparr>uv_base = Ref rbuf, uv_len = nat nread\<rparr>)))))"

text \<open>\<^verbatim>\<open>uv_buf_init\<close> takes the length as an \<^verbatim>\<open>unsigned int\<close>.\<close>

definition AllocBuffer :: "(nat \<Rightarrow> bool) \<Rightarrow> nat \<Rightarrow> uv_state \<Rightarrow> uv_buf_t \<times> uv_state" where
  "AllocBuffer M suggested s =
     (case uv_malloc M s of
        (Null, s) \<Rightarrow> (\<lparr>uv_base = Null, uv_len = suggested mod 2 ^ 32\<rparr>, s)
      | (Ref a, s) \<Rightarrow> (\<lparr>uv_base = Ref a, uv_len = suggested mod 2 ^ 32\<rparr>, s\<lparr>chars := (chars s)(a \<mapsto> replicate suggested None)\<rparr>))"

text \<open>The address of the client's handle is not checked: \<^verbatim>\<open>uv_tcp_init\<close> writes to a null pointer.\<close>

definition ConnectionCallback :: "(nat \<Rightarrow> bool) \<Rightarrow> int \<Rightarrow> uv_state \<Rightarrow> uv_state run" where
  "ConnectionCallback M status s =
     (if status < 0
      then Continue (s\<lparr>uv_out := uv_out s @ bytes ''## connection error='' @ signed_decimal status @ [newline]\<rparr>)
      else
        (case uv_malloc M s of
           (Null, s) \<Rightarrow> Crash
         | (Ref client, s) \<Rightarrow> Continue (s\<lparr>tcps := tcps s @ [client]\<rparr>)))"

section \<open>The loop\<close>

text \<open>A callback of the library, with its arguments. Before \<open>On_Read\<close> the library has stored the bytes read in the buffer.\<close>

datatype uv_event =
    On_Connection int
  | On_Alloc addr nat
  | On_Read addr int uv_buf_t "byte list"
  | On_Write addr int

definition uv_fill :: "ptr \<Rightarrow> byte list \<Rightarrow> uv_state \<Rightarrow> uv_state" where
  "uv_fill p bs s =
     (case p of Null \<Rightarrow> s
      | Ref a \<Rightarrow> s\<lparr>chars := (chars s)(a := map_option (\<lambda>xs. map Some bs @ drop (length bs) xs) (chars s a))\<rparr>)"

fun uv_callback :: "(nat \<Rightarrow> bool) \<Rightarrow> (nat \<Rightarrow> bool) \<Rightarrow> uv_event \<Rightarrow> uv_state \<Rightarrow> uv_state run" where
  "uv_callback M W (On_Connection status) s = ConnectionCallback M status s"
| "uv_callback M W (On_Alloc stream suggested) s =
     (case AllocBuffer M suggested s of (b, s) \<Rightarrow> Continue (s\<lparr>lent := lent s @ [(stream, b)]\<rparr>))"
| "uv_callback M W (On_Read stream nread b bs) s =
     ReadCallback M W stream nread b (uv_fill (uv_base b) bs (s\<lparr>lent := remove1 (stream, b) (lent s)\<rparr>))"
| "uv_callback M W (On_Write r status) s =
     WriteCallback r status (s\<lparr>pending := filter (\<lambda>p. fst p \<noteq> r) (pending s)\<rparr>)"

text \<open>What the library promises of its next callback.\<close>

fun uv_allowed :: "uv_event \<Rightarrow> uv_state \<Rightarrow> bool" where
  "uv_allowed (On_Connection status) s = True"
| "uv_allowed (On_Alloc stream suggested) s = (stream \<in> set (tcps s))"
| "uv_allowed (On_Read stream nread b bs) s =
     (((stream, b) \<in> set (lent s) \<or> nread < 0 \<and> b = \<lparr>uv_base = Null, uv_len = 0\<rparr>) \<and>
      length bs = nat nread \<and> length bs \<le> uv_len b \<and> (uv_base b = Null \<longrightarrow> nread < 0))"
| "uv_allowed (On_Write r status) s = (r \<in> fst ` set (pending s))"

fun uv_loop :: "(nat \<Rightarrow> bool) \<Rightarrow> (nat \<Rightarrow> bool) \<Rightarrow> uv_event list \<Rightarrow> uv_state \<Rightarrow> uv_state run" where
  "uv_loop M W [] s = Continue s"
| "uv_loop M W (e # es) s = and_run (uv_callback M W e s) (uv_loop M W es)"

fun uv_trace :: "(nat \<Rightarrow> bool) \<Rightarrow> (nat \<Rightarrow> bool) \<Rightarrow> uv_event list \<Rightarrow> uv_state \<Rightarrow> bool" where
  "uv_trace M W [] s = True"
| "uv_trace M W (e # es) s =
     (uv_allowed e s \<and> (case uv_callback M W e s of Continue s \<Rightarrow> uv_trace M W es s | _ \<Rightarrow> True))"

definition uv_start :: uv_state where
  "uv_start = \<lparr>chars = Map.empty, reqs = Map.empty, tcps = [], brk = 0, mallocs = 0, uv_out = [], written_to = [],
     write_calls = 0, lent = [], pending = []\<rparr>"

text \<open>The results of \<^verbatim>\<open>uv_tcp_bind\<close> and \<^verbatim>\<open>uv_listen\<close> are ignored; a loop with no active handle ends at once.
  Behind the callbacks of the list the loop waits.\<close>

definition uv_main :: "bool \<Rightarrow> bool \<Rightarrow> (nat \<Rightarrow> bool) \<Rightarrow> (nat \<Rightarrow> bool) \<Rightarrow> uv_event list \<Rightarrow> uv_state run" where
  "uv_main loop_ok listening M W es =
     (if \<not> loop_ok then Exit 1 uv_start
      else if \<not> listening then Exit 0 uv_start
      else and_run (uv_loop M W es uv_start) Hang)"

section \<open>Callbacks as an abstract server\<close>

text \<open>
  The contract of an event loop: a handler that keeps an invariant on every event the environment may produce, and
  whose effect on a view of the state is that of an abstract step. Then a whole run keeps the invariant, and its view is
  the fold of the abstract steps; it stops early only where the handler may (\<open>failing\<close>).
\<close>

locale event_loop =
  fixes handle :: "'e \<Rightarrow> 's \<Rightarrow> 's run"
    and allowed :: "'e \<Rightarrow> 's \<Rightarrow> bool"
    and loop :: "'e list \<Rightarrow> 's \<Rightarrow> 's run"
    and trace :: "'e list \<Rightarrow> 's \<Rightarrow> bool"
    and inv :: "'s \<Rightarrow> bool"
    and view :: "'s \<Rightarrow> 'v"
    and spec :: "'e \<Rightarrow> 'v \<Rightarrow> 'v"
    and failing :: bool
  assumes loop_simps: "loop [] s = Continue s" "loop (e # es) s = and_run (handle e s) (loop es)"
    and trace_Cons: "trace (e # es) s \<Longrightarrow> allowed e s \<and> (\<forall>s'. handle e s = Continue s' \<longrightarrow> trace es s')"
    and handled: "inv s \<Longrightarrow> allowed e s \<Longrightarrow>
      (\<exists>s'. handle e s = Continue s' \<and> inv s' \<and> view s' = spec e (view s)) \<or> failing \<and> (\<forall>s'. handle e s \<noteq> Continue s')"
begin

lemma run_refines:
  assumes "inv s" and "trace es s"
  shows "(\<exists>s'. loop es s = Continue s' \<and> inv s' \<and> view s' = fold spec es (view s)) \<or> failing \<and> (\<forall>s'. loop es s \<noteq> Continue s')"
  using assms
proof (induction es arbitrary: s)
  case (Cons e es)
  show ?case
  proof (cases "\<exists>s'. handle e s = Continue s'")
    case True
    then obtain s' where s': "handle e s = Continue s'" by blast
    then have "inv s'" "view s' = spec e (view s)" "trace es s'" using handled [of s e] trace_Cons Cons.prems by auto
    then show ?thesis using Cons.IH [of s'] s' by (simp add: loop_simps)
  next
    case False
    then show ?thesis using handled [of s e] trace_Cons [OF Cons.prems(2)] Cons.prems(1)
      by (cases "handle e s") (auto simp: loop_simps)
  qed
qed (simp add: loop_simps)

end

text \<open>The abstract server: what was sent on each stream, the blocks nobody will free, and the number of clients. A
  request that \<^verbatim>\<open>uv_write\<close> refuses is lost with its buffer; so is the buffer that comes with the end of a stream.\<close>

record uv_view =
  echo :: "addr \<Rightarrow> byte list"
  lost_chars :: nat
  lost_reqs :: nat
  clients :: nat
  calls :: nat

fun uv_spec :: "(nat \<Rightarrow> bool) \<Rightarrow> uv_event \<Rightarrow> uv_view \<Rightarrow> uv_view" where
  "uv_spec W (On_Connection status) v = (if status < 0 then v else v\<lparr>clients := clients v + 1\<rparr>)"
| "uv_spec W (On_Alloc stream n) v = v"
| "uv_spec W (On_Read stream nread b bs) v =
     (if nread < 0 then (if nread = UV_EOF \<and> uv_base b \<noteq> Null then v\<lparr>lost_chars := lost_chars v + 1\<rparr> else v)
      else if W (calls v) then v\<lparr>echo := (echo v)(stream := echo v stream @ map toupper bs), calls := calls v + 1\<rparr>
      else v\<lparr>lost_chars := lost_chars v + 1, lost_reqs := lost_reqs v + 1, calls := calls v + 1\<rparr>)"
| "uv_spec W (On_Write r status) v = v"

fun addrs_of :: "ptr \<Rightarrow> addr list" where
  "addrs_of Null = []"
| "addrs_of (Ref a) = [a]"

definition lent_addrs :: "(addr \<times> uv_buf_t) list \<Rightarrow> addr list" where
  "lent_addrs l = concat (map (\<lambda>(c, b). addrs_of (uv_base b)) l)"

definition pending_addrs :: "(addr \<times> uv_buf_t \<times> byte list) list \<Rightarrow> addr list" where
  "pending_addrs l = concat (map (\<lambda>(r, b, bs). addrs_of (uv_base b)) l)"

definition uv_view :: "uv_state \<Rightarrow> uv_view" where
  "uv_view s =
     \<lparr>echo = (\<lambda>c. concat (map snd (filter (\<lambda>w. fst w = c) (written_to s)))),
      lost_chars = card (dom (chars s) - set (lent_addrs (lent s) @ pending_addrs (pending s))),
      lost_reqs = card (dom (reqs s) - fst ` set (pending s)),
      clients = length (tcps s), calls = write_calls s\<rparr>"

text \<open>Every lent buffer is alive and large enough, every pending request is alive with its buffer, which holds the bytes
  given to \<^verbatim>\<open>uv_write\<close>; no block has two owners.\<close>

definition uv_inv :: "uv_state \<Rightarrow> bool" where
  "uv_inv s \<longleftrightarrow>
     (\<forall>a. chars s a \<noteq> None \<longrightarrow> a < brk s) \<and> (\<forall>r. reqs s r \<noteq> None \<longrightarrow> r < brk s) \<and>
     distinct (lent_addrs (lent s) @ pending_addrs (pending s)) \<and> distinct (map fst (pending s)) \<and>
     (\<forall>(c, b) \<in> set (lent s). \<forall>a. uv_base b = Ref a \<longrightarrow> (\<exists>xs. chars s a = Some xs \<and> uv_len b \<le> length xs)) \<and>
     (\<forall>(r, b, bs) \<in> set (pending s). \<exists>a. uv_base b = Ref a \<and> reqs s r = Some (Some (Ref a)) \<and> chars s a = Some (map Some bs))"

lemma upcase_copy_eq:
  "i \<le> length bs \<Longrightarrow> take (length bs) src = map Some bs \<Longrightarrow> length dst = length bs \<Longrightarrow>
   upcase_copy i (length bs) src dst = Some (take i dst @ map (Some \<circ> toupper) (drop i bs))"
proof (induction "length bs - i" arbitrary: i dst)
  case 0
  then show ?case by (subst upcase_copy.simps) simp
next
  case (Suc k)
  then have i: "i < length bs" by simp
  have "length (take (length bs) src) = length bs" using Suc.prems by simp
  then have len: "length bs \<le> length src" by simp
  have "src ! i = take (length bs) src ! i" using i by simp
  then have "src ! i = Some (bs ! i)" using Suc.prems i by simp
  then have "upcase_copy i (length bs) src dst = upcase_copy (i + 1) (length bs) src (dst[i := Some (toupper (bs ! i))])"
    using i len Suc.prems by (subst upcase_copy.simps) simp
  also have "\<dots> = Some (take (i + 1) (dst[i := Some (toupper (bs ! i))]) @ map (Some \<circ> toupper) (drop (i + 1) bs))"
    using Suc by simp
  also have "take (i + 1) (dst[i := Some (toupper (bs ! i))]) = take i dst @ [Some (toupper (bs ! i))]"
    using i Suc.prems by (simp add: take_Suc_conv_app_nth)
  finally show ?case using i by (simp add: Cons_nth_drop_Suc [symmetric])
qed

section \<open>Owners of blocks\<close>

lemma owner_removed:
  assumes "x \<in> set xs" and "distinct (concat (map f xs) @ ys)"
  shows "set (concat (map f (remove1 x xs))) = set (concat (map f xs)) - set (f x)"
    and "distinct (concat (map f (remove1 x xs)) @ ys)"
    and "set (f x) \<inter> set ys = {}"
proof -
  have "mset (concat (map f xs)) = mset (f x) + mset (concat (map f (remove1 x xs)))" using assms(1)
    by (induction xs) auto
  then have m: "mset (concat (map f xs)) = mset (f x @ concat (map f (remove1 x xs)))" by simp
  then have "distinct (f x @ concat (map f (remove1 x xs)))" using assms(2) mset_eq_imp_distinct_iff [OF m] by simp
  moreover have st: "set (concat (map f xs)) = set (f x @ concat (map f (remove1 x xs)))" using m mset_eq_setD by blast
  ultimately show "set (concat (map f (remove1 x xs))) = set (concat (map f xs)) - set (f x)" by auto
  show "distinct (concat (map f (remove1 x xs)) @ ys)"
    using \<open>distinct (f x @ _)\<close> assms(2) st by auto
  show "set (f x) \<inter> set ys = {}" using assms(2) st by auto
qed

lemmas lent_removed = owner_removed [where f = "\<lambda>(c :: addr, b :: uv_buf_t). addrs_of (uv_base b)", folded lent_addrs_def]

lemmas pending_removed = owner_removed [where f = "\<lambda>(r :: addr, b :: uv_buf_t, bs :: byte list). addrs_of (uv_base b)", folded pending_addrs_def]

lemma addrs_append [simp]:
  "lent_addrs (l @ [(c, b)]) = lent_addrs l @ addrs_of (uv_base b)"
  "pending_addrs (p @ [(r, b, bs)]) = pending_addrs p @ addrs_of (uv_base b)"
  by (simp_all add: lent_addrs_def pending_addrs_def)

lemma filter_key: "distinct (map fst xs) \<Longrightarrow> (r, y) \<in> set xs \<Longrightarrow> filter (\<lambda>p. fst p \<noteq> r) xs = remove1 (r, y) xs"
proof (induction xs)
  case (Cons p xs)
  show ?case
  proof (cases "p = (r, y)")
    case True
    then have "\<forall>q \<in> set xs. fst q \<noteq> r" using Cons.prems by force
    then show ?thesis using True by simp
  next
    case False
    then have y: "(r, y) \<in> set xs" using Cons.prems by auto
    then have "r \<in> set (map fst xs)" by force
    then have "fst p \<noteq> r" using Cons.prems(1) by auto
    then show ?thesis using Cons False y by simp
  qed
qed simp

text \<open>The blocks owned by the library are alive.\<close>

lemma owned_alive:
  assumes "uv_inv s"
  shows "set (lent_addrs (lent s) @ pending_addrs (pending s)) \<subseteq> dom (chars s)" and "fst ` set (pending s) \<subseteq> dom (reqs s)"
    and "finite (dom (chars s))" and "finite (dom (reqs s))"
proof -
  have "a \<in> dom (chars s)" if "a \<in> set (lent_addrs (lent s))" for a
  proof -
    from that obtain c b where "(c, b) \<in> set (lent s)" "a \<in> set (addrs_of (uv_base b))" by (auto simp: lent_addrs_def)
    then show ?thesis using assms by (cases "uv_base b") (fastforce simp: uv_inv_def)+
  qed
  moreover have "a \<in> dom (chars s)" if "a \<in> set (pending_addrs (pending s))" for a
  proof -
    from that obtain r b bs where "(r, b, bs) \<in> set (pending s)" "a \<in> set (addrs_of (uv_base b))"
      by (auto simp: pending_addrs_def)
    then show ?thesis using assms by (fastforce simp: uv_inv_def)
  qed
  ultimately show "set (lent_addrs (lent s) @ pending_addrs (pending s)) \<subseteq> dom (chars s)" by auto
  show "fst ` set (pending s) \<subseteq> dom (reqs s)" using assms by (fastforce simp: uv_inv_def)
  have "dom (chars s) \<subseteq> {..<brk s}" "dom (reqs s) \<subseteq> {..<brk s}" using assms by (auto simp: uv_inv_def)
  then show "finite (dom (chars s))" "finite (dom (reqs s))" using finite_subset by blast+
qed

lemma uv_invI:
  assumes "\<And>a. chars s a \<noteq> None \<Longrightarrow> a < brk s" and "\<And>r. reqs s r \<noteq> None \<Longrightarrow> r < brk s"
    and "distinct (lent_addrs (lent s) @ pending_addrs (pending s))" and "distinct (map fst (pending s))"
    and "\<And>c b a. (c, b) \<in> set (lent s) \<Longrightarrow> uv_base b = Ref a \<Longrightarrow> \<exists>xs. chars s a = Some xs \<and> uv_len b \<le> length xs"
    and "\<And>r b bs. (r, b, bs) \<in> set (pending s) \<Longrightarrow>
      \<exists>a. uv_base b = Ref a \<and> reqs s r = Some (Some (Ref a)) \<and> chars s a = Some (map Some bs)"
  shows "uv_inv s"
  using assms unfolding uv_inv_def by blast

lemma uv_invD:
  assumes "uv_inv s"
  shows "chars s a \<noteq> None \<Longrightarrow> a < brk s" and "reqs s r \<noteq> None \<Longrightarrow> r < brk s"
    and "distinct (lent_addrs (lent s) @ pending_addrs (pending s))" and "distinct (map fst (pending s))"
    and "(c, b) \<in> set (lent s) \<Longrightarrow> uv_base b = Ref a \<Longrightarrow> \<exists>xs. chars s a = Some xs \<and> uv_len b \<le> length xs"
    and "(r, b, bs) \<in> set (pending s) \<Longrightarrow>
      \<exists>a. uv_base b = Ref a \<and> reqs s r = Some (Some (Ref a)) \<and> chars s a = Some (map Some bs)"
  using assms unfolding uv_inv_def by blast+

text \<open>A returned buffer, or the null buffer: it is alive, and the library owns it no more.\<close>

lemma returned_owner:
  assumes "uv_inv s" and "(stream, b) \<in> set (lent s) \<or> uv_base b = Null"
  shows "set (lent_addrs (remove1 (stream, b) (lent s))) = set (lent_addrs (lent s)) - set (addrs_of (uv_base b))"
    and "distinct (lent_addrs (remove1 (stream, b) (lent s)) @ pending_addrs (pending s))"
    and "set (addrs_of (uv_base b)) \<inter> set (pending_addrs (pending s)) = {}"
proof -
  note D = uv_invD(3) [OF assms(1)]
  have "set (lent_addrs (remove1 (stream, b) (lent s))) = set (lent_addrs (lent s)) - set (addrs_of (uv_base b)) \<and>
    distinct (lent_addrs (remove1 (stream, b) (lent s)) @ pending_addrs (pending s)) \<and>
    set (addrs_of (uv_base b)) \<inter> set (pending_addrs (pending s)) = {}"
  proof (cases "(stream, b) \<in> set (lent s)")
    case True
    then show ?thesis using lent_removed [OF True D] by simp
  next
    case False
    then show ?thesis using assms(2) D by (simp add: remove1_idem)
  qed
  then show "set (lent_addrs (remove1 (stream, b) (lent s))) = set (lent_addrs (lent s)) - set (addrs_of (uv_base b))"
    "distinct (lent_addrs (remove1 (stream, b) (lent s)) @ pending_addrs (pending s))"
    "set (addrs_of (uv_base b)) \<inter> set (pending_addrs (pending s)) = {}" by blast+
qed

lemma returned:
  assumes "uv_inv s" and "uv_allowed (On_Read stream nread b bs) s"
  defines "t \<equiv> uv_fill (uv_base b) bs (s\<lparr>lent := remove1 (stream, b) (lent s)\<rparr>)"
  shows "uv_inv t" and "dom (chars t) = dom (chars s)" and "reqs t = reqs s" "pending t = pending s"
    and "set (lent_addrs (lent s) @ pending_addrs (pending s)) =
      set (addrs_of (uv_base b)) \<union> set (lent_addrs (lent t) @ pending_addrs (pending t))"
    and "written_to t = written_to s" "tcps t = tcps s" "write_calls t = write_calls s" "brk t = brk s"
    and "uv_base b = Ref a \<Longrightarrow> a \<notin> set (lent_addrs (lent t) @ pending_addrs (pending t)) \<and> (\<exists>xs. chars t a = Some (map Some bs @ xs))"
    and "mallocs t = mallocs s"
proof -
  have x: "(stream, b) \<in> set (lent s) \<or> uv_base b = Null" "length bs \<le> uv_len b" using assms(2) by auto
  have fields: "lent t = remove1 (stream, b) (lent s)" "pending t = pending s" "reqs t = reqs s" "brk t = brk s"
    "pending_addrs (pending t) = pending_addrs (pending s)"
    by (simp_all add: t_def uv_fill_def pending_addrs_def split: ptr.splits)
  have l: "set (lent_addrs (lent t)) = set (lent_addrs (lent s)) - set (addrs_of (uv_base b))" "distinct (lent_addrs (lent t) @ pending_addrs (pending s))"
    "set (addrs_of (uv_base b)) \<inter> set (pending_addrs (pending s)) = {}"
    using returned_owner [OF assms(1) x(1)] by (simp_all add: fields)
  have "set (lent_addrs (lent s)) = set (addrs_of (uv_base b)) \<union> set (lent_addrs (lent t))"
    using x(1) l(1) by (auto simp: lent_addrs_def)
  then show "set (lent_addrs (lent s) @ pending_addrs (pending s)) =
      set (addrs_of (uv_base b)) \<union> set (lent_addrs (lent t) @ pending_addrs (pending t))" using fields by (simp add: Un_assoc)
  show "written_to t = written_to s" "tcps t = tcps s" "write_calls t = write_calls s" "brk t = brk s" "mallocs t = mallocs s"
    by (simp_all add: t_def uv_fill_def split: ptr.splits)
  show "dom (chars t) = dom (chars s)" by (auto simp: t_def uv_fill_def split: ptr.splits)
  show "reqs t = reqs s" "pending t = pending s" by (simp_all add: fields)
  have other: "chars t a = chars s a" if "a \<notin> set (addrs_of (uv_base b))" for a
    using that by (cases "uv_base b") (auto simp: t_def uv_fill_def)
  show "uv_base b = Ref a \<Longrightarrow> a \<notin> set (lent_addrs (lent t) @ pending_addrs (pending t)) \<and> (\<exists>xs. chars t a = Some (map Some bs @ xs))"
    using uv_invD(5) [OF assms(1), of stream b a] x(1) l fields by (auto simp: t_def uv_fill_def)
  show "uv_inv t"
  proof (rule uv_invI)
    fix c b' a assume b': "(c, b') \<in> set (lent t)" "uv_base b' = Ref a"
    then have "a \<in> set (lent_addrs (lent t))" by (force simp: lent_addrs_def)
    then have "a \<notin> set (addrs_of (uv_base b))" using l(1) by auto
    moreover have "(c, b') \<in> set (lent s)" using b'(1) fields(1) by (metis notin_set_remove1)
    ultimately show "\<exists>xs. chars t a = Some xs \<and> uv_len b' \<le> length xs" using uv_invD(5) [OF assms(1)] b'(2) other by simp
  next
    fix r b' bs' assume p: "(r, b', bs') \<in> set (pending t)"
    then obtain a where a: "uv_base b' = Ref a" "reqs s r = Some (Some (Ref a))" "chars s a = Some (map Some bs')"
      using uv_invD(6) [OF assms(1)] fields by metis
    then have "a \<in> set (pending_addrs (pending s))" using p fields by (force simp: pending_addrs_def)
    then have "a \<notin> set (addrs_of (uv_base b))" using l(3) by auto
    then show "\<exists>a. uv_base b' = Ref a \<and> reqs t r = Some (Some (Ref a)) \<and> chars t a = Some (map Some bs')"
      using a other fields by auto
  qed (use \<open>dom (chars t) = dom (chars s)\<close> fields l(2) uv_invD [OF assms(1)] in \<open>auto simp: domIff\<close>)
qed

lemma freed_inv:
  assumes "uv_inv t" and "a \<notin> set (lent_addrs (lent t) @ pending_addrs (pending t))"
  shows "uv_inv (t\<lparr>chars := (chars t)(a := None)\<rparr>)"
proof (rule uv_invI)
  fix c b a' assume "(c, b) \<in> set (lent (t\<lparr>chars := (chars t)(a := None)\<rparr>))" "uv_base b = Ref a'"
  moreover from this have "a' \<noteq> a" using assms(2) by (force simp: lent_addrs_def)
  ultimately show "\<exists>xs. chars (t\<lparr>chars := (chars t)(a := None)\<rparr>) a' = Some xs \<and> uv_len b \<le> length xs"
    using uv_invD(5) [OF assms(1)] by simp
next
  fix r b bs assume p: "(r, b, bs) \<in> set (pending (t\<lparr>chars := (chars t)(a := None)\<rparr>))"
  then obtain a' where a': "uv_base b = Ref a'" "reqs t r = Some (Some (Ref a'))" "chars t a' = Some (map Some bs)"
    using uv_invD(6) [OF assms(1), of r b bs] by auto
  then have "a' \<noteq> a" using assms(2) p by (force simp: pending_addrs_def)
  then show "\<exists>a'. uv_base b = Ref a' \<and> reqs (t\<lparr>chars := (chars t)(a := None)\<rparr>) r = Some (Some (Ref a')) \<and>
      chars (t\<lparr>chars := (chars t)(a := None)\<rparr>) a' = Some (map Some bs)" using a' by simp
qed (use uv_invD [OF assms(1)] in \<open>auto split: if_splits\<close>)

text \<open>The effect of a read with data.\<close>

definition read_effect :: "(nat \<Rightarrow> bool) \<Rightarrow> addr \<Rightarrow> addr \<Rightarrow> byte list \<Rightarrow> uv_state \<Rightarrow> uv_state" where
  "read_effect W stream a bs t =
     (let s = t\<lparr>brk := brk t + 2, mallocs := mallocs t + 2, reqs := (reqs t)(brk t \<mapsto> Some (Ref (brk t + 1))),
            chars := (chars t)(brk t + 1 \<mapsto> map (Some \<circ> toupper) bs, a := None), write_calls := write_calls t + 1\<rparr>
      in if W (write_calls t)
         then s\<lparr>pending := pending t @ [(brk t, \<lparr>uv_base = Ref (brk t + 1), uv_len = length bs\<rparr>, map toupper bs)],
                written_to := written_to t @ [(stream, map toupper bs)]\<rparr>
         else s)"

lemma read_effect_addrs [simp]:
  "lent_addrs (lent (read_effect W stream a bs t)) = lent_addrs (lent t)"
  "pending_addrs (pending (read_effect W stream a bs t)) = pending_addrs (pending t) @ (if W (write_calls t) then [Suc (brk t)] else [])"
  by (simp_all add: read_effect_def Let_def lent_addrs_def pending_addrs_def)

lemma ReadCallback_data:
  assumes "chars t a = Some (map Some bs @ xs)" and "a < brk t" and "M (mallocs t)" and "M (Suc (mallocs t))"
  shows "ReadCallback M W stream (int (length bs)) \<lparr>uv_base = Ref a, uv_len = n\<rparr> t = Continue (read_effect W stream a bs t)"
proof -
  have "upcase_copy 0 (length bs) (map Some bs @ xs) (replicate (length bs) None) = Some (map (Some \<circ> toupper) bs)"
    using upcase_copy_eq [of 0 bs "map Some bs @ xs" "replicate (length bs) None"] by simp
  moreover have "a \<noteq> Suc (brk t)" using assms(2) by simp
  moreover have "map (\<lambda>x. the (Some (toupper x))) bs = map toupper bs" by simp
  ultimately show ?thesis using assms
    by (auto simp: ReadCallback_def uv_malloc_def Let_def free_chars_def uv_write_def read_effect_def comp_def
        fun_upd_twist)
qed

lemma read_effect_inv:
  assumes t: "uv_inv t" and a: "a \<notin> set (lent_addrs (lent t) @ pending_addrs (pending t))" "a < brk t"
  shows "uv_inv (read_effect W stream a bs t)"
proof -
  have i: "uv_inv (t\<lparr>chars := (chars t)(a := None)\<rparr>)" using freed_inv [OF t a(1)] .
  have lt: "x < brk t" if "x \<in> set (lent_addrs (lent t) @ pending_addrs (pending t))" for x
    using that owned_alive(1) [OF t] uv_invD(1) [OF t] by blast
  have nr: "r < brk t" if "r \<in> fst ` set (pending t)" for r
    using that owned_alive(2) [OF t] uv_invD(2) [OF t] by blast
  show ?thesis
  proof (rule uv_invI)
    fix c b a' assume p: "(c, b) \<in> set (lent (read_effect W stream a bs t))" "uv_base b = Ref a'"
    then have "(c, b) \<in> set (lent t)" by (auto simp: read_effect_def Let_def split: if_splits)
    moreover from this have "a' \<in> set (lent_addrs (lent t))" using p(2) by (force simp: lent_addrs_def)
    moreover from this have "a' \<noteq> a" "a' \<noteq> Suc (brk t)" using a lt [of a'] by auto
    ultimately show "\<exists>xs. chars (read_effect W stream a bs t) a' = Some xs \<and> uv_len b \<le> length xs"
      using uv_invD(5) [OF t _ p(2)] by (auto simp: read_effect_def Let_def)
  next
    fix r b bs' assume p: "(r, b, bs') \<in> set (pending (read_effect W stream a bs t))"
    show "\<exists>a'. uv_base b = Ref a' \<and> reqs (read_effect W stream a bs t) r = Some (Some (Ref a')) \<and>
        chars (read_effect W stream a bs t) a' = Some (map Some bs')"
    proof (cases "(r, b, bs') \<in> set (pending t)")
      case True
      then obtain a' where a': "uv_base b = Ref a'" "reqs t r = Some (Some (Ref a'))" "chars t a' = Some (map Some bs')"
        using uv_invD(6) [OF t, of r b bs'] by auto
      then have "a' \<noteq> a" "a' \<noteq> Suc (brk t)" "r \<noteq> brk t" using a True lt [of a'] nr [of r] by (force simp: pending_addrs_def)+
      then show ?thesis using a' by (auto simp: read_effect_def Let_def)
    next
      case False
      then show ?thesis using p a(2) by (auto simp: read_effect_def Let_def split: if_splits)
    qed
  next
    show "distinct (lent_addrs (lent (read_effect W stream a bs t)) @ pending_addrs (pending (read_effect W stream a bs t)))"
      using uv_invD(3) [OF t] lt [of "Suc (brk t)"] by auto
    show "distinct (map fst (pending (read_effect W stream a bs t)))"
      using uv_invD(4) [OF t] nr [of "brk t"] by (force simp: read_effect_def Let_def)
  qed (use uv_invD [OF t] a(2) in \<open>auto simp: read_effect_def Let_def less_Suc_eq split: if_splits\<close>)
qed

section \<open>Every callback keeps the invariant and does what the abstract server does\<close>

lemma card_Diff_alive: "finite A \<Longrightarrow> x \<in> A \<Longrightarrow> x \<notin> B \<Longrightarrow> card (A - B) = Suc (card (A - insert x B))"
  by (metis Diff_iff Diff_insert finite_Diff card_Suc_Diff1)

lemma exchanged:
  assumes "A' = insert n A - {a}" and "O' \<union> {a} = O1 \<union> (if w then {n} else {})" and "O1 \<subseteq> A" and "n \<notin> A" "a \<in> O1" "a \<notin> O'"
  shows "A' - O' = (if w then {} else {n}) \<union> (A - O1)"
proof -
  have "O' = (O1 \<union> (if w then {n} else {})) - {a}" using assms(2,6) by blast
  then show ?thesis using assms(1,3-5) by (cases w) auto
qed

lemma added:
  "A' = insert n A \<Longrightarrow> P' = P \<union> (if w then {n} else {}) \<Longrightarrow> P \<subseteq> A \<Longrightarrow> n \<notin> A \<Longrightarrow> A' - P' = (if w then {} else {n}) \<union> (A - P)"
  by auto

lemma handled_Connection:
  assumes "uv_inv s"
  shows "(\<exists>s'. ConnectionCallback M status s = Continue s' \<and> uv_inv s' \<and> uv_view s' = uv_spec W (On_Connection status) (uv_view s)) \<or>
    (\<exists>k. \<not> M k) \<and> (\<forall>s'. ConnectionCallback M status s \<noteq> Continue s')"
proof (cases "status < 0 \<or> M (mallocs s)")
  case True
  then obtain s' where s': "ConnectionCallback M status s = Continue s'"
    by (cases "status < 0") (simp_all add: ConnectionCallback_def uv_malloc_def)
  then have "uv_view s' = uv_spec W (On_Connection status) (uv_view s)"
    by (auto simp: ConnectionCallback_def uv_malloc_def uv_view_def split: if_splits)
  moreover have "uv_inv s'"
    by (rule uv_invI) (use s' uv_invD [OF assms] in
      \<open>auto simp: ConnectionCallback_def uv_malloc_def less_Suc_eq split: if_splits\<close>)
  ultimately show ?thesis using s' by blast
next
  case False
  then show ?thesis by (auto simp: ConnectionCallback_def uv_malloc_def)
qed

lemma handled_Alloc:
  assumes s: "uv_inv s"
  shows "\<exists>s'. uv_callback M W (On_Alloc stream n) s = Continue s' \<and> uv_inv s' \<and> uv_view s' = uv_view s"
proof (cases "M (mallocs s)")
  case True
  let ?b = "\<lparr>uv_base = Ref (brk s), uv_len = n mod 2 ^ 32\<rparr>"
  define t where "t = s\<lparr>brk := brk s + 1, mallocs := mallocs s + 1, chars := (chars s)(brk s \<mapsto> replicate n None), lent := lent s @ [(stream, ?b)]\<rparr>"
  then have fields: "chars t = (chars s)(brk s \<mapsto> replicate n None)" "reqs t = reqs s" "brk t = Suc (brk s)" "pending t = pending s"
    "lent t = lent s @ [(stream, ?b)]" "written_to t = written_to s" "tcps t = tcps s" "write_calls t = write_calls s" by simp_all
  have new: "brk s \<notin> dom (chars s)" using uv_invD(1) [OF s, of "brk s"] by auto
  then have "brk s \<notin> set (lent_addrs (lent s) @ pending_addrs (pending s))" using owned_alive(1) [OF s] by blast
  moreover have l: "lent_addrs (lent t) = lent_addrs (lent s) @ [brk s]" "pending_addrs (pending t) = pending_addrs (pending s)"
    by (simp_all add: lent_addrs_def pending_addrs_def fields)
  ultimately have d: "distinct (lent_addrs (lent t) @ pending_addrs (pending t))" using uv_invD(3) [OF s] by auto
  have "uv_inv t"
  proof (rule uv_invI)
    show "\<exists>a. uv_base b = Ref a \<and> reqs t r = Some (Some (Ref a)) \<and> chars t a = Some (map Some bs)"
      if "(r, b, bs) \<in> set (pending t)" for r b bs
      using uv_invD(6) [OF s, of r b bs] that new by (fastforce simp: fields)
    show "\<exists>xs. chars t a = Some xs \<and> uv_len b \<le> length xs" if "(c, b) \<in> set (lent t)" "uv_base b = Ref a" for c b a
      using uv_invD(5) [OF s, of c b a] that new by (auto simp: fields mod_less_eq_dividend)
  qed (use d uv_invD [OF s] in \<open>auto simp: fields less_Suc_eq split: if_splits\<close>)
  moreover have "dom (chars t) - set (lent_addrs (lent t) @ pending_addrs (pending t)) = dom (chars s) - set (lent_addrs (lent s) @ pending_addrs (pending s))"
    using new by (auto simp: l fields)
  then have "uv_view t = uv_view s" unfolding uv_view_def by (simp add: fields)
  ultimately show ?thesis using True by (simp add: t_def AllocBuffer_def uv_malloc_def)
next
  case False
  let ?s = "s\<lparr>mallocs := mallocs s + 1, lent := lent s @ [(stream, \<lparr>uv_base = Null, uv_len = n mod 2 ^ 32\<rparr>)]\<rparr>"
  have l: "lent_addrs (lent ?s) = lent_addrs (lent s)" "pending_addrs (pending ?s) = pending_addrs (pending s)" by (simp_all add: lent_addrs_def pending_addrs_def)
  have "uv_inv ?s" by (rule uv_invI) (use l uv_invD [OF s] in auto)
  moreover have "uv_view ?s = uv_view s" unfolding uv_view_def l by simp
  ultimately show ?thesis using False by (simp add: AllocBuffer_def uv_malloc_def)
qed

lemma handled_Write:
  assumes s: "uv_inv s" and r: "r \<in> fst ` set (pending s)"
  shows "\<exists>s'. uv_callback M W (On_Write r status) s = Continue s' \<and> uv_inv s' \<and> uv_view s' = uv_view s"
proof -
  obtain b bs where p: "(r, b, bs) \<in> set (pending s)" using r by force
  then obtain a where a: "uv_base b = Ref a" "reqs s r = Some (Some (Ref a))" "chars s a = Some (map Some bs)"
    using uv_invD(6) [OF s] by blast
  let ?t = "s\<lparr>pending := remove1 (r, b, bs) (pending s)\<rparr>"
  let ?u = "?t\<lparr>chars := (chars s)(a := None), reqs := (reqs s)(r := None)\<rparr>"
  have eff: "uv_callback M W (On_Write r status) s = Continue ?u"
    using a filter_key [OF uv_invD(4) [OF s] p] by (simp add: WriteCallback_def free_chars_def)
  have "distinct (pending_addrs (pending s) @ lent_addrs (lent s))" using uv_invD(3) [OF s] by auto
  note o = pending_removed [OF p this]
  have d: "set (pending_addrs (pending ?u)) = set (pending_addrs (pending s)) - {a}" "distinct (pending_addrs (pending ?u) @ lent_addrs (lent s))" "a \<notin> set (lent_addrs (lent s))"
    using o a(1) by simp_all
  have l: "lent_addrs (lent ?u) = lent_addrs (lent s)" by (simp add: lent_addrs_def)
  have sub: "set (pending ?u) \<subseteq> set (pending s)" by (simp add: set_remove1_subset)
  have rm: "fst ` set (pending ?u) = fst ` set (pending s) - {r}"
    using uv_invD(4) [OF s] filter_key [OF uv_invD(4) [OF s] p, symmetric] by auto
  have "uv_inv ?u"
  proof (rule uv_invI)
    show "\<exists>a'. uv_base b' = Ref a' \<and> reqs ?u r' = Some (Some (Ref a')) \<and> chars ?u a' = Some (map Some bs')"
      if q: "(r', b', bs') \<in> set (pending ?u)" for r' b' bs'
    proof -
      obtain a' where a': "uv_base b' = Ref a'" "reqs s r' = Some (Some (Ref a'))" "chars s a' = Some (map Some bs')"
        using uv_invD(6) [OF s, of r' b' bs'] q sub by blast
      then have "a' \<in> set (pending_addrs (pending ?u))" using q by (force simp: pending_addrs_def)
      moreover have "r' \<noteq> r" using rm q by force
      ultimately show ?thesis using a' d(1) by auto
    qed
    show "\<exists>xs. chars ?u a' = Some xs \<and> uv_len b' \<le> length xs" if "(c, b') \<in> set (lent ?u)" "uv_base b' = Ref a'" for c b' a'
    proof -
      have "a' \<in> set (lent_addrs (lent s))" using that by (force simp: lent_addrs_def)
      then show ?thesis using uv_invD(5) [OF s, of c b' a'] that d(3) by auto
    qed
    show "distinct (lent_addrs (lent ?u) @ pending_addrs (pending ?u))" using d(2) l by auto
    show "distinct (map fst (pending ?u))" using uv_invD(4) [OF s] by (simp add: distinct_map inj_on_diff)
  qed (use uv_invD [OF s] in \<open>auto split: if_splits\<close>)
  moreover have in_p: "a \<in> set (pending_addrs (pending s))" using p a(1) by (force simp: pending_addrs_def)
  have u: "dom (chars ?u) = dom (chars s) - {a}" by auto
  have "dom (chars ?u) - set (lent_addrs (lent ?u) @ pending_addrs (pending ?u)) = dom (chars s) - set (lent_addrs (lent s) @ pending_addrs (pending s))"
    unfolding set_append d(1) l u using d(3) in_p by blast
  moreover have "dom (reqs ?u) - fst ` set (pending ?u) = dom (reqs s) - fst ` set (pending s)" unfolding rm using r by auto
  ultimately show ?thesis unfolding uv_view_def eff by simp
qed

text \<open>A read: the buffer goes back to the server, which loses it at the end of a stream, frees it after an error, and
  exchanges it for a request otherwise.\<close>

lemma read_eof:
  assumes s: "uv_inv s" and e: "uv_allowed (On_Read stream nread b bs) s"
    and eof: "nread = UV_EOF"
  defines "t \<equiv> uv_fill (uv_base b) bs (s\<lparr>lent := remove1 (stream, b) (lent s)\<rparr>)"
  shows "\<exists>s'. ReadCallback M W stream nread b t = Continue s' \<and> uv_inv s' \<and>
    uv_view s' = uv_spec W (On_Read stream nread b bs) (uv_view s)"
proof -
  note r = returned [OF s e, folded t_def]
  let ?u = "t\<lparr>uv_out := uv_out t @ bytes ''closed'' @ [newline]\<rparr>"
  have "uv_inv ?u" by (rule uv_invI) (use uv_invD [OF r(1)] in auto)
  moreover have "uv_view ?u = uv_spec W (On_Read stream nread b bs) (uv_view s)"
  proof (cases "uv_base b")
    case (Ref a)
    then have "a \<in> dom (chars s)" using r(2) r(10) [OF Ref] by auto
    then have "card (dom (chars s) - set (lent_addrs (lent t) @ pending_addrs (pending t))) =
        Suc (card (dom (chars s) - set (lent_addrs (lent s) @ pending_addrs (pending s))))"
      using card_Diff_alive [OF owned_alive(3) [OF s], of a "set (lent_addrs (lent t) @ pending_addrs (pending t))"] r(10) [OF Ref] r(5) Ref by simp
    then show ?thesis using eof Ref r(2-4,6-9) by (simp add: uv_view_def UV_EOF_def)
  qed (use eof r(2-9) in \<open>simp add: uv_view_def UV_EOF_def\<close>)
  ultimately show ?thesis using eof by (simp add: ReadCallback_def UV_EOF_def)
qed

lemma read_error:
  assumes s: "uv_inv s" and e: "uv_allowed (On_Read stream nread b bs) s"
    and error: "nread < 0" "nread \<noteq> UV_EOF"
  defines "t \<equiv> uv_fill (uv_base b) bs (s\<lparr>lent := remove1 (stream, b) (lent s)\<rparr>)"
  shows "\<exists>s'. ReadCallback M W stream nread b t = Continue s' \<and> uv_inv s' \<and> uv_view s' = uv_view s"
proof -
  note r = returned [OF s e, folded t_def]
  show ?thesis
  proof (cases "uv_base b")
    case Null
    then have "uv_view t = uv_view s" using r(2-9) by (simp add: uv_view_def)
    then show ?thesis using error r(1) Null by (simp add: ReadCallback_def free_chars_def)
  next
    case (Ref a)
    let ?u = "t\<lparr>chars := (chars t)(a := None)\<rparr>"
    have "uv_inv ?u" using freed_inv [OF r(1)] r(10) [OF Ref] by simp
    moreover have "dom (chars ?u) - set (lent_addrs (lent ?u) @ pending_addrs (pending ?u)) =
        dom (chars s) - set (lent_addrs (lent s) @ pending_addrs (pending s))" using r(2,5) Ref by auto
    then have "uv_view ?u = uv_view s" unfolding uv_view_def using r(3,4,6-9) by simp
    moreover obtain xs where "chars t a = Some xs" using r(10) [OF Ref] by auto
    ultimately show ?thesis using error Ref by (simp add: ReadCallback_def free_chars_def)
  qed
qed

lemma read_data:
  assumes s: "uv_inv s" and e: "uv_allowed (On_Read stream nread b bs) s"
    and data: "nread \<ge> 0" and M: "M (mallocs s)" "M (Suc (mallocs s))"
  defines "t \<equiv> uv_fill (uv_base b) bs (s\<lparr>lent := remove1 (stream, b) (lent s)\<rparr>)"
  shows "\<exists>s'. ReadCallback M W stream nread b t = Continue s' \<and> uv_inv s' \<and>
    uv_view s' = uv_spec W (On_Read stream nread b bs) (uv_view s)"
proof -
  note r = returned [OF s e, folded t_def]
  obtain a where a: "uv_base b = Ref a" using e data by (cases "uv_base b") auto
  obtain xs where xs: "chars t a = Some (map Some bs @ xs)" using r(10) [OF a] by blast
  have lt: "a < brk t" using uv_invD(1) [OF r(1), of a] xs by simp
  have n: "nread = int (length bs)" "b = \<lparr>uv_base = Ref a, uv_len = uv_len b\<rparr>" using e data a by auto
  let ?u = "read_effect W stream a bs t"
  have eff: "ReadCallback M W stream nread b t = Continue ?u"
    using ReadCallback_data [of t a bs xs M W stream "uv_len b"] xs lt M n r(11) by simp
  have inv: "uv_inv ?u" using read_effect_inv [OF r(1) _ lt] r(10) [OF a] by simp
  have new: "Suc (brk t) \<notin> dom (chars s)" "brk t \<notin> dom (reqs s)"
    using uv_invD(1) [OF s, of "Suc (brk t)"] uv_invD(2) [OF s, of "brk t"] r(9) by auto
  have d: "dom (chars ?u) = insert (Suc (brk t)) (dom (chars s)) - {a}" "dom (reqs ?u) = insert (brk t) (dom (reqs s))"
    using lt r(2,3) by (auto simp: read_effect_def Let_def)
  let ?O = "set (lent_addrs (lent s) @ pending_addrs (pending s))" and ?P = "fst ` set (pending s)"
  let ?O' = "set (lent_addrs (lent ?u) @ pending_addrs (pending ?u))" and ?P' = "fst ` set (pending ?u)"
  let ?new = "\<lambda>x. if W (write_calls t) then {} else {x}"
  have "?O' \<union> {a} = ?O \<union> (if W (write_calls t) then {Suc (brk t)} else {})" using r(5) a by auto
  moreover have "?O \<subseteq> dom (chars s)" "?P \<subseteq> dom (reqs s)" using owned_alive(1,2) [OF s] .
  moreover have "?P' = ?P \<union> (if W (write_calls t) then {brk t} else {})" using r(4) by (simp add: read_effect_def Let_def)
  moreover have "a \<notin> ?O'" "a \<in> ?O" using r(5) a r(10) [OF a] lt by auto
  ultimately have D: "dom (chars ?u) - ?O' = ?new (Suc (brk t)) \<union> (dom (chars s) - ?O)"
    "dom (reqs ?u) - ?P' = ?new (brk t) \<union> (dom (reqs s) - ?P)"
    using exchanged [OF d(1) _ _ new(1), of ?O' ?O] added [OF d(2) _ _ new(2), of ?P' ?P]
    by (simp_all del: set_append read_effect_addrs split: if_splits)
  have "card (dom (chars ?u) - set (lent_addrs (lent ?u) @ pending_addrs (pending ?u))) =
      (if W (write_calls t) then 0 else 1) + card (dom (chars s) - set (lent_addrs (lent s) @ pending_addrs (pending s)))"
    "card (dom (reqs ?u) - fst ` set (pending ?u)) = (if W (write_calls t) then 0 else 1) + card (dom (reqs s) - fst ` set (pending s))"
    unfolding D using new owned_alive(3,4) [OF s] by (simp_all add: card_insert_disjoint)
  then have "uv_view ?u = uv_spec W (On_Read stream nread b bs) (uv_view s)"
    using data r(6-8) by (auto simp: uv_view_def simp del: read_effect_addrs) (auto simp: read_effect_def Let_def)
  then show ?thesis using eff inv by blast
qed

lemma handled_Read:
  assumes s: "uv_inv s" and e: "uv_allowed (On_Read stream nread b bs) s"
  shows "(\<exists>s'. uv_callback M W (On_Read stream nread b bs) s = Continue s' \<and> uv_inv s' \<and>
      uv_view s' = uv_spec W (On_Read stream nread b bs) (uv_view s)) \<or>
    (\<exists>k. \<not> M k) \<and> (\<forall>s'. uv_callback M W (On_Read stream nread b bs) s \<noteq> Continue s')"
proof (cases "nread < 0")
  case True
  then show ?thesis using read_eof [OF assms, of M W] read_error [OF assms, of M W]
    by (cases "nread = UV_EOF") simp_all
next
  case False
  let ?t = "uv_fill (uv_base b) bs (s\<lparr>lent := remove1 (stream, b) (lent s)\<rparr>)"
  show ?thesis
  proof (cases "M (mallocs s) \<and> M (Suc (mallocs s))")
    case True
    then show ?thesis using read_data [OF assms, of M W] False by simp
  next
    case no: False
    then have "\<forall>s'. ReadCallback M W stream nread b ?t \<noteq> Continue s'"
      using False returned(11) [OF assms] by (auto simp: ReadCallback_def uv_malloc_def Let_def)
    then show ?thesis using no by (metis uv_callback.simps(3))
  qed
qed

interpretation uv: event_loop "uv_callback M W" uv_allowed "uv_loop M W" "uv_trace M W" uv_inv uv_view "uv_spec W" "\<exists>k. \<not> M k"
  for M W
proof unfold_locales
  show "(\<exists>s'. uv_callback M W e s = Continue s' \<and> uv_inv s' \<and> uv_view s' = uv_spec W e (uv_view s)) \<or>
      (\<exists>k. \<not> M k) \<and> (\<forall>s'. uv_callback M W e s \<noteq> Continue s')" if "uv_inv s" "uv_allowed e s" for s e
  proof (cases e)
    case (On_Connection status)
    then show ?thesis using handled_Connection [OF that(1), of M status W] by simp
  next
    case (On_Alloc stream n)
    then show ?thesis using handled_Alloc [OF that(1), of M W stream n] by auto
  next
    case (On_Read stream nread b bs)
    then show ?thesis using handled_Read [of s stream nread b bs M W] that by blast
  next
    case (On_Write r status)
    then show ?thesis using handled_Write [OF that(1), of r M W status] that(2) by auto
  qed
qed auto

section \<open>Properties\<close>

text \<open>The data read from a stream whose write is accepted, where the reads with data are numbered from \<open>k\<close> on; their number; and the refused writes.\<close>

fun has_data :: "uv_event \<Rightarrow> bool" where
  "has_data (On_Read stream nread b bs) = (nread \<ge> 0)"
| "has_data e = False"

fun accepted_from :: "(nat \<Rightarrow> bool) \<Rightarrow> nat \<Rightarrow> addr \<Rightarrow> uv_event list \<Rightarrow> byte list" where
  "accepted_from W k c [] = []"
| "accepted_from W k c (On_Read stream nread b bs # es) =
     (if nread < 0 then accepted_from W k c es
      else (if stream = c \<and> W k then bs else []) @ accepted_from W (k + 1) c es)"
| "accepted_from W k c (e # es) = accepted_from W k c es"

definition refused :: "(nat \<Rightarrow> bool) \<Rightarrow> nat \<Rightarrow> nat \<Rightarrow> nat" where
  "refused W k n = length (filter (\<lambda>j. \<not> W j) [k..<k + n])"

lemma refused_Suc [simp]: "refused W k 0 = 0" "refused W k (Suc n) = of_bool (\<not> W k) + refused W (Suc k) n"
  by (simp_all add: refused_def upt_rec [of k])

text \<open>The buffers that come with the end of a stream, and the clients.\<close>

fun is_eof :: "uv_event \<Rightarrow> bool" where
  "is_eof (On_Read stream nread b bs) = (nread = UV_EOF \<and> uv_base b \<noteq> Null)"
| "is_eof e = False"

fun is_client :: "uv_event \<Rightarrow> bool" where
  "is_client (On_Connection status) = (status \<ge> 0)"
| "is_client e = False"

lemma uv_spec_fold:
  "fold (uv_spec W) es v =
    \<lparr>echo = (\<lambda>c. echo v c @ map toupper (accepted_from W (calls v) c es)),
     lost_chars = lost_chars v + length (filter is_eof es) + refused W (calls v) (length (filter has_data es)),
     lost_reqs = lost_reqs v + refused W (calls v) (length (filter has_data es)), clients = clients v + length (filter is_client es),
     calls = calls v + length (filter has_data es)\<rparr>"
proof (induction es arbitrary: v)
  case (Cons e es)
  show ?case
    by (cases e) (auto simp: Cons UV_EOF_def fun_eq_iff)
qed simp

lemma uv_start_ok: "uv_inv uv_start"
  "uv_view uv_start = \<lparr>echo = \<lambda>_. [], lost_chars = 0, lost_reqs = 0, clients = 0, calls = 0\<rparr>"
  by (simp_all add: uv_inv_def uv_view_def uv_start_def lent_addrs_def pending_addrs_def)

text \<open>C20. The libuv server is safe and echoes. On every sequence of callbacks that the library's contract allows, as long as \<open>malloc\<close> does not fail
  and whichever writes the library refuses, no callback does anything undefined (no double free, no access outside of
  a block, no use of a byte that was never written, and a buffer given to \<^verbatim>\<open>uv_write\<close> stays alive and unchanged until
  its callback), and what was given to \<^verbatim>\<open>uv_write\<close> and accepted for a client is, in order and in upper case, what was read from it in the reads
  whose write was not refused.\<close>

theorem uv_server_echoes:
  assumes "\<forall>k. M k" and "uv_trace M W es uv_start"
  shows "\<exists>s. uv_main True True M W es = Hang s \<and>
    (\<forall>c. concat (map snd (filter (\<lambda>w. fst w = c) (written_to s))) = map toupper (accepted_from W 0 c es)) \<and>
    (\<forall>(r, b, bs) \<in> set (pending s). \<exists>a. uv_base b = Ref a \<and> reqs s r = Some (Some (Ref a)) \<and> chars s a = Some (map Some bs))"
proof -
  obtain s where s: "uv_loop M W es uv_start = Continue s" "uv_inv s" "uv_view s = fold (uv_spec W) es (uv_view uv_start)"
    using uv.run_refines [OF uv_start_ok(1) assms(2)] assms(1) by blast
  have "echo (uv_view s) c = map toupper (accepted_from W 0 c es)" for c
    unfolding s(3) uv_spec_fold by (simp add: uv_start_ok)
  then show ?thesis using s(1,2) by (auto simp: uv_main_def uv_view_def uv_inv_def)
qed

definition uv_session :: "uv_event list" where
  "uv_session =
     [On_Connection 0, On_Alloc 0 4, On_Read 0 2 \<lparr>uv_base = Ref 1, uv_len = 4\<rparr> [97, 49], On_Write 2 0,
      On_Alloc 0 4, On_Read 0 UV_EOF \<lparr>uv_base = Ref 4, uv_len = 4\<rparr> [], On_Read 0 (- 104) \<lparr>uv_base = Null, uv_len = 0\<rparr> []]"

lemma uv_session_upcase:
  "upcase_copy 0 2 [Some 97, Some 49, None, None] [None, None] = Some [Some 65, Some 49]"
  "replicate 4 (None :: byte option) = [None, None, None, None]" "replicate 2 (None :: byte option) = [None, None]"
proof -
  have "upcase_copy 0 (Suc (Suc 0)) [Some 97, Some 49, None, None] [None, None] = Some [Some 65, Some 49]"
    using upcase_copy_eq [of 0 "[97, 49]" "[Some 97, Some 49, None, None]" "[None, None]"] by (simp add: toupper_def)
  then show "upcase_copy 0 2 [Some 97, Some 49, None, None] [None, None] = Some [Some 65, Some 49]"
    by (metis numeral_2_eq_2)
qed (simp_all add: numeral_eq_Suc)

lemma uv_session_trace: "uv_trace (\<lambda>_. True) (\<lambda>_. True) uv_session uv_start"
  using uv_session_upcase
  by (simp add: uv_session_def uv_start_def ConnectionCallback_def AllocBuffer_def ReadCallback_def WriteCallback_def uv_malloc_def
      free_chars_def uv_write_def uv_fill_def UV_EOF_def Let_def)

lemma uv_session_idle:
  assumes "uv_loop (\<lambda>_. True) (\<lambda>_. True) uv_session uv_start = Continue s" shows "lent s = [] \<and> pending s = []"
  using assms uv_session_upcase
  by (auto simp: uv_session_def uv_start_def ConnectionCallback_def AllocBuffer_def ReadCallback_def WriteCallback_def uv_malloc_def
      free_chars_def uv_write_def uv_fill_def UV_EOF_def Let_def)

theorem uv_server_echoes_witness:
  "\<exists>s. uv_main True True (\<lambda>_. True) (\<lambda>_. True) uv_session = Hang s \<and>
    concat (map snd (filter (\<lambda>w. fst w = 0) (written_to s))) = [65, 49]"
proof -
  obtain s where "uv_main True True (\<lambda>_. True) (\<lambda>_. True) uv_session = Hang s"
    "\<forall>c. concat (map snd (filter (\<lambda>w. fst w = c) (written_to s))) = map toupper (accepted_from (\<lambda>_. True) 0 c uv_session)"
    using uv_server_echoes [OF _ uv_session_trace] by auto
  moreover have "map toupper (accepted_from (\<lambda>_. True) 0 0 uv_session) = [65, 49]"
    by (simp add: uv_session_def UV_EOF_def toupper_def)
  ultimately show ?thesis by metis
qed

text \<open>C26. What the libuv server never gives back. On every sequence of callbacks that the library's contract allows, as long as \<open>malloc\<close> does not
  fail: once the library has no buffer and no request left, the blocks still allocated are exactly one buffer for each end of a
  stream that came with a buffer (it is not freed) and one for each write that was refused, with its request (the result of \<^verbatim>\<open>uv_write\<close> is not
  looked at); and the handle of every client that ever connected is still there (none is closed).\<close>

theorem uv_server_leaks:
  assumes "\<forall>k. M k" and "uv_trace M W es uv_start"
  shows "\<exists>s. uv_loop M W es uv_start = Continue s \<and> length (tcps s) = length (filter is_client es) \<and>
    (lent s = [] \<and> pending s = [] \<longrightarrow>
      card (dom (chars s)) = length (filter is_eof es) + refused W 0 (length (filter has_data es)) \<and>
      card (dom (reqs s)) = refused W 0 (length (filter has_data es)))"
proof -
  obtain s where s: "uv_loop M W es uv_start = Continue s" "uv_inv s" "uv_view s = fold (uv_spec W) es (uv_view uv_start)"
    using uv.run_refines [OF uv_start_ok(1) assms(2)] assms(1) by blast
  have v: "lost_chars (uv_view s) = length (filter is_eof es) + refused W 0 (length (filter has_data es))"
    "lost_reqs (uv_view s) = refused W 0 (length (filter has_data es))" "clients (uv_view s) = length (filter is_client es)"
    unfolding s(3) uv_spec_fold by (simp_all add: uv_start_ok)
  then show ?thesis using s(1) by (auto simp: uv_view_def lent_addrs_def pending_addrs_def)
qed

theorem uv_server_leaks_witness:
  "\<exists>s. uv_loop (\<lambda>_. True) (\<lambda>_. True) uv_session uv_start = Continue s \<and> length (tcps s) = 1 \<and>
    lent s = [] \<and> pending s = [] \<and> card (dom (chars s)) = 1 \<and> card (dom (reqs s)) = 0"
proof -
  obtain s where s: "uv_loop (\<lambda>_. True) (\<lambda>_. True) uv_session uv_start = Continue s" "length (tcps s) = 1"
    "lent s = [] \<and> pending s = [] \<longrightarrow> card (dom (chars s)) = 1 \<and> card (dom (reqs s)) = 0"
    using uv_server_leaks [OF _ uv_session_trace] by (auto simp: uv_session_def UV_EOF_def refused_def)
  moreover have "lent s = [] \<and> pending s = []" using s(1) uv_session_idle by simp
  ultimately show ?thesis by blast
qed

text \<open>A port that is already in use is not noticed: the loop has nothing to do and the server ends with status 0. A
  client whose handle cannot be allocated is undefined.\<close>

lemma uv_main_edges: "uv_main True False M W es = Exit 0 uv_start" "ConnectionCallback (\<lambda>_. False) 0 s = Crash"
  by (simp_all add: uv_main_def ConnectionCallback_def uv_malloc_def)

end
