(* ===== verification/Chat_Server.thy ===== *)
theory Chat_Server
  imports Posix_Io
begin

text \<open>
  \<^verbatim>\<open>src/HandsOnNetworkProgrammingWithC/tcp_server_chat01/main.c\<close>: a chat server around \<^verbatim>\<open>select\<close>. The state is
  the set \<open>master\<close> of descriptors and \<open>max_fd\<close>; the messages handed to \<^verbatim>\<open>send\<close> and the descriptors closed
  are recorded. The answers of \<^verbatim>\<open>select\<close>, \<^verbatim>\<open>accept\<close> and \<^verbatim>\<open>recv\<close> in each round are arguments; the log lines on
  the standard output are left out. \<^verbatim>\<open>FD_SET\<close> on a descriptor of 1024 or more writes outside the set.
\<close>

section \<open>State and rounds\<close>

record chat =
  master :: "nat set"
  max_fd :: nat
  outbox :: "(nat \<times> byte list) list"
  closed :: "nat list"

text \<open>What the calls of one round answer: the ready descriptors, the new connection (\<open>None\<close> is -1), and for each
  client what \<^verbatim>\<open>recv\<close> delivers (\<open>None\<close> is -1, no bytes is the end of the connection).\<close>

record round_in =
  ready :: "nat list"
  accept_of :: "nat option"
  recv_of :: "nat \<Rightarrow> byte list option"

datatype select_answer = Select_Error | Selected round_in

definition FD_SETSIZE :: nat where
  "FD_SETSIZE = 1024"

definition accept_client :: "round_in \<Rightarrow> chat \<Rightarrow> chat run" where
  "accept_client a s =
     (case accept_of a of
        None \<Rightarrow> Exit 1 s
      | Some client_sock \<Rightarrow>
          if FD_SETSIZE \<le> client_sock then Crash
          else Continue (s\<lparr>master := insert client_sock (master s), max_fd := max (max_fd s) client_sock\<rparr>))"

text \<open>The inner loop over \<open>j\<close>.\<close>

definition broadcast :: "nat \<Rightarrow> nat \<Rightarrow> byte list \<Rightarrow> chat \<Rightarrow> chat" where
  "broadcast server_sock i bs s =
     s\<lparr>outbox := outbox s @
        map (\<lambda>j. (j, bs)) (filter (\<lambda>j. j \<in> master s \<and> \<not> (j = server_sock \<or> j = i)) [1..<max_fd s + 1])\<rparr>"

definition serve_fd :: "nat \<Rightarrow> round_in \<Rightarrow> nat \<Rightarrow> chat \<Rightarrow> chat run" where
  "serve_fd server_sock a i s =
     (if i = server_sock then accept_client a s
      else case recv_of a i of
        None \<Rightarrow> Continue (s\<lparr>master := master s - {i}, closed := closed s @ [i]\<rparr>)
      | Some bs \<Rightarrow> Continue (broadcast server_sock i bs s))"

lemma serve_fd_max_fd:
  "serve_fd server_sock a i s = Continue s' \<Longrightarrow> i \<noteq> server_sock \<Longrightarrow> max_fd s' = max_fd s"
  by (auto simp: serve_fd_def broadcast_def split: option.splits)

text \<open>The loop over \<open>i\<close>; \<open>max_fd\<close> is read again in each round of it, and may have grown.\<close>

function fd_loop :: "nat \<Rightarrow> round_in \<Rightarrow> nat set \<Rightarrow> nat \<Rightarrow> chat \<Rightarrow> chat run" where
  "fd_loop server_sock a reads i s =
     (if i \<le> max_fd s
      then if i \<in> reads
        then (case serve_fd server_sock a i s of
                Continue s \<Rightarrow> fd_loop server_sock a reads (i + 1) s
              | r \<Rightarrow> r)
        else fd_loop server_sock a reads (i + 1) s
      else Continue s)"
  by pat_completeness auto
termination
  by (relation "measures [\<lambda>(server_sock, a, reads, i, s). server_sock + 1 - i,
      \<lambda>(server_sock, a, reads, i, s). max_fd s + 1 - i]") (auto dest: serve_fd_max_fd)

declare fd_loop.simps [simp del]

definition chat_round :: "nat \<Rightarrow> round_in \<Rightarrow> chat \<Rightarrow> chat run" where
  "chat_round server_sock a s = fd_loop server_sock a (master s \<inter> set (ready a)) 1 s"

fun chat_loop :: "nat \<Rightarrow> select_answer list \<Rightarrow> chat \<Rightarrow> chat run" where
  "chat_loop server_sock [] s = Hang s"
| "chat_loop server_sock (Select_Error # as) s = Exit 1 s"
| "chat_loop server_sock (Selected a # as) s = and_run (chat_round server_sock a s) (chat_loop server_sock as)"

text \<open>\<^verbatim>\<open>socket\<close>, \<^verbatim>\<open>setsockopt\<close>, \<^verbatim>\<open>bind\<close> and \<^verbatim>\<open>listen\<close> come first.\<close>

definition chat_start :: "nat \<Rightarrow> chat" where
  "chat_start server_sock = \<lparr>master = {server_sock}, max_fd = server_sock, outbox = [], closed = []\<rparr>"

definition chat_main :: "bool list \<Rightarrow> nat \<Rightarrow> select_answer list \<Rightarrow> chat run" where
  "chat_main setup server_sock as =
     (if list_all id (take 4 setup) then chat_loop server_sock as (chat_start server_sock)
      else Exit 1 (chat_start server_sock))"

section \<open>The invariant\<close>

text \<open>The listening socket and the clients are descriptors from 1 to \<open>max_fd\<close>, and fit a descriptor set.\<close>

definition chat_inv :: "nat \<Rightarrow> chat \<Rightarrow> bool" where
  "chat_inv server_sock s \<longleftrightarrow> server_sock \<in> master s \<and> (\<forall>i \<in> master s. 0 < i \<and> i \<le> max_fd s) \<and> max_fd s < FD_SETSIZE"

text \<open>The system hands out descriptors that are not 0 and below 1024.\<close>

definition round_ok :: "round_in \<Rightarrow> bool" where
  "round_ok a \<longleftrightarrow> (case accept_of a of None \<Rightarrow> True | Some c \<Rightarrow> 0 < c \<and> c < FD_SETSIZE)"

lemma serve_fd_inv:
  assumes "chat_inv server_sock s" and "round_ok a"
  shows "serve_fd server_sock a i s \<noteq> Crash" and "serve_fd server_sock a i s \<noteq> Hang h"
    and "serve_fd server_sock a i s = Continue s' \<Longrightarrow> chat_inv server_sock s'"
proof -
  show "serve_fd server_sock a i s \<noteq> Crash" "serve_fd server_sock a i s \<noteq> Hang h"
    using assms by (auto simp: serve_fd_def accept_client_def round_ok_def split: option.splits)
  show "chat_inv server_sock s'" if served: "serve_fd server_sock a i s = Continue s'"
  proof (cases "i = server_sock")
    case True
    then obtain c where "accept_of a = Some c" "c < FD_SETSIZE" "0 < c"
      "s' = s\<lparr>master := insert c (master s), max_fd := max (max_fd s) c\<rparr>"
      using served assms(2) by (auto simp: serve_fd_def accept_client_def round_ok_def split: option.splits)
    then show ?thesis using assms(1) by (auto simp: chat_inv_def le_max_iff_disj)
  next
    case False
    then show ?thesis using served assms(1) by (auto simp: serve_fd_def broadcast_def chat_inv_def split: option.splits)
  qed
qed

text \<open>A run that neither crashes nor blocks, and keeps the invariant if it goes on.\<close>

definition keeps_inv :: "nat \<Rightarrow> chat run \<Rightarrow> bool" where
  "keeps_inv server_sock r = (case r of Continue s \<Rightarrow> chat_inv server_sock s | Exit n s \<Rightarrow> True | Hang s \<Rightarrow> False | Crash \<Rightarrow> False)"

lemma serve_fd_keeps: "chat_inv server_sock s \<Longrightarrow> round_ok a \<Longrightarrow> keeps_inv server_sock (serve_fd server_sock a i s)"
  using serve_fd_inv [of server_sock s a i] by (auto simp: keeps_inv_def split: run.splits)

lemma fd_loop_inv: "chat_inv server_sock s \<Longrightarrow> round_ok a \<Longrightarrow> keeps_inv server_sock (fd_loop server_sock a reads i s)"
proof (induction server_sock a reads i s rule: fd_loop.induct)
  case (1 server_sock a reads i s)
  consider "\<not> i \<le> max_fd s" | "i \<le> max_fd s" "i \<notin> reads" | "i \<le> max_fd s" "i \<in> reads" by blast
  then show ?case
  proof cases
    case 1
    then show ?thesis using "1.prems" by (simp add: fd_loop.simps [of server_sock a reads i s] keeps_inv_def)
  next
    case 2
    then show ?thesis using "1.IH"(2) "1.prems" by (simp add: fd_loop.simps [of server_sock a reads i s])
  next
    case 3
    show ?thesis
    proof (cases "serve_fd server_sock a i s")
      case (Continue s')
      then have "chat_inv server_sock s'" using serve_fd_keeps [OF "1.prems", of i] by (simp add: keeps_inv_def)
      then show ?thesis using "1.IH"(1) [OF 3 Continue] "1.prems"(2) 3 Continue
        by (simp add: fd_loop.simps [of server_sock a reads i s])
    qed (use 3 serve_fd_keeps [OF "1.prems", of i] in \<open>simp_all add: fd_loop.simps [of server_sock a reads i s]\<close>)
  qed
qed

lemma chat_loop_inv:
  assumes "list_all (\<lambda>x. case x of Select_Error \<Rightarrow> True | Selected a \<Rightarrow> round_ok a) as" and "chat_inv server_sock s"
  shows "chat_loop server_sock as s \<noteq> Crash \<and> (\<forall>s'. chat_loop server_sock as s = Hang s' \<longrightarrow> chat_inv server_sock s')"
  using assms
proof (induction as arbitrary: s)
  case (Cons x as)
  show ?case
  proof (cases x)
    case (Selected a)
    note inv = fd_loop_inv [OF Cons.prems(2), of a "master s \<inter> set (ready a)" 1]
    have "round_ok a" using Cons.prems(1) Selected by simp
    with inv have "keeps_inv server_sock (chat_round server_sock a s)" by (simp add: chat_round_def)
    then consider s' where "chat_round server_sock a s = Continue s'" "chat_inv server_sock s'"
      | n s' where "chat_round server_sock a s = Exit n s'"
      by (auto simp: keeps_inv_def split: run.splits)
    then show ?thesis
    proof cases
      case 1
      then show ?thesis using Cons.IH [of s'] Cons.prems(1) Selected by simp
    qed (simp add: Selected)
  qed simp
qed simp

section \<open>What a round should do\<close>

text \<open>A round without loops over descriptor numbers and without \<open>max_fd\<close>: the ready descriptors are served in their order; a connection
  joins; a client whose connection has failed leaves; what a client sent goes to all who are there except the client itself.
  The state has the descriptors that are there, the messages sent and the descriptors closed; \<open>None\<close> is a failed \<^verbatim>\<open>accept\<close>.\<close>

type_synonym talk = "nat set \<times> (nat \<times> byte list) list \<times> nat list"

fun chat_spec :: "nat \<Rightarrow> round_in \<Rightarrow> nat list \<Rightarrow> talk \<Rightarrow> talk option" where
  "chat_spec server_sock a [] t = Some t"
| "chat_spec server_sock a (i # is) (members, sent, left) =
     (if i = server_sock
      then (case accept_of a of None \<Rightarrow> None | Some c \<Rightarrow> chat_spec server_sock a is (insert c members, sent, left))
      else case recv_of a i of
        None \<Rightarrow> chat_spec server_sock a is (members - {i}, sent, left @ [i])
      | Some bs \<Rightarrow>
          chat_spec server_sock a is
            (members, sent @ map (\<lambda>j. (j, bs)) (sorted_list_of_set (members - {server_sock, i})), left))"

definition talk_of :: "chat \<Rightarrow> talk" where
  "talk_of s = (master s, outbox s, closed s)"

definition does :: "chat run \<Rightarrow> talk option \<Rightarrow> bool" where
  "does r t = (case t of None \<Rightarrow> \<exists>s'. r = Exit 1 s' | Some t \<Rightarrow> \<exists>s'. r = Continue s' \<and> talk_of s' = t)"

lemma broadcast_members:
  assumes "chat_inv server_sock s"
  shows "filter (\<lambda>j. j \<in> master s \<and> \<not> (j = server_sock \<or> j = i)) [1..<max_fd s + 1] = sorted_list_of_set (master s - {server_sock, i})"
proof (rule sorted_distinct_set_unique)
  have "finite (master s)" using assms finite_subset [of "master s" "{..max_fd s}"] by (auto simp: chat_inv_def)
  then show "set (filter (\<lambda>j. j \<in> master s \<and> \<not> (j = server_sock \<or> j = i)) [1..<max_fd s + 1]) =
      set (sorted_list_of_set (master s - {server_sock, i}))"
    using assms by (auto simp: chat_inv_def less_Suc_eq_le Suc_le_eq)
qed (simp_all add: sorted_wrt_filter del: upt_Suc)

lemma serve_fd_spec:
  assumes "chat_inv server_sock s" and "round_ok a"
  shows "(\<exists>s'. serve_fd server_sock a i s = Exit 1 s' \<and> chat_spec server_sock a (i # is) (talk_of s) = None) \<or>
    (\<exists>s'. serve_fd server_sock a i s = Continue s' \<and> chat_inv server_sock s' \<and> max_fd s \<le> max_fd s' \<and>
      chat_spec server_sock a (i # is) (talk_of s) = chat_spec server_sock a is (talk_of s'))"
proof (cases "serve_fd server_sock a i s")
  case (Continue s')
  have "max_fd s \<le> max_fd s'" using Continue
    by (cases "i = server_sock") (auto simp: serve_fd_def accept_client_def broadcast_def split: option.splits if_splits)
  moreover have "chat_spec server_sock a (i # is) (talk_of s) = chat_spec server_sock a is (talk_of s')"
    using Continue broadcast_members [OF assms(1), of i]
    by (auto simp: serve_fd_def accept_client_def broadcast_def talk_of_def split: option.splits if_splits)
  ultimately show ?thesis using Continue serve_fd_inv(3) [OF assms Continue] by blast
qed (use assms serve_fd_inv(1,2) [OF assms] in
    \<open>auto simp: serve_fd_def accept_client_def talk_of_def split: option.splits if_splits\<close>)

text \<open>The descriptors that are left to serve.\<close>

lemma left_to_serve:
  assumes "finite (R :: nat set)"
  shows "sorted_list_of_set {k \<in> R. i \<le> k} =
    (if i \<in> R then i # sorted_list_of_set {k \<in> R. i + 1 \<le> k} else sorted_list_of_set {k \<in> R. i + 1 \<le> k})"
proof (rule sorted_distinct_set_unique)
  show "set (sorted_list_of_set {k \<in> R. i \<le> k}) =
      set (if i \<in> R then i # sorted_list_of_set {k \<in> R. i + 1 \<le> k} else sorted_list_of_set {k \<in> R. i + 1 \<le> k})"
    using assms by (auto simp: le_less)
qed (use assms in auto)

lemma fd_loop_spec:
  assumes "chat_inv server_sock s" and "round_ok a" and "reads \<subseteq> {..max_fd s}"
  shows "does (fd_loop server_sock a reads i s) (chat_spec server_sock a (sorted_list_of_set {k \<in> reads. i \<le> k}) (talk_of s))"
  using assms
proof (induction server_sock a reads i s rule: fd_loop.induct)
  case (1 server_sock a reads i s)
  have fin: "finite reads" using "1.prems"(3) finite_subset by blast
  note unfold = fd_loop.simps [of server_sock a reads i s] left_to_serve [OF fin, of i]
  consider "\<not> i \<le> max_fd s" | "i \<le> max_fd s" "i \<notin> reads" | "i \<le> max_fd s" "i \<in> reads" by blast
  then show ?case
  proof cases
    case 1
    then have none: "{k \<in> reads. i \<le> k} = {}" using "1.prems"(3) by auto
    show ?thesis unfolding none using 1 by (subst fd_loop.simps) (simp add: does_def)
  next
    case 2
    then show ?thesis unfolding unfold using "1.IH"(2) "1.prems" by simp
  next
    case 3
    let ?is = "sorted_list_of_set {k \<in> reads. i + 1 \<le> k}"
    from serve_fd_spec [OF "1.prems"(1,2), of i ?is] show ?thesis
    proof (elim disjE exE conjE)
      fix s' assume "serve_fd server_sock a i s = Exit 1 s'" "chat_spec server_sock a (i # ?is) (talk_of s) = None"
      then show ?thesis unfolding unfold using 3 by (simp add: does_def)
    next
      fix s' assume s': "serve_fd server_sock a i s = Continue s'" "chat_inv server_sock s'" "max_fd s \<le> max_fd s'"
        "chat_spec server_sock a (i # ?is) (talk_of s) = chat_spec server_sock a ?is (talk_of s')"
      have "reads \<subseteq> {..max_fd s'}" using "1.prems"(3) s'(3) by auto
      then have "does (fd_loop server_sock a reads (i + 1) s') (chat_spec server_sock a ?is (talk_of s'))"
        using "1.IH"(1) [OF 3 s'(1,2) "1.prems"(2)] by blast
      then show ?thesis unfolding unfold using 3 s'(1,4) by simp
    qed
  qed
qed

lemma chat_round_spec:
  assumes "chat_inv server_sock s" and "round_ok a"
  shows "does (chat_round server_sock a s) (chat_spec server_sock a (sorted_list_of_set (master s \<inter> set (ready a))) (talk_of s))"
proof -
  have "{k \<in> master s \<inter> set (ready a). 1 \<le> k} = master s \<inter> set (ready a)" "master s \<inter> set (ready a) \<subseteq> {..max_fd s}"
    using assms(1) by (auto simp: chat_inv_def Suc_le_eq)
  then show ?thesis unfolding chat_round_def using fd_loop_spec [OF assms, of "master s \<inter> set (ready a)" 1] by simp
qed

section \<open>Properties\<close>

lemma chat_start_inv: "0 < server_sock \<Longrightarrow> server_sock < FD_SETSIZE \<Longrightarrow> chat_inv server_sock (chat_start server_sock)"
  by (simp add: chat_inv_def chat_start_def)

text \<open>C19. However connections and messages arrive, as long as the system hands out descriptors from 1 to 1023 the
  server never writes outside its descriptor sets, and when it waits again the listening socket is in
  \<open>master\<close> and every descriptor there is between 1 and \<open>max_fd\<close>, so no client is overlooked by the loops.\<close>

theorem chat_server_invariant:
  assumes "0 < server_sock" and "server_sock < 1024"
    and "list_all (\<lambda>x. case x of Select_Error \<Rightarrow> True | Selected a \<Rightarrow> round_ok a) as"
  shows "chat_main setup server_sock as \<noteq> Crash \<and>
    (\<forall>s. chat_main setup server_sock as = Hang s \<longrightarrow> chat_inv server_sock s)"
  using chat_loop_inv [OF assms(3) chat_start_inv] assms(1,2) by (simp add: chat_main_def FD_SETSIZE_def)

text \<open>Two clients connect, the second says hello and the first disconnects.\<close>

definition sample_rounds :: "select_answer list" where
  "sample_rounds =
     [Selected \<lparr>ready = [3], accept_of = Some 4, recv_of = \<lambda>_. None\<rparr>,
      Selected \<lparr>ready = [3], accept_of = Some 5, recv_of = \<lambda>_. None\<rparr>,
      Selected \<lparr>ready = [5], accept_of = None, recv_of = \<lambda>_. Some [104, 105]\<rparr>,
      Selected \<lparr>ready = [4], accept_of = None, recv_of = \<lambda>_. Some []\<rparr>]"

lemma sample_rounds_ok: "list_all (\<lambda>x. case x of Select_Error \<Rightarrow> True | Selected a \<Rightarrow> round_ok a) sample_rounds"
  by (simp add: sample_rounds_def round_ok_def FD_SETSIZE_def)

lemma sample_run:
  "chat_main [True, True, True, True] 3 sample_rounds =
    Hang \<lparr>master = {5, 4, 3}, max_fd = 5, outbox = [(4, [104, 105]), (5, [])], closed = []\<rparr>"
  by code_simp

theorem chat_server_invariant_witness:
  "chat_inv 3 \<lparr>master = {5, 4, 3}, max_fd = 5, outbox = [(4, [104, 105]), (5, [])], closed = []\<rparr>"
  using chat_server_invariant [of 3 sample_rounds "[True, True, True, True]"] sample_rounds_ok sample_run by simp

text \<open>C18. In every round every message reaches exactly the others who are there: whichever clients are ready when the server has waited,
  and whether or not a connection comes in, the round serves all of them, in the order of their descriptors, like \<open>chat_spec\<close>: what a
  client sent is passed on, once and in that order, to every descriptor that is in \<open>master\<close> at that moment except the listening socket and the client
  itself; a connection joins; a client whose \<^verbatim>\<open>recv\<close> fails is closed and leaves; and a failed \<^verbatim>\<open>accept\<close> ends the server with status 1.
  The end of a connection is a message of no bytes: the client stays in \<open>master\<close>, and its descriptor is never closed.\<close>

theorem chat_message_reaches_others:
  assumes "0 < server_sock" and "server_sock < 1024"
    and "list_all (\<lambda>x. case x of Select_Error \<Rightarrow> True | Selected a \<Rightarrow> round_ok a) as"
    and "chat_main setup server_sock as = Hang s" and "round_ok a"
  shows "case chat_spec server_sock a (sorted_list_of_set (master s \<inter> set (ready a))) (master s, outbox s, closed s) of
      None \<Rightarrow> \<exists>s'. chat_round server_sock a s = Exit 1 s'
    | Some (members, sent, left) \<Rightarrow>
        \<exists>s'. chat_round server_sock a s = Continue s' \<and> master s' = members \<and> outbox s' = sent \<and> closed s' = left"
proof -
  have "chat_inv server_sock s"
    using chat_loop_inv [OF assms(3) chat_start_inv] assms(1,2,4) by (auto simp: chat_main_def FD_SETSIZE_def split: if_splits)
  from chat_round_spec [OF this assms(5)] show ?thesis by (auto simp: does_def talk_of_def split: option.splits)
qed

text \<open>Both clients are ready, and a third one connects.\<close>

definition busy_round :: round_in where
  "busy_round = \<lparr>ready = [5, 3, 4], accept_of = Some 6, recv_of = \<lambda>i. if i = 4 then Some [111] else Some [107]\<rparr>"

lemma busy_set: "{5, 4, 3} \<inter> set (ready busy_round) = {3, 4, 5}"
  by (auto simp: busy_round_def)

theorem chat_message_reaches_others_witness:
  "\<exists>s'. chat_round 3 busy_round \<lparr>master = {5, 4, 3}, max_fd = 5, outbox = [(4, [104, 105]), (5, [])], closed = []\<rparr> = Continue s' \<and>
    master s' = {3, 4, 5, 6} \<and>
    outbox s' = [(4, [104, 105]), (5, []), (5, [111]), (6, [111]), (4, [107]), (6, [107])] \<and> closed s' = []"
proof -
  have "round_ok busy_round" by (simp add: round_ok_def busy_round_def FD_SETSIZE_def)
  moreover have "chat_spec 3 busy_round (sorted_list_of_set {3, 4, 5}) ({5, 4, 3}, [(4, [104, 105]), (5, [])], []) =
      Some ({3, 4, 5, 6}, [(4, [104, 105]), (5, []), (5, [111]), (6, [111]), (4, [107]), (6, [107])], [])"
    by code_simp
  ultimately show ?thesis using chat_message_reaches_others [OF _ _ sample_rounds_ok sample_run, of busy_round]
    unfolding chat.simps busy_set by simp
qed

end
