(* ===== verification/Fd_Passing.thy ===== *)
theory Fd_Passing
  imports Posix_Io
begin

unbundle bit_operations_syntax

text \<open>
  A server that passes an open file to its clients over a local socket, and its client: \<^verbatim>\<open>src/send_fd_unix_socket\<close>.

  The control buffers are bytes in memory with the layout of \<^verbatim>\<open>struct cmsghdr\<close> on 64-bit Linux: a length of eight bytes,
  level and type of four bytes each, then the data; \<^verbatim>\<open>CMSG_LEN(sizeof(int))\<close> is 20 and \<^verbatim>\<open>CMSG_SPACE(sizeof(int))\<close> is 24. A byte is
  \<open>None\<close> until it is written. A process has a table of descriptors, new ones get the lowest free number below a
  limit. \<^verbatim>\<open>sendmsg\<close> and \<^verbatim>\<open>recvmsg\<close> are modelled as far as the two programs use them: the kernel takes the file behind the
  descriptor in a \<^verbatim>\<open>SCM_RIGHTS\<close> message, and puts it into the receiver's table.
\<close>

section \<open>Integers in memory\<close>

definition le4 :: "u32 \<Rightarrow> byte list" where
  "le4 w = [ucast w, ucast (drop_bit 8 w), ucast (drop_bit 16 w), ucast (drop_bit 24 w)]"

definition le8 :: "u64 \<Rightarrow> byte list" where
  "le8 w = le4 (ucast w) @ le4 (ucast (drop_bit 32 w))"

fun of_le :: "byte list \<Rightarrow> 'a::len word" where
  "of_le [] = 0"
| "of_le (b # bs) = ucast b OR push_bit 8 (of_le bs)"

text \<open>A store to and a load from a buffer.\<close>

definition store_bytes :: "nat \<Rightarrow> byte list \<Rightarrow> byte option list \<Rightarrow> byte option list option" where
  "store_bytes i bs buf =
     (if i + length bs \<le> length buf then Some (take i buf @ map Some bs @ drop (i + length bs) buf) else None)"

definition load_bytes :: "nat \<Rightarrow> nat \<Rightarrow> byte option list \<Rightarrow> byte list option" where
  "load_bytes i n buf =
     (let xs = take n (drop i buf) in if length xs = n \<and> None \<notin> set xs then Some (map the xs) else None)"

section \<open>Descriptors and messages\<close>

datatype file_obj = Terminal | Listener | Peer | Test_Txt

type_synonym fd_table = "nat \<rightharpoonup> file_obj"

definition install :: "nat \<Rightarrow> file_obj \<Rightarrow> fd_table \<Rightarrow> (nat \<times> fd_table) option" where
  "install limit f t = map_option (\<lambda>fd. (fd, t(fd \<mapsto> f))) (find (\<lambda>fd. t fd = None) [0..<limit])"

definition standard_fds :: fd_table where
  "standard_fds = [0 \<mapsto> Terminal, 1 \<mapsto> Terminal, 2 \<mapsto> Terminal]"

abbreviation SOL_SOCKET :: u32 where
  "SOL_SOCKET \<equiv> 1"

abbreviation SCM_RIGHTS :: u32 where
  "SCM_RIGHTS \<equiv> 1"

text \<open>A message in the socket: its data and the files that travel with it.\<close>

type_synonym message = "byte list \<times> file_obj list"

fun ints_of :: "byte list \<Rightarrow> int list" where
  "ints_of (a # b # c # d # bs) = sint (of_le [a, b, c, d] :: u32) # ints_of bs"
| "ints_of _ = []"

text \<open>What the kernel reads in a control buffer, and \<^verbatim>\<open>sendmsg\<close>, which fails on another kind of message, on a descriptor
  that is not open, or if the peer is gone.\<close>

definition scm_rights :: "byte list \<Rightarrow> int list option" where
  "scm_rights control =
     (let len = unat (of_le (take 8 control) :: u64)
      in if length control < 16 \<or> len < 16 \<or> length control < len \<or>
            of_le (take 4 (drop 8 control)) \<noteq> SOL_SOCKET \<or> of_le (take 4 (drop 12 control)) \<noteq> SCM_RIGHTS
         then None else Some (ints_of (drop 16 (take len control))))"

definition file_of :: "fd_table \<Rightarrow> int \<Rightarrow> file_obj option" where
  "file_of t fd = (if fd < 0 then None else t (nat fd))"

definition sendmsg :: "bool \<Rightarrow> byte list \<Rightarrow> byte list \<Rightarrow> fd_table \<Rightarrow> message option" where
  "sendmsg peer data control t =
     (if peer
      then do { fds \<leftarrow> scm_rights control; files \<leftarrow> those (map (file_of t) fds); Some (data, files) }
      else None)"

datatype reception = Recv_Failed | End_Of_Stream | Arrived message

text \<open>\<^verbatim>\<open>recvmsg\<close> puts the files that the control buffer has room for into the table, and their descriptors into the
  buffer; without any it leaves the buffer as it is. The result is the number of bytes received.\<close>

fun install_all :: "nat \<Rightarrow> file_obj list \<Rightarrow> fd_table \<Rightarrow> nat list \<times> fd_table" where
  "install_all limit [] t = ([], t)"
| "install_all limit (f # fs) t =
     (case install limit f t of
        None \<Rightarrow> ([], t)
      | Some (fd, t) \<Rightarrow> (case install_all limit fs t of (fds, t) \<Rightarrow> (fd # fds, t)))"

definition recvmsg ::
  "nat \<Rightarrow> reception \<Rightarrow> nat \<Rightarrow> byte option list \<Rightarrow> fd_table \<Rightarrow> (int \<times> byte option list \<times> fd_table) option" where
  "recvmsg limit r controllen buf t =
     (case r of
        Recv_Failed \<Rightarrow> Some (- 1, buf, t)
      | End_Of_Stream \<Rightarrow> Some (0, buf, t)
      | Arrived (data, files) \<Rightarrow>
        (case install_all limit (take ((controllen - 16) div 4) files) t of
           (fds, t) \<Rightarrow>
             if fds = [] then Some (1, buf, t)
             else do {
               buf \<leftarrow> store_bytes 0 (le8 (of_nat (16 + 4 * length fds)) @ le4 SOL_SOCKET @ le4 SCM_RIGHTS) buf;
               buf \<leftarrow> store_bytes 16 (concat (map (le4 \<circ> of_nat) fds)) buf;
               Some (1, buf, t) }))"

section \<open>server.c\<close>

text \<open>The result of \<^verbatim>\<open>do_sendmsg\<close> and the message it sent; undefined would be a store outside of the buffer, or to send a byte that
  was never written.\<close>

definition do_sendmsg :: "bool \<Rightarrow> nat \<Rightarrow> fd_table \<Rightarrow> (int \<times> message option) option" where
  "do_sendmsg peer fd t =
     do {
       chdr \<leftarrow> store_bytes 0 (le8 20) (replicate 24 None);
       chdr \<leftarrow> store_bytes 8 (le4 SOL_SOCKET) chdr;
       chdr \<leftarrow> store_bytes 12 (le4 SCM_RIGHTS) chdr;
       chdr \<leftarrow> store_bytes 16 (le4 (of_nat fd)) chdr;
       control \<leftarrow> load_bytes 0 20 chdr;
       Some (case sendmsg peer (bytes ''!'') control t of None \<Rightarrow> (- 1, None) | Some m \<Rightarrow> (0, Some m)) }"

record fd_server =
  s_table :: fd_table
  s_out :: "byte list"
  s_sent :: "message list"

text \<open>A round of the loop: whether \<^verbatim>\<open>accept\<close> and \<^verbatim>\<open>open\<close> succeed (as far as there are free descriptors) and whether the client is still there.\<close>

type_synonym fd_round = "bool \<times> bool \<times> bool"

fun fd_server_loop :: "nat \<Rightarrow> fd_round list \<Rightarrow> fd_server \<Rightarrow> fd_server run" where
  "fd_server_loop limit [] s = Hang s"
| "fd_server_loop limit ((accept_ok, open_ok, peer) # rounds) s =
     (case if accept_ok then install limit Peer (s_table s) else None of
        None \<Rightarrow> Exit 1 s
      | Some (client, t) \<Rightarrow>
        (case if open_ok then install limit Test_Txt t else None of
           None \<Rightarrow> Exit 1 (s\<lparr>s_table := t\<rparr>)
         | Some (fd, t) \<Rightarrow>
           (let s = s\<lparr>s_table := t, s_out := s_out s @ bytes ''## send fd='' @ decimal fd @ [newline]\<rparr>
            in case do_sendmsg peer fd t of
                 None \<Rightarrow> Crash
               | Some (_, None) \<Rightarrow> Exit 1 s
               | Some (_, Some m) \<Rightarrow> fd_server_loop limit rounds (s\<lparr>s_sent := s_sent s @ [m]\<rparr>))))"

text \<open>\<^verbatim>\<open>socket\<close>, \<^verbatim>\<open>bind\<close>, \<^verbatim>\<open>listen\<close>.\<close>

definition fd_server_main :: "nat \<Rightarrow> bool list \<Rightarrow> fd_round list \<Rightarrow> fd_server run" where
  "fd_server_main limit setup rounds =
     (let s = \<lparr>s_table = standard_fds, s_out = [], s_sent = []\<rparr>
      in if list_all id (take 3 setup) then fd_server_loop limit rounds (s\<lparr>s_table := standard_fds(3 \<mapsto> Listener)\<rparr>) else Exit 1 s)"

section \<open>client.c\<close>

record fd_client =
  c_table :: fd_table
  c_out :: "byte list"
  c_sent :: "byte list"
  test_txt :: "byte list"

definition write_fd :: "int \<Rightarrow> byte list \<Rightarrow> fd_client \<Rightarrow> fd_client" where
  "write_fd fd bs s =
     (case file_of (c_table s) fd of
        Some Terminal \<Rightarrow> s\<lparr>c_out := c_out s @ bs\<rparr>
      | Some Peer \<Rightarrow> s\<lparr>c_sent := c_sent s @ bs\<rparr>
      | Some Test_Txt \<Rightarrow> s\<lparr>test_txt := test_txt s @ bs\<rparr>
      | _ \<Rightarrow> s)"

definition close_fd :: "int \<Rightarrow> fd_client \<Rightarrow> fd_client" where
  "close_fd fd s = (if fd < 0 then s else s\<lparr>c_table := (c_table s)(nat fd := None)\<rparr>)"

definition hello :: "byte list" where
  "hello = bytes ''hello world'' @ [newline]"

text \<open>\<open>raw\<close> is what the control buffer holds on entry. The descriptor is read from the buffer whether a control message has come or not.\<close>

definition do_recvmsg :: "nat \<Rightarrow> byte list \<Rightarrow> reception \<Rightarrow> fd_client \<Rightarrow> (int \<times> fd_client) option" where
  "do_recvmsg limit raw r s =
     do {
       buf \<leftarrow> store_bytes 0 (le8 20) (map Some raw);
       buf \<leftarrow> store_bytes 8 (le4 SOL_SOCKET) buf;
       buf \<leftarrow> store_bytes 12 (le4 SCM_RIGHTS) buf;
       (n, buf, t) \<leftarrow> recvmsg limit r 20 buf (c_table s);
       if n = - 1 then Some (- 1, s)
       else do {
         bs \<leftarrow> load_bytes 16 4 buf;
         let fd = sint (of_le bs :: u32);
         let s = s\<lparr>c_table := t, c_out := c_out s @ bytes ''## Got fd='' @ signed_decimal fd @ [newline]\<rparr>;
         Some (0, close_fd fd (write_fd fd hello s)) } }"

definition fd_client_main :: "nat \<Rightarrow> bool list \<Rightarrow> byte list \<Rightarrow> reception \<Rightarrow> byte list \<Rightarrow> fd_client run" where
  "fd_client_main limit setup raw r file =
     (let s = \<lparr>c_table = standard_fds, c_out = [], c_sent = [], test_txt = file\<rparr>
      in if \<not> list_all id (take 2 setup) then Exit 1 s
         else case do_recvmsg limit raw r (s\<lparr>c_table := standard_fds(3 \<mapsto> Peer)\<rparr>) of
           None \<Rightarrow> Crash
         | Some (res, s) \<Rightarrow> Exit (if res \<noteq> 0 then 1 else 0) s)"

section \<open>Encoding and decoding\<close>

lemma of_le4 [simp]: "of_le (le4 w) = w"
proof (rule bit_word_eqI)
  fix n assume "n < LENGTH(32)"
  then consider "n < 8" | "8 \<le> n" "n < 16" | "16 \<le> n" "n < 24" | "24 \<le> n" "n < 32" by fastforce
  then show "bit (of_le (le4 w) :: u32) n \<longleftrightarrow> bit w n"
    by cases (auto simp: le4_def bit_simps)
qed

lemma length_le4 [simp]: "length (le4 w) = 4" "length (le8 v) = 8"
  by (simp_all add: le4_def le8_def)

lemma ints_of_le4: "n < 2 ^ 31 \<Longrightarrow> ints_of (le4 (of_nat n) @ bs) = int n # ints_of bs"
proof -
  assume "n < 2 ^ 31"
  then have "sint (of_nat n :: u32) = int n" by (simp add: signed_of_nat signed_take_bit_int_eq_self_iff)
  then show ?thesis using of_le4 [of "of_nat n"] by (simp add: le4_def)
qed

lemma sent_control:
  "do { chdr \<leftarrow> store_bytes 0 (le8 20) (replicate 24 None); chdr \<leftarrow> store_bytes 8 (le4 SOL_SOCKET) chdr;
     chdr \<leftarrow> store_bytes 12 (le4 SCM_RIGHTS) chdr; chdr \<leftarrow> store_bytes 16 (le4 w) chdr; load_bytes 0 20 chdr } =
   Some (le8 20 @ le4 SOL_SOCKET @ le4 SCM_RIGHTS @ le4 w)"
  by (simp add: store_bytes_def load_bytes_def Let_def comp_def)

lemma scm_rights_sent: "fd < 2 ^ 31 \<Longrightarrow> scm_rights (le8 20 @ le4 SOL_SOCKET @ le4 SCM_RIGHTS @ le4 (of_nat fd)) = Some [int fd]"
proof -
  assume "fd < 2 ^ 31"
  moreover have "of_le (le8 20) = (20 :: u64)" by code_simp
  ultimately show ?thesis using ints_of_le4 [of fd "[]"] by (simp add: scm_rights_def)
qed

lemma do_sendmsg_open:
  assumes "fd < 2 ^ 31" and "t fd = Some f"
  shows "do_sendmsg peer fd t = Some (if peer then (0, Some (bytes ''!'', [f])) else (- 1, None))"
proof -
  have "do_sendmsg peer fd t = do { control \<leftarrow> do { chdr \<leftarrow> store_bytes 0 (le8 20) (replicate 24 None); chdr \<leftarrow> store_bytes 8 (le4 SOL_SOCKET) chdr;
     chdr \<leftarrow> store_bytes 12 (le4 SCM_RIGHTS) chdr; chdr \<leftarrow> store_bytes 16 (le4 (of_nat fd)) chdr; load_bytes 0 20 chdr };
     Some (case sendmsg peer (bytes ''!'') control t of None \<Rightarrow> (- 1, None) | Some m \<Rightarrow> (0, Some m)) }"
    unfolding do_sendmsg_def by simp
  also have "\<dots> = Some (case sendmsg peer (bytes ''!'') (le8 20 @ le4 SOL_SOCKET @ le4 SCM_RIGHTS @ le4 (of_nat fd)) t of
      None \<Rightarrow> (- 1, None) | Some m \<Rightarrow> (0, Some m))"
    unfolding sent_control by simp
  finally show ?thesis using assms scm_rights_sent [OF assms(1)] by (simp add: sendmsg_def file_of_def)
qed

section \<open>The server's descriptors\<close>

text \<open>The descriptors in use are those below \<open>n\<close>: none is ever closed.\<close>

definition dense :: "nat \<Rightarrow> fd_table \<Rightarrow> bool" where
  "dense n t \<longleftrightarrow> (\<forall>i. t i = None \<longleftrightarrow> n \<le> i)"

lemma install_dense:
  assumes "dense n t"
  shows "install limit f t = (if n < limit then Some (n, t(n \<mapsto> f)) else None)" and "dense (Suc n) (t(n \<mapsto> f))"
proof -
  have "find (\<lambda>fd. t fd = None) [0..<limit] = (if n < limit then Some n else None)"
  proof (cases "n < limit")
    case True
    then have "find (\<lambda>fd. t fd = None) [0..<limit] = Some n" using assms
      by (intro find_Some_iff [THEN iffD2] exI [of _ n]) (auto simp: dense_def)
    then show ?thesis using True by simp
  next
    case False
    then show ?thesis using assms by (auto simp: find_None_iff dense_def)
  qed
  then show "install limit f t = (if n < limit then Some (n, t(n \<mapsto> f)) else None)" by (simp add: install_def)
  have "(t(n \<mapsto> f)) i = None \<longleftrightarrow> Suc n \<le> i" for i
    using assms unfolding dense_def by (cases "i = n") (simp_all add: Suc_le_eq less_le)
  then show "dense (Suc n) (t(n \<mapsto> f))" unfolding dense_def by blast
qed

lemma server_round:
  assumes "dense n (s_table s)" and "limit \<le> 2 ^ 31"
  shows "fd_server_loop limit ((True, True, True) # rounds) s =
    (if Suc n < limit
     then fd_server_loop limit rounds
       (s\<lparr>s_table := (s_table s)(n \<mapsto> Peer, Suc n \<mapsto> Test_Txt),
          s_out := s_out s @ bytes ''## send fd='' @ decimal (Suc n) @ [newline], s_sent := s_sent s @ [(bytes ''!'', [Test_Txt])]\<rparr>)
     else Exit 1 (if n < limit then s\<lparr>s_table := (s_table s)(n \<mapsto> Peer)\<rparr> else s))"
  using install_dense [OF assms(1)] install_dense [OF install_dense(2) [OF assms(1)]] assms(2)
    do_sendmsg_open [of "Suc n" "(s_table s)(n \<mapsto> Peer, Suc n \<mapsto> Test_Txt)" Test_Txt True]
  by (auto simp: Let_def)

lemma server_rounds:
  assumes "dense n (s_table s)" and "limit \<le> 2 ^ 31"
  shows "\<exists>s'. fd_server_loop limit (replicate k (True, True, True)) s = (if k \<le> (limit - n) div 2 then Hang s' else Exit 1 s') \<and>
    s_sent s' = s_sent s @ replicate (min k ((limit - n) div 2)) (bytes ''!'', [Test_Txt])"
  using assms(1)
proof (induction k arbitrary: n s)
  case (Suc k)
  show ?case
  proof (cases "Suc n < limit")
    case True
    define s1 where "s1 = s\<lparr>s_table := (s_table s)(n \<mapsto> Peer, Suc n \<mapsto> Test_Txt),
      s_out := s_out s @ bytes ''## send fd='' @ decimal (Suc n) @ [newline], s_sent := s_sent s @ [(bytes ''!'', [Test_Txt])]\<rparr>"
    have "dense (n + 2) (s_table s1)" using install_dense(2) [OF install_dense(2) [OF Suc.prems]] by (simp add: s1_def)
    note IH = Suc.IH [OF this]
    have half: "(limit - n) div 2 = Suc ((limit - (n + 2)) div 2)" using True by simp
    show ?thesis using IH server_round [OF Suc.prems assms(2), of "replicate k (True, True, True)"] True
      unfolding half by (simp add: s1_def)
  next
    case False
    then show ?thesis using server_round [OF Suc.prems assms(2), of "replicate k (True, True, True)"] by auto
  qed
qed simp

lemma dense_start: "dense 4 (standard_fds(3 \<mapsto> f))"
  by (auto simp: dense_def standard_fds_def)

section \<open>The client\<close>

lemma client_header:
  "length raw = 24 \<Longrightarrow>
   do { buf \<leftarrow> store_bytes 0 (le8 20) (map Some raw); buf \<leftarrow> store_bytes 8 (le4 SOL_SOCKET) buf; store_bytes 12 (le4 SCM_RIGHTS) buf } =
   Some (map Some (le8 20 @ le4 SOL_SOCKET @ le4 SCM_RIGHTS @ drop 16 raw))"
  by (simp add: store_bytes_def drop_map)

text \<open>What the client does with a descriptor once \<^verbatim>\<open>recvmsg\<close> has returned.\<close>

definition greet :: "int \<Rightarrow> fd_table \<Rightarrow> fd_client \<Rightarrow> fd_client" where
  "greet fd t s = close_fd fd (write_fd fd hello
     (s\<lparr>c_table := t, c_out := c_out s @ bytes ''## Got fd='' @ signed_decimal fd @ [newline]\<rparr>))"

lemma do_recvmsg_eq:
  assumes "length raw = 24"
  shows "do_recvmsg limit raw r s =
    do { (n, buf, t) \<leftarrow> recvmsg limit r 20 (map Some (le8 20 @ le4 SOL_SOCKET @ le4 SCM_RIGHTS @ drop 16 raw)) (c_table s);
      if n = - 1 then Some (- 1, s)
      else do { bs \<leftarrow> load_bytes 16 4 buf; Some (0, greet (sint (of_le bs :: u32)) t s) } }"
proof -
  have "do_recvmsg limit raw r s =
    do { buf \<leftarrow> do { buf \<leftarrow> store_bytes 0 (le8 20) (map Some raw); buf \<leftarrow> store_bytes 8 (le4 SOL_SOCKET) buf; store_bytes 12 (le4 SCM_RIGHTS) buf };
      (n, buf, t) \<leftarrow> recvmsg limit r 20 buf (c_table s);
      if n = - 1 then Some (- 1, s)
      else do { bs \<leftarrow> load_bytes 16 4 buf; Some (0, greet (sint (of_le bs :: u32)) t s) } }"
    unfolding do_recvmsg_def greet_def Let_def by simp
  then show ?thesis unfolding client_header [OF assms] by simp
qed

text \<open>A file that arrives gets the next descriptor, which is what the client reads from its buffer.\<close>

lemma do_recvmsg_file:
  assumes "length raw = 24" and "dense n (c_table s)" and "n < limit" and "limit \<le> 2 ^ 31"
  shows "do_recvmsg limit raw (Arrived (data, [f])) s = Some (0, greet (int n) ((c_table s)(n \<mapsto> f)) s)"
proof -
  have "sint (of_nat n :: u32) = int n" using assms(3,4) by (simp add: signed_of_nat signed_take_bit_int_eq_self_iff)
  moreover have "recvmsg limit (Arrived (data, [f])) 20 (map Some (le8 20 @ le4 SOL_SOCKET @ le4 SCM_RIGHTS @ drop 16 raw)) (c_table s) =
      Some (1, map Some (le8 20 @ le4 SOL_SOCKET @ le4 SCM_RIGHTS @ le4 (of_nat n) @ drop 20 raw), (c_table s)(n \<mapsto> f))"
    using assms install_dense(1) [OF assms(2), of limit f] by (simp add: recvmsg_def store_bytes_def drop_map)
  ultimately show ?thesis using assms(1) by (simp add: do_recvmsg_eq load_bytes_def comp_def Let_def)
qed

text \<open>The clients of a sequence of messages, one after the other, on the same file.\<close>

fun run_clients :: "nat \<Rightarrow> byte list \<Rightarrow> message list \<Rightarrow> byte list \<Rightarrow> byte list option" where
  "run_clients limit raw [] file = Some file"
| "run_clients limit raw (m # ms) file =
     (case fd_client_main limit [True, True] raw (Arrived m) file of
        Exit 0 s \<Rightarrow> run_clients limit raw ms (test_txt s)
      | _ \<Rightarrow> None)"

lemma fd_client_appends:
  assumes "length raw = 24" and "4 < limit" and "limit \<le> 2 ^ 31"
  shows "\<exists>s. fd_client_main limit [True, True] raw (Arrived (data, [Test_Txt])) file = Exit 0 s \<and> test_txt s = file @ hello \<and>
    c_out s = bytes ''## Got fd='' @ [52] @ [newline] \<and> c_table s = standard_fds(3 \<mapsto> Peer)"
proof -
  let ?s = "\<lparr>c_table = standard_fds(3 \<mapsto> Peer), c_out = [], c_sent = [], test_txt = file\<rparr>"
  have "do_recvmsg limit raw (Arrived (data, [Test_Txt])) ?s = Some (0, greet 4 (standard_fds(3 \<mapsto> Peer, 4 \<mapsto> Test_Txt)) ?s)"
    using do_recvmsg_file [of raw 4 ?s limit data Test_Txt] assms dense_start by simp
  moreover have "(standard_fds(3 \<mapsto> Peer))(4 := None) = standard_fds(3 \<mapsto> Peer)" by (auto simp: standard_fds_def)
  ultimately show ?thesis
    by (simp add: fd_client_main_def greet_def write_fd_def close_fd_def file_of_def signed_decimal_def decimal.simps)
qed

section \<open>Properties\<close>

text \<open>C35. The server runs out of descriptors: it closes neither the connection nor the file of a round, so with room for
  \<open>limit\<close> descriptors it serves exactly \<open>(limit - 4) div 2\<close> clients and ends with status 1 at the next one.\<close>

theorem fd_server_exhausts:
  assumes "limit \<le> 2 ^ 31"
  shows "\<exists>s. fd_server_main limit [True, True, True] (replicate k (True, True, True)) =
      (if k \<le> (limit - 4) div 2 then Hang s else Exit 1 s) \<and>
    s_sent s = replicate (min k ((limit - 4) div 2)) (bytes ''!'', [Test_Txt])"
  using server_rounds [of 4 "\<lparr>s_table = standard_fds(3 \<mapsto> Listener), s_out = [], s_sent = []\<rparr>" limit k] assms dense_start
  by (simp add: fd_server_main_def)

theorem fd_server_exhausts_witness:
  "\<exists>s. fd_server_main 1024 [True, True, True] (replicate 511 (True, True, True)) = Exit 1 s \<and> length (s_sent s) = 510"
  using fd_server_exhausts [of 1024 511] by auto

text \<open>C22. An open file travels from the server to the clients: for as many clients as the server has descriptors for, every message
  encodes the descriptor of the server's file, and each client decodes a descriptor of the same file, appends its line to
  it, closes it and ends with status 0.\<close>

theorem fd_passing_appends:
  assumes "k \<le> (limit - 4) div 2" and "4 < limit" and "limit \<le> 2 ^ 31" and "length raw = 24"
  shows "\<exists>s. fd_server_main limit [True, True, True] (replicate k (True, True, True)) = Hang s \<and>
    run_clients limit raw (s_sent s) file = Some (file @ concat (replicate k hello))"
proof -
  have clients: "run_clients limit raw (replicate j (bytes ''!'', [Test_Txt])) f = Some (f @ concat (replicate j hello))" for j f
  proof (induction j arbitrary: f)
    case (Suc j)
    obtain s where "fd_client_main limit [True, True] raw (Arrived (bytes ''!'', [Test_Txt])) f = Exit 0 s" "test_txt s = f @ hello"
      using fd_client_appends [OF assms(4,2,3)] by blast
    then show ?case using Suc by simp
  qed simp
  show ?thesis
    using server_rounds [of 4 "\<lparr>s_table = standard_fds(3 \<mapsto> Listener), s_out = [], s_sent = []\<rparr>" limit k] assms dense_start clients
    by (auto simp: fd_server_main_def min_absorb1)
qed

theorem fd_passing_appends_witness:
  "\<exists>s. fd_server_main 8 [True, True, True] (replicate 2 (True, True, True)) = Hang s \<and>
    run_clients 8 (replicate 24 7) (s_sent s) [] = Some (hello @ hello)"
proof -
  have "concat (replicate 2 hello) = hello @ hello" by (simp add: numeral_2_eq_2)
  then show ?thesis using fd_passing_appends [of 2 8 "replicate 24 7" "[]"] by simp
qed

text \<open>If the server closes the connection before it has sent anything, the client still ends with status 0: it takes the
  four bytes that happen to be in its buffer for a descriptor, writes its line there and closes it.\<close>

theorem fd_client_uninitialised:
  assumes "length raw = 24" and "take 4 (drop 16 raw) = le4 w"
  shows "fd_client_main limit [True, True] raw End_Of_Stream file =
    Exit 0 (greet (sint w) (standard_fds(3 \<mapsto> Peer)) \<lparr>c_table = standard_fds(3 \<mapsto> Peer), c_out = [], c_sent = [], test_txt = file\<rparr>)"
  using assms by (simp add: fd_client_main_def do_recvmsg_eq recvmsg_def load_bytes_def drop_map take_map comp_def Let_def)

theorem fd_client_uninitialised_witness:
  "\<exists>s. fd_client_main 8 [True, True] (replicate 16 7 @ [1, 0, 0, 0] @ replicate 4 7) End_Of_Stream [] = Exit 0 s \<and>
    c_out s = bytes ''## Got fd='' @ [49] @ [newline] @ hello \<and> c_table s 1 = None"
  using fd_client_uninitialised [of "replicate 16 7 @ [1, 0, 0, 0] @ replicate 4 7" 1 8 "[]"]
  by (simp add: le4_def greet_def write_fd_def close_fd_def file_of_def standard_fds_def signed_decimal_def decimal.simps)

end
