(* ===== verification/Net_Programs.thy ===== *)
theory Net_Programs
  imports Posix_Io
begin

text \<open>
  Three programs on network calls: \<^verbatim>\<open>tcp_server01\<close> and \<^verbatim>\<open>interface_address\<close> of \<^verbatim>\<open>src/HandsOnNetworkProgrammingWithC\<close>, and
  \<^verbatim>\<open>src/c-ares01\<close>. What the calls answer is an argument. c-ares is not part of the repository: a run of it is the list of the callbacks that
  the query makes at once, and for each round of the wait loop the number of its descriptors and the callbacks made while it is processed.
\<close>

section \<open>tcp\_server01/main.c\<close>

record http_state =
  h_out :: "byte list"
  h_sent :: "byte list"
  address_live :: bool
  server_open :: bool
  client_open :: bool

text \<open>\<open>name_text\<close> is what \<^verbatim>\<open>getnameinfo\<close> stores, or \<open>None\<close> where it fails; \<open>name_raw\<close> is what the buffer held before.\<close>

record http_env =
  getaddrinfo_result :: int
  socket_ok :: bool
  bind_ok :: bool
  listen_ok :: bool
  accept_ok :: bool
  name_text :: "byte list option"
  name_raw :: "byte list"
  request :: "rd list"
  send_result :: "nat option"

definition say :: "byte list \<Rightarrow> http_state \<Rightarrow> http_state" where
  "say t s = s\<lparr>h_out := h_out s @ t\<rparr>"

definition sayln :: "string \<Rightarrow> http_state \<Rightarrow> http_state" where
  "sayln t = say (bytes t @ [newline])"

definition crlf :: "byte list" where
  "crlf = [13, 10]"

definition response :: "byte list" where
  "response = bytes ''HTTP/1.1 200 OK'' @ crlf @ bytes ''Connection: close'' @ crlf @
     bytes ''Content-Type: text/plain'' @ crlf @ crlf @ bytes ''Hello World'' @ [newline]"

text \<open>The part behind \<^verbatim>\<open>accept\<close>: name of the client, one \<^verbatim>\<open>recv\<close>, one \<^verbatim>\<open>send\<close>.\<close>

definition http_reply :: "http_env \<Rightarrow> nat \<Rightarrow> http_state \<Rightarrow> http_state run" where
  "http_reply e received s =
     (let s = sayln ''Sending response...'' (say (bytes ''Received '' @ decimal received @ bytes '' bytes'' @ [newline]) s)
      in case send_result e of
           None \<Rightarrow> Exit 1 s
         | Some m \<Rightarrow>
             (let sent = take m response;
                  s = say (bytes ''Sent '' @ decimal (length sent) @ bytes '' of '' @ decimal (length response) @ bytes '' bytes'' @ [newline])
                    (s\<lparr>h_sent := h_sent s @ sent\<rparr>);
                  s = sayln ''Closing connection...'' s
              in Exit 0 (sayln ''Finished'' (s\<lparr>client_open := False, server_open := False\<rparr>))))"

definition http_client :: "http_env \<Rightarrow> http_state \<Rightarrow> http_state run" where
  "http_client e s =
     (let s = sayln ''Client is connected...'' s
      in case str_at (case name_text e of None \<Rightarrow> name_raw e | Some t \<Rightarrow> t @ 0 # drop (length t + 1) (name_raw e)) 0 of
           None \<Rightarrow> Crash
         | Some name \<Rightarrow>
             (let s = say (9 # name @ [newline]) s
              in case request e of
                   [] \<Rightarrow> Hang s
                 | Err _ # _ \<Rightarrow> Exit 1 s
                 | Eof # _ \<Rightarrow> http_reply e 0 s
                 | Got bs # _ \<Rightarrow> http_reply e (length bs) s))"

text \<open>\<^verbatim>\<open>getaddrinfo\<close> returns zero or an error code, but only the code -1 is recognised: behind any other the pointer to the
  result is not initialised.\<close>

definition http_main :: "http_env \<Rightarrow> http_state run" where
  "http_main e =
     (let s = sayln ''Configuraing local address...''
            \<lparr>h_out = [], h_sent = [], address_live = False, server_open = False, client_open = False\<rparr>
      in if getaddrinfo_result e = - 1 then Exit 1 s
         else if getaddrinfo_result e \<noteq> 0 then Crash
         else
           (let s = sayln ''Creating socket...'' (s\<lparr>address_live := True\<rparr>)
            in if \<not> socket_ok e then Exit 1 s
               else
                 (let s = say (bytes ''Binding socket to local address...'') (s\<lparr>server_open := True\<rparr>)
                  in if \<not> bind_ok e then Exit 1 s
                     else
                       (let s = sayln ''Listening...'' (s\<lparr>address_live := False\<rparr>)
                        in if \<not> listen_ok e then Exit 1 s
                           else
                             (let s = sayln ''Waiting for connection...'' s
                              in if \<not> accept_ok e then Exit 1 s
                                 else http_client e (s\<lparr>client_open := True\<rparr>))))))"

section \<open>interface\_address/main.c\<close>

datatype family = AF_INET | AF_INET6 | Other_Family

text \<open>A node of the list: name, the family of its address if it has one, and what \<^verbatim>\<open>getnameinfo\<close> makes of the address.\<close>

record ifaddrs =
  ifa_next :: ptr
  ifa_name :: "byte list"
  ifa_addr :: "family option"
  ifa_text :: "byte list"

definition interface_line :: "ifaddrs \<Rightarrow> byte list" where
  "interface_line p =
     (case ifa_addr p of
        Some AF_INET \<Rightarrow> bytes ''name: '' @ ifa_name p @ 9 # bytes ''family: IPv4'' @ [9, 9] @ ifa_text p @ [newline]
      | Some AF_INET6 \<Rightarrow> bytes ''name: '' @ ifa_name p @ 9 # bytes ''family: IPv6'' @ [9, 9] @ ifa_text p @ [newline]
      | _ \<Rightarrow> [])"

partial_function (option) interface_loop :: "ifaddrs store \<Rightarrow> ptr \<Rightarrow> byte list \<Rightarrow> byte list option" where
  "interface_loop h p out =
     (case p of
        Null \<Rightarrow> Some out
      | Ref a \<Rightarrow>
        (case h a of
           None \<Rightarrow> None
         | Some n \<Rightarrow>
             if ifa_addr n = None then interface_loop h (ifa_next n) out
             else interface_loop h (ifa_next n) (out @ interface_line n)))"

definition interface_main :: "(ifaddrs store \<times> ptr) option \<Rightarrow> byte list run" where
  "interface_main addresses =
     (case addresses of
        None \<Rightarrow> Exit 1 []
      | Some (h, p) \<Rightarrow> (case interface_loop h p [] of None \<Rightarrow> Crash | Some out \<Rightarrow> Exit 0 out))"

section \<open>c-ares01/main.c\<close>

text \<open>The array of addresses ends with a null pointer; \<open>ntop\<close> is the text \<^verbatim>\<open>inet_ntop\<close> makes of an address.\<close>

record hostent =
  h_name :: "byte list"
  h_addr_list :: "byte list option list"

datatype ares_callback = Sock_State int bool bool | Host_Result int "hostent option"

definition state_cb :: "int \<Rightarrow> bool \<Rightarrow> bool \<Rightarrow> byte list \<Rightarrow> byte list" where
  "state_cb sock rd wr out =
     out @ bytes ''Change state fd: '' @ signed_decimal sock @ bytes '', read: '' @ decimal (of_bool rd) @ bytes '', write: '' @
       decimal (of_bool wr) @ [newline]"

function address_loop :: "(byte list \<Rightarrow> byte list) \<Rightarrow> nat \<Rightarrow> byte list option list \<Rightarrow> byte list \<Rightarrow> byte list option" where
  "address_loop ntop i list out =
     (if i < length list
      then (case list ! i of
              None \<Rightarrow> Some out
            | Some a \<Rightarrow> address_loop ntop (i + 1) list (out @ 9 # bytes ''IP: '' @ ntop a @ [newline]))
      else None)"
  by pat_completeness auto
termination
  by (relation "measure (\<lambda>(_, i, list, _). length list - i)") auto

declare address_loop.simps [simp del]

definition host_callback :: "(byte list \<Rightarrow> byte list) \<Rightarrow> int \<Rightarrow> hostent option \<Rightarrow> byte list \<Rightarrow> byte list option" where
  "host_callback ntop status host out =
     (if status \<noteq> 0 then Some out
      else case host of
        None \<Rightarrow> Some out
      | Some h \<Rightarrow> address_loop ntop 0 (h_addr_list h) (out @ bytes ''Found address name '' @ h_name h @ [newline]))"

fun ares_callbacks :: "(byte list \<Rightarrow> byte list) \<Rightarrow> ares_callback list \<Rightarrow> byte list \<Rightarrow> byte list run" where
  "ares_callbacks ntop [] out = Continue out"
| "ares_callbacks ntop (Sock_State sock rd wr # cs) out = ares_callbacks ntop cs (state_cb sock rd wr out)"
| "ares_callbacks ntop (Host_Result status host # cs) out =
     (case host_callback ntop status host out of None \<Rightarrow> Crash | Some out \<Rightarrow> ares_callbacks ntop cs out)"

fun wait_ares :: "(byte list \<Rightarrow> byte list) \<Rightarrow> (nat \<times> ares_callback list) list \<Rightarrow> byte list \<Rightarrow> byte list run" where
  "wait_ares ntop [] out = Hang out"
| "wait_ares ntop ((nfds, cs) # rounds) out =
     (if nfds = 0 then Continue out else and_run (ares_callbacks ntop cs out) (wait_ares ntop rounds))"

record ares_run =
  at_once :: "ares_callback list"
  rounds :: "(nat \<times> ares_callback list) list"

definition ares_main ::
  "int \<Rightarrow> int \<Rightarrow> (byte list \<Rightarrow> byte list) \<Rightarrow> (byte list \<Rightarrow> ares_run) \<Rightarrow> byte list list \<Rightarrow> byte list run" where
  "ares_main library_init init_options ntop query args =
     (let host = (case args of [] \<Rightarrow> bytes ''google.com'' | a # _ \<Rightarrow> a)
      in if library_init \<noteq> 0 \<or> init_options \<noteq> 0 then Exit 1 []
         else and_run (and_run (ares_callbacks ntop (at_once (query host)) []) (wait_ares ntop (rounds (query host)))) return_0)"

section \<open>What the programs do\<close>

text \<open>The server ends with status 0 exactly if every call it checks succeeds, and then it has sent what the one \<^verbatim>\<open>send\<close> accepted,
  closed both sockets and freed the address. Where it ends with status 1 behind \<^verbatim>\<open>getaddrinfo\<close>, something is still open.\<close>

lemmas http_defs = http_main_def http_client_def http_reply_def say_def sayln_def Let_def

lemma http_main_ok:
  assumes "name_text e = Some t" and "cstring t"
  shows "(\<exists>s. http_main e = Exit 0 s) \<longleftrightarrow>
    getaddrinfo_result e = 0 \<and> socket_ok e \<and> bind_ok e \<and> listen_ok e \<and> accept_ok e \<and> send_result e \<noteq> None \<and>
    (\<exists>bs rs. request e = Got bs # rs \<or> request e = Eof # rs)"
  using assms str_at_cstring [of t "[]" 0]
  by (auto simp: http_defs split: list.splits rd.splits option.splits)

lemma http_main_sends:
  assumes "http_main e = Exit 0 s"
  shows "\<exists>m. send_result e = Some m \<and> h_sent s = take m response \<and> \<not> address_live s \<and> \<not> server_open s \<and> \<not> client_open s"
  using assms by (auto simp: http_defs split: list.splits rd.splits option.splits if_splits)

lemma http_main_undefined: "getaddrinfo_result e \<notin> {0, - 1} \<Longrightarrow> http_main e = Crash"
  by (simp add: http_main_def)

text \<open>The list of interfaces: one line for each address of the two families, in the order of the list; the loop ends on every list.\<close>

lemma interface_line_None: "ifa_addr n = None \<Longrightarrow> interface_line n = []"
  by (simp add: interface_line_def)

lemma interface_loop_chain:
  "chain ifa_next h p as \<Longrightarrow> interface_loop h p out = Some (out @ concat (map (\<lambda>a. interface_line (the (h a))) as))"
proof (induction as arbitrary: p out)
  case Nil
  then show ?case by (simp add: interface_loop.simps)
next
  case (Cons a as)
  then obtain n where "p = Ref a" "h a = Some n" "chain ifa_next h (ifa_next n) as" by auto
  then show ?case using Cons.IH [of "ifa_next n" "out @ interface_line n"] Cons.IH [of "ifa_next n" out]
    by (cases "ifa_addr n") (simp_all add: interface_loop.simps [of h "Ref a"] interface_line_None)
qed

text \<open>A resolved name: one line for the name and one for each address, in order.\<close>

lemma address_loop_all:
  "i \<le> length as \<Longrightarrow> address_loop ntop i (map Some as @ None # rest) out =
   Some (out @ concat (map (\<lambda>a. 9 # bytes ''IP: '' @ ntop a @ [newline]) (drop i as)))"
proof (induction "length as - i" arbitrary: i out)
  case 0
  then show ?case by (subst address_loop.simps) (simp add: nth_append)
next
  case (Suc k)
  then have i: "i < length as" by simp
  then show ?case using Suc
    by (subst address_loop.simps) (simp add: nth_append Cons_nth_drop_Suc [symmetric])
qed

lemma wait_ares_append:
  "list_all (\<lambda>(nfds, cs). 0 < nfds \<and> cs = []) rs \<Longrightarrow> wait_ares ntop (rs @ rs') out = wait_ares ntop rs' out"
  by (induction rs) auto

text \<open>A query that is answered after any number of idle rounds, and then has no descriptor left: the program prints the name
  and its addresses and ends with status 0.\<close>

lemma ares_main_found:
  assumes "list_all (\<lambda>(nfds, cs). 0 < nfds \<and> cs = []) rs" and "0 < n"
    and "query host = \<lparr>at_once = [], rounds = rs @ [(n, [Host_Result 0 (Some \<lparr>h_name = name, h_addr_list = map Some as @ [None]\<rparr>)]), (0, [])]\<rparr>"
  shows "ares_main 0 0 ntop query [host] =
    Exit 0 (bytes ''Found address name '' @ name @ newline # concat (map (\<lambda>a. 9 # bytes ''IP: '' @ ntop a @ [newline]) as))"
  using assms address_loop_all [of 0 as ntop "[]"]
  by (simp add: ares_main_def wait_ares_append host_callback_def return_0_def)

end
