(* ===== verification/Command_Runner.thy ===== *)
theory Command_Runner
  imports Posix_Io
begin

text \<open>
  The command runner of \<^verbatim>\<open>src/apue/section01\<close>: \<^verbatim>\<open>run_command.c\<close>, and \<^verbatim>\<open>run_command_with_signal.c\<close>, the same loop with a handler
  for \<^verbatim>\<open>SIGINT\<close>. What \<^verbatim>\<open>fork\<close> and \<^verbatim>\<open>waitpid\<close> answer for a command and when signals arrive are arguments. The standard output is a
  terminal, so a line appears when it is complete. \<^verbatim>\<open>signal\<close> of the GNU library restarts the interrupted \<^verbatim>\<open>fgets\<close> and \<^verbatim>\<open>waitpid\<close>.
\<close>

section \<open>run\_command.c\<close>

text \<open>\<^verbatim>\<open>fgets(buffer, n, stdin)\<close>: at most \<open>n - 1\<close> bytes, up to and with a newline; what is stored, and the rest.\<close>

fun fgets :: "nat \<Rightarrow> byte list \<Rightarrow> byte list \<times> byte list" where
  "fgets n [] = ([], [])"
| "fgets n (c # cs) =
     (if n \<le> 1 then ([], c # cs)
      else if c = newline then ([c], cs)
      else (let (l, r) = fgets (n - 1) cs in (c # l, r)))"

lemma fgets_split: "fgets n cs = (l, r) \<Longrightarrow> l @ r = cs \<and> length l \<le> n - 1"
  by (induction n cs arbitrary: l r rule: fgets.induct) (auto split: if_splits prod.splits)

lemma fgets_shorter: "(l, r) = fgets 256 cs \<Longrightarrow> cs \<noteq> [] \<Longrightarrow> length r < length cs"
  using fgets_split [of 256 "tl cs"] fgets_split [of 255 "tl cs"]
  by (cases cs) (auto simp: length_append dest!: sym [of "(l, r)"] split: if_splits prod.splits)

text \<open>What \<^verbatim>\<open>fork\<close> and \<^verbatim>\<open>waitpid\<close> answer for a command; the child only calls \<^verbatim>\<open>execlp\<close>.\<close>

datatype launched = Fork_Fails | Wait_Fails | Status int

record runner =
  screen_text :: "byte list"
  commands :: "byte list list"

definition print_prompt :: "runner \<Rightarrow> runner" where
  "print_prompt s = s\<lparr>screen_text := screen_text s @ bytes ''> ''\<rparr>"

definition status_line :: "int \<Rightarrow> byte list" where
  "status_line st = bytes ''## exit status='' @ signed_decimal st @ [newline]"

text \<open>One line: the string in the buffer loses its last byte, whatever it is; an empty string has none, and the store
  is in front of the buffer.\<close>

definition run_line :: "(byte list list \<Rightarrow> launched) \<Rightarrow> byte list \<Rightarrow> runner \<Rightarrow> runner run" where
  "run_line launch line s =
     (let text = takeWhile (\<lambda>c. c \<noteq> 0) line
      in if text = [] then Crash
         else case launch (commands s @ [butlast text]) of
           Fork_Fails \<Rightarrow> Exit 1 s
         | Wait_Fails \<Rightarrow> Exit 1 (s\<lparr>commands := commands s @ [butlast text]\<rparr>)
         | Status st \<Rightarrow>
             Continue (print_prompt (s\<lparr>commands := commands s @ [butlast text], screen_text := screen_text s @ status_line st\<rparr>)))"

function run_command_loop :: "(byte list list \<Rightarrow> launched) \<Rightarrow> byte list \<Rightarrow> runner \<Rightarrow> runner run" where
  "run_command_loop launch stdin s =
     (if stdin = [] then Exit 1 s
      else case fgets 256 stdin of (line, rest) \<Rightarrow>
        (case run_line launch line s of
           Continue s \<Rightarrow> run_command_loop launch rest s
         | r \<Rightarrow> r))"
  by pat_completeness auto
termination
  by (relation "measure (\<lambda>(_, stdin, _). length stdin)") (auto dest: fgets_shorter)

declare run_command_loop.simps [simp del]


section \<open>run\_command\_with\_signal.c\<close>







section \<open>The lines that are run\<close>

text \<open>The command runner starts exactly the lines of its input, in order, as long as they are shorter than its buffer;
  a last line without newline loses its last byte. It always ends with status 1, at the end of the input.\<close>

lemma fgets_line: "newline \<notin> set l \<Longrightarrow> Suc (length l) < n \<Longrightarrow> fgets n (l @ newline # r) = (l @ [newline], r)"
  by (induction l arbitrary: n) auto

lemma fgets_last: "newline \<notin> set l \<Longrightarrow> length l < n \<Longrightarrow> fgets n l = (l, [])"
  by (induction l arbitrary: n) auto

lemma run_line_ok:
  assumes "cstring l" and "l \<noteq> []" and "launch (commands s @ [butlast l]) = Status st"
  shows "run_line launch l s =
    Continue (print_prompt (s\<lparr>commands := commands s @ [butlast l], screen_text := screen_text s @ status_line st\<rparr>))"
proof -
  have l: "takeWhile (\<lambda>c. c \<noteq> 0) l = l" using assms(1) by (auto simp: takeWhile_eq_all_conv cstring_def)
  show ?thesis unfolding run_line_def Let_def l using assms(2,3) by simp
qed

lemma run_command_runs_lines:
  assumes "\<forall>h. \<exists>st. launch h = Status st" and "\<forall>l \<in> set (last_line # ls). newline \<notin> set l \<and> cstring l \<and> length l < 255"
  shows "\<exists>s'. run_command_loop launch (concat (map (\<lambda>l. l @ [newline]) ls) @ last_line) s = Exit 1 s' \<and>
    commands s' = commands s @ ls @ (if last_line = [] then [] else [butlast last_line])"
  using assms(2)
proof (induction ls arbitrary: s)
  case Nil
  show ?case
  proof (cases "last_line = []")
    case True
    then show ?thesis by (simp add: run_command_loop.simps)
  next
    case False
    obtain st where "launch (commands s @ [butlast last_line]) = Status st" using assms(1) by blast
    then have "run_line launch last_line s = Continue (print_prompt
        (s\<lparr>commands := commands s @ [butlast last_line], screen_text := screen_text s @ status_line st\<rparr>))"
      using run_line_ok [of last_line launch s st] Nil False by simp
    moreover have "fgets 256 last_line = (last_line, [])" using Nil by (intro fgets_last) auto
    ultimately show ?thesis using False
      by (simp add: run_command_loop.simps [of launch last_line] run_command_loop.simps [of launch "[]"] print_prompt_def)
  qed
next
  case (Cons l ls)
  let ?rest = "concat (map (\<lambda>l. l @ [newline]) ls) @ last_line"
  have l: "newline \<notin> set l" "cstring (l @ [newline])" "Suc (length l) < 256" using Cons.prems by (auto simp: cstring_def)
  obtain st where "launch (commands s @ [l]) = Status st" using assms(1) by blast
  then have "run_line launch (l @ [newline]) s = Continue (print_prompt
      (s\<lparr>commands := commands s @ [l], screen_text := screen_text s @ status_line st\<rparr>))"
    using run_line_ok [OF l(2), of launch s st] by simp
  moreover have "fgets 256 (l @ newline # ?rest) = (l @ [newline], ?rest)" using fgets_line [OF l(1,3)] .
  ultimately have "run_command_loop launch (l @ newline # ?rest) s = run_command_loop launch ?rest
      (print_prompt (s\<lparr>commands := commands s @ [l], screen_text := screen_text s @ status_line st\<rparr>))"
    by (subst run_command_loop.simps) simp
  then show ?case using Cons.IH [of "print_prompt (s\<lparr>commands := commands s @ [l], screen_text := screen_text s @ status_line st\<rparr>)"]
    Cons.prems by (auto simp: print_prompt_def)
qed

section \<open>Every signal prints one line\<close>













end
