(* ===== verification/Event_Counter.thy ===== *)
theory Event_Counter
  imports Posix_Io
begin

text \<open>
  \<^verbatim>\<open>src/eventfd01/main.c\<close>: a child writes the numbers of its command line to an event counter and the parent reads it. The two processes
  share only the counter; their steps interleave in any order, since the parent's \<^verbatim>\<open>sleep\<close> orders nothing. The numbers are read with
  \<^verbatim>\<open>strtoull\<close> in base 0, modelled on bytes.
\<close>

section \<open>strtoull\<close>

definition isspace :: "byte \<Rightarrow> bool" where
  "isspace c \<longleftrightarrow> c = 32 \<or> 9 \<le> c \<and> c \<le> 13"

definition digit_value :: "byte \<Rightarrow> nat" where
  "digit_value c =
     (if 48 \<le> c \<and> c \<le> 57 then unat c - 48
      else if 97 \<le> c \<and> c \<le> 122 then unat c - 87
      else if 65 \<le> c \<and> c \<le> 90 then unat c - 55 else 36)"

fun value_of :: "nat \<Rightarrow> nat \<Rightarrow> byte list \<Rightarrow> nat" where
  "value_of base acc [] = acc"
| "value_of base acc (c # cs) = (if digit_value c < base then value_of base (acc * base + digit_value c) cs else acc)"

text \<open>The prefix decides the base: \<open>0x\<close> in front of a hexadecimal digit, a leading \<open>0\<close>, or neither.\<close>

fun prefixed_value :: "byte list \<Rightarrow> nat" where
  "prefixed_value (c # x # d # cs) =
     (if c = 48 \<and> (x = 120 \<or> x = 88) \<and> digit_value d < 16 then value_of 16 0 (d # cs)
      else value_of (if c = 48 then 8 else 10) 0 (c # x # d # cs))"
| "prefixed_value (c # cs) = value_of (if c = 48 then 8 else 10) 0 (c # cs)"
| "prefixed_value [] = 0"

text \<open>A value that does not fit is the largest one; a minus sign negates the value modulo \<open>2 ^ 64\<close>.\<close>

definition strtoull :: "byte list \<Rightarrow> u64" where
  "strtoull s =
     (let cs = dropWhile isspace s;
          negative = (cs \<noteq> [] \<and> hd cs = 45);
          v = prefixed_value (if cs \<noteq> [] \<and> (hd cs = 45 \<or> hd cs = 43) then tl cs else cs)
      in if 2 ^ 64 \<le> v then - 1 else if negative then - of_nat v else of_nat v)"

section \<open>The two processes\<close>

text \<open>A write adds to the 64-bit counter; it blocks while the sum would exceed \<open>2 ^ 64 - 2\<close>, and the value
  \<open>2 ^ 64 - 1\<close> is refused. A read takes the whole counter, and blocks while it is zero. \<open>announced\<close> are the messages in front of a call.\<close>

record eventfd =
  counter :: nat
  args_left :: "byte list list"
  announced :: bool
  child_out :: "byte list"
  child_status :: "nat option"
  parent_announced :: bool
  parent_out :: "byte list"
  parent_read :: "nat option"

definition child_step :: "eventfd \<Rightarrow> eventfd outcome" where
  "child_step s =
     (if child_status s \<noteq> None then Blocked
      else case args_left s of
        [] \<Rightarrow> Next (s\<lparr>child_status := Some 0, child_out := child_out s @ bytes ''Child finished'' @ [newline]\<rparr>)
      | a # as \<Rightarrow>
          if \<not> announced s
          then Next (s\<lparr>announced := True, child_out := child_out s @ bytes ''child writing '' @ a @ bytes '' to efd'' @ [newline]\<rparr>)
          else
            (let num = unat (strtoull a)
             in if num = 2 ^ 64 - 1 then Next (s\<lparr>child_status := Some 1\<rparr>)
                else if 2 ^ 64 - 2 < counter s + num then Blocked
                else Next (s\<lparr>counter := counter s + num, args_left := as, announced := False\<rparr>)))"

definition parent_step :: "eventfd \<Rightarrow> eventfd outcome" where
  "parent_step s =
     (if parent_read s \<noteq> None then Blocked
      else if \<not> parent_announced s
      then Next (s\<lparr>parent_announced := True, parent_out := parent_out s @ bytes ''Parent read eventfd'' @ [newline]\<rparr>)
      else if counter s = 0 then Blocked
      else Next (s\<lparr>parent_read := Some (counter s), counter := 0,
        parent_out := parent_out s @ bytes ''parent read '' @ decimal (counter s) @ [newline]\<rparr>))"

definition eventfd_start :: "byte list list \<Rightarrow> eventfd" where
  "eventfd_start args =
     \<lparr>counter = 0, args_left = args, announced = False, child_out = [], child_status = None, parent_announced = False,
      parent_out = [], parent_read = None\<rparr>"

text \<open>\<open>main\<close> up to the \<^verbatim>\<open>fork\<close>: usage, the failures of \<^verbatim>\<open>eventfd\<close> and \<^verbatim>\<open>fork\<close>, or two processes.\<close>

definition eventfd_main :: "bool \<Rightarrow> bool \<Rightarrow> byte list list \<Rightarrow> eventfd run" where
  "eventfd_main eventfd_ok fork_ok args =
     (if args = [] \<or> \<not> eventfd_ok \<or> \<not> fork_ok then Exit 1 (eventfd_start args) else Continue (eventfd_start args))"

inductive eventfd_reach :: "byte list list \<Rightarrow> eventfd \<Rightarrow> bool" for args where
  start: "eventfd_main True True args = Continue s \<Longrightarrow> eventfd_reach args s"
| child: "eventfd_reach args s \<Longrightarrow> child_step s = Next s' \<Longrightarrow> eventfd_reach args s'"
| parent: "eventfd_reach args s \<Longrightarrow> parent_step s = Next s' \<Longrightarrow> eventfd_reach args s'"

abbreviation nums :: "byte list list \<Rightarrow> nat list" where
  "nums args \<equiv> map (unat \<circ> strtoull) args"

section \<open>Decimal numbers\<close>

lemma digit_value_digit: "d < 10 \<Longrightarrow> digit_value (48 + of_nat d) = d"
proof -
  assume d: "d < 10"
  then have "unat (48 + of_nat d :: byte) = 48 + d" by (simp add: unat_word_ariths unat_of_nat take_bit_nat_eq_self_iff)
  then show ?thesis using d by (simp add: digit_value_def word_le_nat_alt)
qed

lemma value_of_append_digit:
  "\<forall>c \<in> set cs. digit_value c < base \<Longrightarrow> value_of base acc (cs @ ds) = value_of base (value_of base acc cs) ds"
  by (induction cs arbitrary: acc) auto

lemma decimal_digits: "\<forall>c \<in> set (decimal n). digit_value c < 10"
proof (induction n rule: decimal.induct)
  case (1 n)
  have m: "digit_value (48 + of_nat (n mod 10)) < 10" using digit_value_digit [of "n mod 10"] by simp
  show ?case
  proof (cases "n < 10")
    case True
    then show ?thesis using digit_value_digit [of n] by (simp add: decimal.simps [of n])
  next
    case False
    then show ?thesis using 1 m by (simp add: decimal.simps [of n])
  qed
qed

lemma value_of_decimal: "value_of 10 0 (decimal n) = n"
proof (induction n rule: decimal.induct)
  case (1 n)
  show ?case
  proof (cases "n < 10")
    case True
    then show ?thesis using digit_value_digit [of n] by (simp add: decimal.simps [of n])
  next
    case False
    then show ?thesis using 1 value_of_append_digit [OF decimal_digits, of 0 "n div 10" "[48 + of_nat (n mod 10)]"] digit_value_digit [of "n mod 10"]
      by (simp add: decimal.simps [of n])
  qed
qed

lemma decimal_head: "0 < n \<Longrightarrow> \<exists>c cs. decimal n = c # cs \<and> c \<noteq> 48 \<and> digit_value c < 10"
proof (induction n rule: decimal.induct)
  case (1 n)
  show ?case
  proof (cases "n < 10")
    case True
    moreover have "(48 :: byte) + of_nat n \<noteq> 48"
    proof
      assume "(48 :: byte) + of_nat n = 48"
      then have "digit_value (48 + of_nat n) = digit_value 48" by simp
      then show False using digit_value_digit [OF True] "1.prems" by (simp add: digit_value_def)
    qed
    ultimately show ?thesis using digit_value_digit [of n] by (simp add: decimal.simps [of n])
  next
    case False
    then have "0 < n div 10" by (simp add: div_greater_zero_iff)
    then obtain c cs where "decimal (n div 10) = c # cs" "c \<noteq> 48" "digit_value c < 10" using "1.IH" False by blast
    then show ?thesis using False by (simp add: decimal.simps [of n])
  qed
qed

lemma digit_not_sign: "digit_value c < 10 \<Longrightarrow> \<not> isspace c \<and> c \<noteq> 45 \<and> c \<noteq> 43"
  by (auto simp: digit_value_def isspace_def word_le_nat_alt split: if_splits)

lemma strtoull_decimal: "n < 2 ^ 64 \<Longrightarrow> unat (strtoull (decimal n)) = n"
proof (cases "n = 0")
  case True
  then show ?thesis by (simp add: decimal.simps strtoull_def isspace_def digit_value_def Let_def)
next
  case False
  assume n: "n < 2 ^ 64"
  obtain c cs where c: "decimal n = c # cs" "c \<noteq> 48" "digit_value c < 10" using decimal_head [of n] False by auto
  have "prefixed_value (c # cs) = value_of 10 0 (c # cs)" using c(2) by (cases "(c # cs)" rule: prefixed_value.cases) auto
  then have "prefixed_value (decimal n) = n" using value_of_decimal [of n] c(1) by simp
  then show ?thesis using n c digit_not_sign [OF c(3)] by (simp add: strtoull_def Let_def unat_of_nat take_bit_nat_eq_self_iff)
qed

section \<open>Prefix sums\<close>

text \<open>The counter holds what has been written since the read, and what was read is the sum of the numbers written by then.\<close>

definition eventfd_at :: "byte list list \<Rightarrow> nat \<Rightarrow> nat \<Rightarrow> eventfd \<Rightarrow> bool" where
  "eventfd_at args k j s \<longleftrightarrow>
     j \<le> k \<and> k \<le> length args \<and> args_left s = drop k args \<and> counter s \<le> 2 ^ 64 - 2 \<and>
     counter s + sum_list (take j (nums args)) = sum_list (take k (nums args)) \<and>
     (case parent_read s of
        None \<Rightarrow> j = 0 \<and> parent_out s = (if parent_announced s then bytes ''Parent read eventfd'' @ [newline] else [])
      | Some v \<Rightarrow> v = sum_list (take j (nums args)) \<and> 0 < v \<and> v \<le> 2 ^ 64 - 2 \<and>
          parent_out s = bytes ''Parent read eventfd'' @ [newline] @ bytes ''parent read '' @ decimal v @ [newline])"

lemma child_step_at:
  assumes "eventfd_at args k j s" and "child_step s = Next s'"
  shows "eventfd_at args k j s' \<or> eventfd_at args (Suc k) j s'"
proof -
  have run: "child_status s = None" using assms(2) by (auto simp: child_step_def split: if_splits)
  show ?thesis
  proof (cases "\<exists>a as. args_left s = a # as \<and> announced s \<and> unat (strtoull a) \<noteq> 2 ^ 64 - 1")
    case True
    then obtain a as where a: "args_left s = a # as" "announced s" "unat (strtoull a) \<noteq> 2 ^ 64 - 1" by blast
    then have s': "s' = s\<lparr>counter := counter s + unat (strtoull a), args_left := as, announced := False\<rparr>" "counter s + unat (strtoull a) \<le> 2 ^ 64 - 2"
      using assms(2) run by (auto simp: child_step_def Let_def split: if_splits)
    have d: "drop k args = a # as" using assms(1) a(1) by (simp add: eventfd_at_def)
    then have k: "k < length args" by (metis drop_eq_Nil2 leI list.distinct(1))
    then have "args ! k = a" "drop (Suc k) args = as" using d Cons_nth_drop_Suc [OF k] by simp_all
    then have "eventfd_at args (Suc k) j s'" using assms(1) s' k
      by (auto simp: eventfd_at_def take_Suc_conv_app_nth split: option.splits)
    then show ?thesis ..
  next
    case False
    then have "counter s' = counter s" "args_left s' = args_left s" "parent_read s' = parent_read s"
      "parent_announced s' = parent_announced s" "parent_out s' = parent_out s"
      using assms(2) run by (auto simp: child_step_def Let_def split: if_splits list.splits)
    then show ?thesis using assms(1) by (auto simp: eventfd_at_def split: option.splits)
  qed
qed

lemma parent_step_at:
  assumes "eventfd_at args k j s" and "parent_step s = Next s'"
  shows "eventfd_at args k j s' \<or> eventfd_at args k k s'"
proof -
  have none: "parent_read s = None" using assms(2) by (auto simp: parent_step_def split: if_splits)
  show ?thesis
  proof (cases "parent_announced s")
    case True
    then have "0 < counter s" "s' = s\<lparr>parent_read := Some (counter s), counter := 0,
        parent_out := parent_out s @ bytes ''parent read '' @ decimal (counter s) @ [newline]\<rparr>"
      using assms(2) none by (auto simp: parent_step_def split: if_splits)
    then have "eventfd_at args k k s'" using assms(1) none True by (auto simp: eventfd_at_def)
    then show ?thesis ..
  next
    case False
    then have "s' = s\<lparr>parent_announced := True, parent_out := parent_out s @ bytes ''Parent read eventfd'' @ [newline]\<rparr>"
      using assms(2) none by (simp add: parent_step_def)
    then have "eventfd_at args k j s'" using assms(1) none False by (auto simp: eventfd_at_def)
    then show ?thesis ..
  qed
qed

lemma eventfd_reach_at: "eventfd_reach args s \<Longrightarrow> \<exists>k j. eventfd_at args k j s"
proof (induction rule: eventfd_reach.induct)
  case (start s)
  then have "s = eventfd_start args" by (auto simp: eventfd_main_def split: if_splits)
  then have "eventfd_at args 0 0 s" by (simp add: eventfd_at_def eventfd_start_def)
  then show ?case by blast
next
  case (child s s')
  then show ?case using child_step_at by metis
next
  case (parent s s')
  then show ?case using parent_step_at by metis
qed

section \<open>Properties\<close>

text \<open>C27. What the parent reads from the event counter, under every interleaving with the child: a positive number below \<open>2 ^ 64 - 1\<close>,
  the sum of a prefix of the numbers on the command line, and that is the number it prints. Nothing makes it the sum of
  all of them.\<close>

theorem eventfd_reads_prefix_sum:
  assumes "eventfd_reach args s" and "parent_read s = Some v"
  shows "0 < v \<and> v \<le> 2 ^ 64 - 2 \<and> (\<exists>j \<le> length args. v = sum_list (take j (nums args))) \<and>
    parent_out s = bytes ''Parent read eventfd'' @ [newline] @ bytes ''parent read '' @ decimal v @ [newline]"
proof -
  obtain k j where "eventfd_at args k j s" using eventfd_reach_at [OF assms(1)] by blast
  then show ?thesis using assms(2) by (auto simp: eventfd_at_def intro: order_trans)
qed

text \<open>One argument, written and then read.\<close>

lemma eventfd_run_one:
  assumes "unat (strtoull a) < 2 ^ 64 - 1" and "0 < unat (strtoull a)"
  shows "\<exists>s. eventfd_reach [a] s \<and> parent_read s = Some (unat (strtoull a))"
proof -
  let ?s0 = "eventfd_start [a]"
  define s1 where "s1 = ?s0\<lparr>announced := True, child_out := bytes ''child writing '' @ a @ bytes '' to efd'' @ [newline]\<rparr>"
  define s2 where "s2 = s1\<lparr>counter := unat (strtoull a), args_left := [], announced := False\<rparr>"
  define s3 where "s3 = s2\<lparr>parent_announced := True, parent_out := bytes ''Parent read eventfd'' @ [newline]\<rparr>"
  have "eventfd_reach [a] ?s0" by (rule eventfd_reach.start) (simp add: eventfd_main_def)
  moreover have "child_step ?s0 = Next s1" by (simp add: child_step_def s1_def eventfd_start_def)
  moreover have "child_step s1 = Next s2" using assms(1) by (simp add: child_step_def s2_def s1_def eventfd_start_def Let_def)
  moreover have "parent_step s2 = Next s3" by (simp add: parent_step_def s3_def s2_def s1_def eventfd_start_def)
  ultimately have "eventfd_reach [a] s3" by (metis eventfd_reach.child eventfd_reach.parent)
  moreover obtain s4 where "parent_step s3 = Next s4" "parent_read s4 = Some (unat (strtoull a))"
    using assms(2) by (simp add: parent_step_def s3_def s2_def s1_def eventfd_start_def)
  ultimately show ?thesis using eventfd_reach.parent by blast
qed

theorem eventfd_reads_prefix_sum_witness:
  "\<exists>s. eventfd_reach [[48, 120, 49, 48]] s \<and> parent_read s = Some 16 \<and>
    parent_out s = bytes ''Parent read eventfd'' @ [newline] @ bytes ''parent read '' @ decimal 16 @ [newline]"
proof -
  have "unat (strtoull ([48, 120, 49, 48])) = 16"
    by (simp add: strtoull_def isspace_def digit_value_def Let_def)
  then obtain s where "eventfd_reach [[48, 120, 49, 48]] s" "parent_read s = Some 16"
    using eventfd_run_one [of "[48, 120, 49, 48]"] by auto
  then show ?thesis using eventfd_reads_prefix_sum [of "[[48, 120, 49, 48]]" s 16] by blast
qed

end
