(* ===== verification/Small_Programs.thy ===== *)
theory Small_Programs
  imports Cat_Wc
begin

text \<open>
  Small programs with a loop of their own: \<^verbatim>\<open>src/apue/section01\<close> (\<^verbatim>\<open>echo_print.c\<close>, \<^verbatim>\<open>directory_entry.c\<close>),
  \<^verbatim>\<open>src/linux/tee01\<close> and \<^verbatim>\<open>src/signalfd01\<close>. The answers of the system calls are arguments.
\<close>

section \<open>echo\_print.c and directory\_entry.c\<close>

fun echo_print :: "write_answers \<Rightarrow> rd list \<Rightarrow> cat_io \<Rightarrow> cat_io run" where
  "echo_print W [] s = Hang s"
| "echo_print W (Err intr # rs) s = Exit 1 s"
| "echo_print W (Eof # rs) s = Exit 0 s"
| "echo_print W (Got buffer # rs) s =
     (case W (calls s) of
        None \<Rightarrow> Exit 1 (s\<lparr>calls := calls s + 1\<rparr>)
      | Some m \<Rightarrow> echo_print W rs (s\<lparr>written := written s @ take m buffer, calls := calls s + 1\<rparr>))"

definition directory_entry :: "(file_name \<Rightarrow> file_name list option) \<Rightarrow> file_name list \<Rightarrow> byte list run" where
  "directory_entry opendir args =
     (case args of [] \<Rightarrow> Exit 1 []
      | dir # _ \<Rightarrow>
        (case opendir dir of None \<Rightarrow> Exit 1 []
         | Some names \<Rightarrow>
             Exit 0 (bytes ''Directory '' @ dir @ bytes '' entries'' @ [newline] @
               concat (map (\<lambda>n. bytes ''  '' @ n @ [newline]) names))))"

section \<open>tee01/main.c\<close>

text \<open>The pipe on the standard input, what was copied to the standard output, and the file. \<open>Teed n\<close> copies up to
  \<open>n\<close> bytes of the pipe (0 is its end); each \<^verbatim>\<open>splice\<close> moves some bytes, or fails.\<close>

datatype tee_answer = Tee_Again | Tee_Error | Teed nat "nat option list"

record tee_state =
  pipe :: "byte list"
  tee_out :: "byte list"
  tee_file :: "byte list"

fun splice_loop :: "nat option list \<Rightarrow> nat \<Rightarrow> tee_state \<Rightarrow> tee_state run" where
  "splice_loop [] len s = (if len > 0 then Hang s else Continue s)"
| "splice_loop (r # rs) len s =
     (if len > 0
      then (case r of
              None \<Rightarrow> Continue s
            | Some m \<Rightarrow>
                (let slen = min m len
                 in splice_loop rs (len - slen) (s\<lparr>pipe := drop slen (pipe s), tee_file := tee_file s @ take slen (pipe s)\<rparr>)))
      else Continue s)"

fun tee_loop :: "tee_answer list \<Rightarrow> tee_state \<Rightarrow> tee_state run" where
  "tee_loop [] s = Hang s"
| "tee_loop (Tee_Again # as) s = tee_loop as s"
| "tee_loop (Tee_Error # as) s = Exit 1 s"
| "tee_loop (Teed n rs # as) s =
     (let len = min n (length (pipe s))
      in if len = 0 then Exit 0 s
         else and_run (splice_loop rs len (s\<lparr>tee_out := tee_out s @ take len (pipe s)\<rparr>)) (tee_loop as))"

definition tee_main :: "bool \<Rightarrow> tee_answer list \<Rightarrow> byte list \<Rightarrow> file_name list \<Rightarrow> tee_state run" where
  "tee_main open_ok as stdin args =
     (let s = \<lparr>pipe = stdin, tee_out = [], tee_file = []\<rparr>
      in if args = [] \<or> \<not> open_ok then Exit 1 s else tee_loop as s)"

section \<open>signalfd01/main.c\<close>

datatype signo = SIGINT | SIGTERM | SIGQUIT | Other_Signal nat

text \<open>A read of another length than the structure is \<open>None\<close>.\<close>

fun signal_loop :: "signo option list \<Rightarrow> byte list \<Rightarrow> byte list run" where
  "signal_loop [] out = Hang out"
| "signal_loop (None # ss) out = Exit 1 out"
| "signal_loop (Some SIGINT # ss) out = signal_loop ss (out @ bytes ''GOT SIGINT'' @ [newline])"
| "signal_loop (Some SIGTERM # ss) out = signal_loop ss (out @ bytes ''GOT TERM'' @ [newline])"
| "signal_loop (Some SIGQUIT # ss) out = Exit 0 (out @ bytes ''GOT QUIT and finish'' @ [newline])"
| "signal_loop (Some (Other_Signal n) # ss) out =
     signal_loop ss (out @ bytes ''## unknown signal: '' @ decimal n @ [newline])"

definition signalfd_main :: "bool list \<Rightarrow> signo option list \<Rightarrow> byte list run" where
  "signalfd_main setup ss =
     (if list_all id (take 2 setup) then signal_loop ss (bytes ''## wait signal'' @ [newline]) else Exit 1 [])"

section \<open>What the programs do\<close>

text \<open>Where no read fails, \<open>echo_print\<close> is \<^verbatim>\<open>cat\<close> of the standard input; an interrupted read ends it.\<close>

lemma echo_print_is_cat:
  "list_all (\<lambda>r. \<forall>e. r \<noteq> Err e) rs \<Longrightarrow> echo_print W rs s = and_run (do_cat W rs s) return_0"
proof (induction W rs s rule: echo_print.induct)
  case (4 W buffer rs s)
  then show ?case by (cases "W (calls s)") simp_all
qed (auto simp: return_0_def)

text \<open>As long as no \<^verbatim>\<open>splice\<close> fails, \<^verbatim>\<open>tee01\<close> has written the same prefix of its input to the standard output and to
  the file whenever it ends. After a failed \<^verbatim>\<open>splice\<close> the bytes left in the pipe are copied to the output again.\<close>

lemma splice_loop_moves:
  "list_all (\<lambda>r. r \<noteq> None) rs \<Longrightarrow> splice_loop rs len s = Continue s' \<Longrightarrow>
   pipe s' = drop len (pipe s) \<and> tee_file s' = tee_file s @ take len (pipe s) \<and> tee_out s' = tee_out s"
proof (induction rs len s rule: splice_loop.induct)
  case (1 len s)
  then show ?case by (auto split: if_splits)
next
  case (2 r rs len s)
  then obtain m where m: "r = Some m" by auto
  show ?case
  proof (cases "len > 0")
    case True
    then have "pipe s' = drop (len - min m len) (drop (min m len) (pipe s)) \<and>
        tee_file s' = (tee_file s @ take (min m len) (pipe s)) @ take (len - min m len) (drop (min m len) (pipe s)) \<and>
        tee_out s' = tee_out s"
      using 2 m by (simp add: Let_def)
    moreover have "min m len + (len - min m len) = len" by simp
    ultimately show ?thesis by (metis append_assoc drop_drop take_add add.commute)
  qed (use 2 m in simp)
qed

lemma tee_loop_same:
  "list_all (\<lambda>a. case a of Teed n rs \<Rightarrow> list_all (\<lambda>r. r \<noteq> None) rs | _ \<Rightarrow> True) as \<Longrightarrow>
   tee_out s = tee_file s \<Longrightarrow> tee_out s @ pipe s = all \<Longrightarrow> tee_loop as s = Exit n s' \<Longrightarrow>
   tee_out s' = tee_file s' \<and> tee_out s' @ pipe s' = all"
proof (induction as s rule: tee_loop.induct)
  case (4 k rs as s)
  let ?len = "min k (length (pipe s))" and ?s = "s\<lparr>tee_out := tee_out s @ take (min k (length (pipe s))) (pipe s)\<rparr>"
  show ?case
  proof (cases "?len = 0")
    case False
    then obtain s1 where s1: "splice_loop rs ?len ?s = Continue s1" "tee_loop as s1 = Exit n s'"
    proof (cases "splice_loop rs ?len ?s")
      case (Exit i t)
      have "splice_loop rs' l' t' \<noteq> Exit i t" for rs' l' t'
        by (induction rs' l' t' rule: splice_loop.induct) (auto simp: Let_def split: option.splits)
      then show ?thesis using Exit by blast
    qed (use 4 False that in \<open>auto simp: Let_def\<close>)
    have "list_all (\<lambda>r. r \<noteq> None) rs" using 4 by simp
    note m = splice_loop_moves [OF this s1(1)]
    have "tee_out s1 = tee_file s1" "tee_out s1 @ pipe s1 = all" using m 4 by auto
    moreover have "list_all (\<lambda>a. case a of Teed n rs \<Rightarrow> list_all (\<lambda>r. r \<noteq> None) rs | _ \<Rightarrow> True) as" using "4.prems"(1) by simp
    ultimately show ?thesis using "4.IH" [OF refl False, of s1] s1(2) by blast
  qed (use 4 in \<open>auto simp: Let_def\<close>)
qed auto

text \<open>Only \<^verbatim>\<open>SIGQUIT\<close>, or a failed read, ends the signal loop.\<close>

lemma signal_loop_ends:
  "(\<exists>out'. signal_loop ss out = Exit 0 out') \<longleftrightarrow> find (\<lambda>s. s = None \<or> s = Some SIGQUIT) ss = Some (Some SIGQUIT)"
  by (induction ss out rule: signal_loop.induct) auto

end
