(* ===== verification/Spec2Isabelle.thy ===== *)
theory Spec2Isabelle
  imports Lru_Test Pool_Progress Pool_Clients Cat_Wc Head_Tail Shell Read_Line Dir_Walk Snake Uv_Server Chat_Server Fd_Passing Net_Programs
    Command_Runner Event_Counter Small_Programs
begin

text \<open>
  \<^bold>\<open>Verification of the programs of the repository\<close>

  The repository is a collection of small C programs (and one in C++), each in its own directory under
  \<^verbatim>\<open>src\<close>. This development models the ones with logic of their own, translated from the source function by
  function, and proves what makes them correct, or where they fail. The theories:

  \<^item> \<open>C_Prelude\<close>: machine types, pointers and stores, checked arrays, byte buffers and C strings, chains of
    linked nodes (the locale \<open>linked_nodes\<close>, interpreted by the cache items, the queued jobs and the pool tasks),
    the outcome of a thread's step.
  \<^item> \<open>Posix_Io\<close>: runs of a program (it goes on, ends with a status, blocks, or is undefined), the answers of
    \<^verbatim>\<open>read\<close>, texts and their lines, C strings in buffers, and the locale \<open>file_filter\<close>, the contract of a
    program that treats one file after the other.

  \<^bold>\<open>The LRU cache\<close>, \<^verbatim>\<open>src/lru_cache01\<close>. \<open>Lru_Cache\<close> has every function of \<^verbatim>\<open>lru_cache.c\<close> over an explicit heap
  of items and blocks; the results of \<^verbatim>\<open>malloc\<close> and the contents of fresh memory are arguments, and the loops
  over bucket lists are partial functions. \<open>Lru_Spec\<close> is the abstract cache, first as a bucket table with time
  stamps, then as a recency list with laws stated as locales; \<open>Lru_Refine\<close> and \<open>Lru_Correct\<close> relate the heap to the table
  and the table to the list; \<open>Lru_Properties\<close> holds the properties: memory safety of any sequence of calls, refinement of set, get and
  delete, eviction of the least recent pair, and the situations in which the code loses an insertion, stops
  evicting, reads uninitialised memory, or allocates too small a table because the size wraps around. The properties that
  say the cache is right assume that \<^verbatim>\<open>malloc\<close> does not fail and returns zeroed memory (\<open>zeroing\<close>), since the code
  never clears the table, the age and the link of a new item. \<open>Lru_Test\<close> is the test program \<^verbatim>\<open>test.c\<close> as a client of the cache: whether it passes depends on the
  seed of the hash.

  \<^bold>\<open>The thread pools\<close>, \<^verbatim>\<open>src/thread_pool02\<close> and \<^verbatim>\<open>src/thread_pool01\<close>. \<open>Job_Queue\<close> has condition variables (the number of
  sleepers and of the wake-ups that signals gave them), the semaphore and the linked
  queue of jobs (the locale \<open>fifo_queue\<close> is its interface), \<open>Thread_Pool2\<close> and \<open>Thread_Pool1\<close> the pools: a
  state of the shared variables and of each thread's control point, one step function for a worker and one for
  the client with blocking on mutexes and, in \<open>Thread_Pool2\<close>, falling asleep and being woken (by a signal or for no reason), an inductive relation for the interleaved steps, and
  invariants by rule induction: when a wait returns, what is executed and how often, freedom from undefined
  steps until the pool is freed, and the schedules on which a pool fails. \<open>Pool_Progress\<close> shows that
  the second pool can always finish: from every reachable state a schedule executes all tasks and lets the wait return. \<open>Pool_Clients\<close> has the programs \<^verbatim>\<open>example.c\<close> and
  \<^verbatim>\<open>pool_test.c\<close> as clients of the two pools.

  \<^bold>\<open>The Unix filters\<close>, \<^verbatim>\<open>src/futuu_no_linux_programming\<close>. \<open>Cat_Wc\<close> has \<^verbatim>\<open>cat.c\<close>, \<^verbatim>\<open>cat2.c\<close>, \<^verbatim>\<open>cat3.c\<close>, \<^verbatim>\<open>cat4.c\<close>,
  \<^verbatim>\<open>wc.c\<close> and \<^verbatim>\<open>wc2.c\<close>, \<open>Head_Tail\<close> the three \<^verbatim>\<open>head\<close> programs and \<^verbatim>\<open>tail1.c\<close>: status and output as functions
  of the files, against the lines of a text. The status and the output of \<^verbatim>\<open>cat\<close> are characterised for all answers of the system.

  \<^bold>\<open>The shell\<close>, \<^verbatim>\<open>src/simple_shell01/shell.c\<close>. \<open>Shell\<close> has the growing line buffer, the splitting with \<^verbatim>\<open>strtok\<close>, the builtins,
  the wait loop and \<open>main\<close>; it refines an abstract shell on the lines of its input.
  \<open>Read_Line\<close> is \<^verbatim>\<open>src/read_line/main.c\<close>.

  \<^bold>\<open>The directory walk\<close>, \<^verbatim>\<open>src/apue/section04/count_file_types.c\<close>. \<open>Dir_Walk\<close> keeps the path buffer in an explicit
  heap, since the walk reallocates it; it counts right on a tree whose directory paths are short, and leaves a
  dangling pointer on longer ones. The fuel is the recursion depth; the depth of the tree is enough.

  \<^bold>\<open>The game\<close>, \<^verbatim>\<open>src/snake01/main.cpp\<close>. \<open>Snake\<close> has the classes \<open>Snake\<close> and \<open>Board\<close> and the loop of \<open>main\<close> on the keys read and the points
  drawn, with the invariant of the board, the keys that turn the snake back, and when a new food is found.

  \<^bold>\<open>The servers\<close>. \<open>Echo_Servers\<close> has \<^verbatim>\<open>src/multi_thread_server01\<close>, \<^verbatim>\<open>src/prefork_server01\<close> and \<^verbatim>\<open>src/v6_upcase_echo\<close> with their clients (the
  locale \<open>echo_loop\<close> is what the stream servers share, for any answers of \<^verbatim>\<open>send\<close>; \<^verbatim>\<open>toupper\<close> on negative values is that of the GNU library); \<open>Uv_Server\<close> has the callbacks of \<^verbatim>\<open>src/libuv_tcp_server01\<close> over an explicit heap. The callbacks
  that libuv makes are an argument, its documented promises are the hypothesis \<open>uv_trace\<close> (an error or the end of a stream may come with a null buffer), and the locale \<open>event_loop\<close> carries
  the invariant and an abstract server through a run. \<open>Chat_Server\<close> has the \<^verbatim>\<open>select\<close> loop of
  \<^verbatim>\<open>src/HandsOnNetworkProgrammingWithC/tcp_server_chat01\<close>, each round of which refines an abstract exchange of messages. \<open>Fd_Passing\<close> has \<^verbatim>\<open>src/send_fd_unix_socket\<close>: control messages as bytes, descriptor tables, and
  that an open file arrives. \<open>Net_Programs\<close> has \<^verbatim>\<open>tcp_server01\<close>, \<^verbatim>\<open>interface_address\<close> and \<^verbatim>\<open>src/c-ares01\<close>.

  \<^bold>\<open>Small programs\<close>. \<open>Command_Runner\<close> has \<^verbatim>\<open>run_command.c\<close> and \<^verbatim>\<open>run_command_with_signal.c\<close> of \<^verbatim>\<open>src/apue/section01\<close> and their equivalence up to
  one line for each signal, \<open>Event_Counter\<close> has \<^verbatim>\<open>src/eventfd01\<close> with its two processes, and \<open>Small_Programs\<close> has \<^verbatim>\<open>echo_print.c\<close>, \<^verbatim>\<open>directory_entry.c\<close>,
  \<^verbatim>\<open>src/linux/tee01\<close> and \<^verbatim>\<open>src/signalfd01\<close>, with a lemma on what each does.

  \<^bold>\<open>Conventions.\<close> An operation that could be undefined in C has an option or a run as its result, and safety is proved
  as \<^emph>\<open>returns\<close>. What the system or a library answers is an argument: lists of answers are finite, and a call
  behind their end blocks. Machine integers are words where they wrap (time stamps, hashes, \<^verbatim>\<open>size_t\<close>
  counters that are printed), and \<open>int\<close> with the undefined overflow written out where the C type is a signed counter;
  sizes and offsets bounded by memory are \<open>nat\<close>. Diagnostics on the standard error are left out except in the
  shell, whose history records them.

  \<^bold>\<open>Not modelled\<close>: \<^verbatim>\<open>gstreamer\<close> and \<^verbatim>\<open>ncurses01\<close> (calls of libraries that are not in the repository), the straight-line
  demonstrations of single calls (\<^verbatim>\<open>linux/fexecve\<close>, \<^verbatim>\<open>libc\<close>, \<^verbatim>\<open>float128\<close>, and \<^verbatim>\<open>perror.c\<close>, \<^verbatim>\<open>getpid.c\<close>, \<^verbatim>\<open>uid_gid.c\<close> of \<^verbatim>\<open>apue/section01\<close>), which
  have no logic of their own, and the draft \<^verbatim>\<open>simple_shell01/main.c\<close>, which does not compile.
\<close>

end
